(* ===== verification/Dandelion_Prelude.thy ===== *)
theory Dandelion_Prelude
  imports Main "HOL-Library.Word"
begin

text \<open>
  The shared layer of the development: the machine types of the Rust sources, the
  result type of fallible code, the text and byte conversions of the Rust standard
  library that several components use (digits, decimal and hexadecimal printing,
  big-endian bytes, UTF-8), and the generic lemmas on them.

  A Rust \<^verbatim>\<open>String\<close> or \<^verbatim>\<open>&str\<close> is a \<^typ>\<open>string\<close>, that is the list of its
  UTF-8 bytes (an Isabelle \<^typ>\<open>char\<close> is one byte); a \<^verbatim>\<open>Vec<u8>\<close> or a slice of
  bytes is a list of \<^typ>\<open>8 word\<close>.
\<close>

type_synonym u8 = "8 word"
type_synonym u16 = "16 word"
type_synonym u32 = "32 word"
type_synonym bytes = "u8 list"

text \<open>The outcome of a single \<^verbatim>\<open>poll\<close> of a Rust future.\<close>

datatype 'a poll = Pending | Ready 'a

text \<open>The outcome of code that may also panic (\<^verbatim>\<open>expect\<close>, \<^verbatim>\<open>unwrap\<close>, \<^verbatim>\<open>unreachable!\<close>).\<close>

datatype 'a outcome = Normal 'a | Panic

section \<open>Steps and invariants\<close>

text \<open>
  Concurrent code is a relation of steps between states.  The states reachable by it, and
  the contract of an invariant: every step keeps it, so it holds in every reachable state.
\<close>

inductive reach :: "('s \<Rightarrow> 's \<Rightarrow> bool) \<Rightarrow> 's \<Rightarrow> 's \<Rightarrow> bool" for step_rel s0 where
  start: "reach step_rel s0 s0"
| step: "reach step_rel s0 s \<Longrightarrow> step_rel s s' \<Longrightarrow> reach step_rel s0 s'"

lemma reach_step: "step_rel s s' \<Longrightarrow> reach step_rel s s'"
  by (rule reach.step [OF reach.start])

lemma reach_trans:
  assumes "reach step_rel s s'" and "reach step_rel s' s''"
  shows "reach step_rel s s''"
  using assms(2) by (induction rule: reach.induct) (auto intro: assms(1) reach.step)

lemma reach_prepend: "step_rel s s' \<Longrightarrow> reach step_rel s' s'' \<Longrightarrow> reach step_rel s s''"
  by (rule reach_trans [OF reach_step])

locale step_invariant =
  fixes step_rel :: "'s \<Rightarrow> 's \<Rightarrow> bool" and inv :: "'s \<Rightarrow> bool"
  assumes inv_step: "step_rel s s' \<Longrightarrow> inv s \<Longrightarrow> inv s'"
begin

lemma inv_reach: "reach step_rel s0 s \<Longrightarrow> inv s0 \<Longrightarrow> inv s"
  by (induction rule: reach.induct) (auto intro: inv_step)

end

section \<open>Results\<close>

text \<open>
  \<^verbatim>\<open>Result<T, E>\<close> is \<open>'e + 'a\<close> with \<^const>\<open>Inl\<close> for the error; \<open>res_bind\<close> is the
  \<^verbatim>\<open>?\<close> operator.
\<close>

definition res_bind :: "'e + 'a \<Rightarrow> ('a \<Rightarrow> 'e + 'b) \<Rightarrow> 'e + 'b" where
  "res_bind r f = (case r of Inl e \<Rightarrow> Inl e | Inr a \<Rightarrow> f a)"

definition is_ok :: "'e + 'a \<Rightarrow> bool" where
  "is_ok r = (case r of Inl _ \<Rightarrow> False | Inr _ \<Rightarrow> True)"

definition ok_or :: "'e \<Rightarrow> 'a option \<Rightarrow> 'e + 'a" where
  "ok_or e o' = (case o' of None \<Rightarrow> Inl e | Some a \<Rightarrow> Inr a)"

lemma res_bind_simps [simp]:
  "res_bind (Inl e) f = Inl e" "res_bind (Inr a) f = f a"
  by (simp_all add: res_bind_def)

lemma res_bind_eq_Inr: "res_bind r f = Inr b \<longleftrightarrow> (\<exists>a. r = Inr a \<and> f a = Inr b)"
  by (cases r) simp_all

lemma is_ok_simps [simp]: "is_ok (Inl e) = False" "is_ok (Inr a) = True"
  by (simp_all add: is_ok_def)

lemma is_ok_iff: "is_ok r \<longleftrightarrow> (\<exists>a. r = Inr a)"
  by (cases r) simp_all

lemma ok_or_simps [simp]: "ok_or e None = Inl e" "ok_or e (Some a) = Inr a"
  by (simp_all add: ok_or_def)

section \<open>Bytes and text\<close>

definition byte_char :: "u8 \<Rightarrow> char" where
  "byte_char b = char_of (unat b)"

definition char_byte :: "char \<Rightarrow> u8" where
  "char_byte c = of_nat (of_char c)"

definition as_bytes :: "string \<Rightarrow> bytes" where
  "as_bytes s = map char_byte s"

lemma char_byte_char [simp]: "byte_char (char_byte c) = c"
  by (simp add: byte_char_def char_byte_def unat_of_nat)

lemma byte_char_byte [simp]: "char_byte (byte_char b) = b"
  using unsigned_less [of b, where ?'a = nat]
  by (simp add: byte_char_def char_byte_def)

lemma length_as_bytes [simp]: "length (as_bytes s) = length s"
  by (simp add: as_bytes_def)

lemma map_byte_char_as_bytes [simp]: "map byte_char (as_bytes s) = s"
  by (simp add: as_bytes_def comp_def)

lemma as_bytes_map_byte_char [simp]: "as_bytes (map byte_char bs) = bs"
  by (simp add: as_bytes_def comp_def)

text \<open>
  Well-formed UTF-8, as \<^verbatim>\<open>String::from_utf8\<close> validates it: no overlong forms, no
  surrogates, nothing above U+10FFFF.
\<close>

definition utf8_cont :: "u8 \<Rightarrow> bool" where
  "utf8_cont b \<longleftrightarrow> 0x80 \<le> b \<and> b \<le> 0xBF"

definition utf8_second :: "u8 \<Rightarrow> u8 \<Rightarrow> bool" where
  "utf8_second b c \<longleftrightarrow>
     (if b = 0xE0 then 0xA0 \<le> c \<and> c \<le> 0xBF
      else if b = 0xED then 0x80 \<le> c \<and> c \<le> 0x9F
      else if b = 0xF0 then 0x90 \<le> c \<and> c \<le> 0xBF
      else if b = 0xF4 then 0x80 \<le> c \<and> c \<le> 0x8F
      else utf8_cont c)"

fun utf8_valid :: "bytes \<Rightarrow> bool" where
  "utf8_valid [] = True"
| "utf8_valid (b # bs) =
     (if b < 0x80 then utf8_valid bs
      else if 0xC2 \<le> b \<and> b \<le> 0xDF then
        (case bs of c # bs' \<Rightarrow> utf8_cont c \<and> utf8_valid bs' | _ \<Rightarrow> False)
      else if 0xE0 \<le> b \<and> b \<le> 0xEF then
        (case bs of c # d # bs' \<Rightarrow> utf8_second b c \<and> utf8_cont d \<and> utf8_valid bs'
         | _ \<Rightarrow> False)
      else if 0xF0 \<le> b \<and> b \<le> 0xF4 then
        (case bs of c # d # e # bs' \<Rightarrow>
           utf8_second b c \<and> utf8_cont d \<and> utf8_cont e \<and> utf8_valid bs'
         | _ \<Rightarrow> False)
      else False)"

definition from_utf8 :: "bytes \<Rightarrow> string option" where
  "from_utf8 bs = (if utf8_valid bs then Some (map byte_char bs) else None)"

text \<open>A text that a Rust string can hold.\<close>

definition rust_str :: "string \<Rightarrow> bool" where
  "rust_str s \<longleftrightarrow> utf8_valid (as_bytes s)"

lemma from_utf8_as_bytes [simp]: "rust_str s \<Longrightarrow> from_utf8 (as_bytes s) = Some s"
  by (simp add: from_utf8_def rust_str_def)

lemma from_utf8_Some: "from_utf8 bs = Some s \<longleftrightarrow> rust_str s \<and> bs = as_bytes s"
  by (auto simp: from_utf8_def rust_str_def)

lemma utf8_valid_ascii: "(\<And>b. b \<in> set bs \<Longrightarrow> b < 0x80) \<Longrightarrow> utf8_valid bs"
  by (induction bs) auto

section \<open>Big-endian words\<close>

definition u16_to_be_bytes :: "u16 \<Rightarrow> bytes" where
  "u16_to_be_bytes w = [ucast (drop_bit 8 w), ucast w]"

definition u16_from_be_bytes :: "u8 \<Rightarrow> u8 \<Rightarrow> u16" where
  "u16_from_be_bytes hi lo = push_bit 8 (ucast hi) + ucast lo"

lemma u16_be_roundtrip:
  "u16_to_be_bytes w = [hi, lo] \<Longrightarrow> u16_from_be_bytes hi lo = w"
proof -
  assume "u16_to_be_bytes w = [hi, lo]"
  then have hi: "hi = ucast (drop_bit 8 w)" and lo: "lo = ucast w"
    by (auto simp: u16_to_be_bytes_def)
  have "unat w < 65536" using unsigned_less [of w, where ?'a = nat] by simp
  then have "unat (u16_from_be_bytes hi lo) = unat w"
    unfolding u16_from_be_bytes_def hi lo
    by (simp add: unat_word_ariths unsigned_ucast_eq take_bit_eq_mod push_bit_eq_mult drop_bit_eq_div unat_div)
  then show ?thesis by (simp add: word_unat_eq_iff)
qed

lemma u16_be_injective:
  "u16_to_be_bytes (u16_from_be_bytes hi lo) = [hi, lo]"
proof -
  have "unat hi < 256" "unat lo < 256"
    using unsigned_less [of hi, where ?'a = nat] unsigned_less [of lo, where ?'a = nat]
    by simp_all
  then show ?thesis
    unfolding u16_to_be_bytes_def u16_from_be_bytes_def
    by (simp add: word_unat_eq_iff unat_word_ariths unsigned_ucast_eq take_bit_eq_mod push_bit_eq_mult
        drop_bit_eq_div unat_div)
qed

section \<open>Digits and numbers\<close>

text \<open>\<^verbatim>\<open>char::to_digit(radix)\<close>, and the digit characters of \<^verbatim>\<open>{}\<close> and \<^verbatim>\<open>{:x}\<close>.\<close>

definition to_digit :: "nat \<Rightarrow> char \<Rightarrow> nat option" where
  "to_digit radix c =
     (let n = of_char c :: nat;
          d = (if 48 \<le> n \<and> n \<le> 57 then n - 48
               else if 97 \<le> n \<and> n \<le> 122 then n - 87
               else if 65 \<le> n \<and> n \<le> 90 then n - 55
               else radix)
      in if d < radix then Some d else None)"

definition digit_char :: "nat \<Rightarrow> char" where
  "digit_char d = char_of (if d < 10 then 48 + d else 87 + d)"

text \<open>Printing a number in a radix, most significant digit first.\<close>

fun digits_of :: "nat \<Rightarrow> nat \<Rightarrow> nat list" where
  "digits_of radix n =
     (if radix < 2 \<or> n < radix then [n] else digits_of radix (n div radix) @ [n mod radix])"

declare digits_of.simps [simp del]

definition show_radix :: "nat \<Rightarrow> nat \<Rightarrow> string" where
  "show_radix radix n = map digit_char (digits_of radix n)"

definition digits_value :: "nat \<Rightarrow> nat \<Rightarrow> nat list \<Rightarrow> nat" where
  "digits_value radix acc ds = foldl (\<lambda>a d. a * radix + d) acc ds"

lemma to_digit_digit_char [simp]:
  "d < radix \<Longrightarrow> radix \<le> 36 \<Longrightarrow> to_digit radix (digit_char d) = Some d"
  by (auto simp: to_digit_def digit_char_def Let_def)

lemma digits_value_simps [simp]:
  "digits_value radix acc [] = acc"
  "digits_value radix acc (d # ds) = digits_value radix (acc * radix + d) ds"
  "digits_value radix acc (ds @ [d]) = digits_value radix acc ds * radix + d"
  by (simp_all add: digits_value_def)

lemma digits_value_digits_of: "digits_value radix 0 (digits_of radix n) = n"
proof (induction radix n rule: digits_of.induct)
  case (1 radix n)
  then show ?case by (cases "radix < 2 \<or> n < radix") (simp_all add: digits_of.simps [of radix n])
qed

lemma digits_of_less: "2 \<le> radix \<Longrightarrow> d \<in> set (digits_of radix n) \<Longrightarrow> d < radix"
proof (induction radix n rule: digits_of.induct)
  case (1 radix n)
  then show ?case
    by (cases "n < radix") (auto simp: digits_of.simps [of radix n])
qed

lemma digits_of_neq_Nil [simp]: "digits_of radix n \<noteq> []"
  by (subst digits_of.simps) simp

lemma digits_of_small: "n < radix \<Longrightarrow> digits_of radix n = [n]"
  by (subst digits_of.simps) simp

lemma length_digits_of_le:
  "2 \<le> radix \<Longrightarrow> n < radix ^ k \<Longrightarrow> 0 < k \<Longrightarrow> length (digits_of radix n) \<le> k"
proof (induction k arbitrary: n)
  case (Suc k)
  show ?case
  proof (cases "n < radix")
    case False
    with Suc.prems have "0 < k" by (cases k) auto
    moreover have "n div radix < radix ^ k"
      using Suc.prems by (simp add: less_mult_imp_div_less mult.commute)
    ultimately have "length (digits_of radix (n div radix)) \<le> k"
      using Suc by blast
    with False Suc.prems show ?thesis by (subst digits_of.simps) simp
  qed (simp add: digits_of_small)
qed simp

text \<open>The first digit is zero only for the number zero itself.\<close>

lemma hd_digits_of_pos: "2 \<le> radix \<Longrightarrow> 0 < n \<Longrightarrow> 0 < hd (digits_of radix n)"
proof (induction radix n rule: digits_of.induct)
  case (1 radix n)
  then show ?case
    by (cases "n < radix")
      (auto simp: digits_of.simps [of radix n] div_greater_zero_iff)
qed

end
