(* ===== verification/Script_Api.thy ===== *)
theory Script_Api
  imports Dandelion_Prelude
begin

text \<open>
  What scripts can call: the \<^verbatim>\<open>module()\<close> functions of \<^verbatim>\<open>config/engine/\<close>, which register types
  and functions with the script language, the installation of the five modules by
  \<^verbatim>\<open>Engine::load_config\<close>, the wrapper types of \<^verbatim>\<open>config/rune.rs\<close>, and the preparation of a
  script shared by \<^verbatim>\<open>load_config\<close> and the helper of \<^verbatim>\<open>config/engine/testing.rs\<close>.

  The language (\<^verbatim>\<open>rune\<close>) is a parameter, a record of the calls the sources make.  What the
  sources rely on when they register names is the locale \<open>registry\<close>: a registration or an
  installation is refused only for a name that is there already, or for an associated function
  of a type that is not.
\<close>

section \<open>Modules\<close>

text \<open>An entry of a module: a type, a function, or an associated function of a type.\<close>

datatype module_item = TyItem string | FnItem string | AssocItem string string

record ('e, 'm, 'c, 's, 'd, 'rt, 'u) rune_lib =
  rn_module_new :: 'm
  rn_module_item :: "module_item \<Rightarrow> 'm \<Rightarrow> 'e + 'm"
  rn_default :: "'e + 'c"
  rn_install :: "'m \<Rightarrow> 'c \<Rightarrow> 'e + 'c"
  rn_source :: "string \<Rightarrow> 'e + 's"
  rn_build :: "'c \<Rightarrow> 's \<Rightarrow> 'd option \<times> ('e + 'u)"
  rn_emit :: "'d \<Rightarrow> 's \<Rightarrow> 'e + unit"
  rn_runtime :: "'c \<Rightarrow> 'e + 'rt"

fun add_items :: "('e, 'm, 'c, 's, 'd, 'rt, 'u) rune_lib \<Rightarrow> module_item list \<Rightarrow> 'm \<Rightarrow> 'e + 'm" where
  "add_items R [] m = Inr m"
| "add_items R (i # is) m = res_bind (rn_module_item R i m) (add_items R is)"

definition config_items :: "module_item list" where
  "config_items = [TyItem ''Config'', AssocItem ''Config'' ''new'',
     AssocItem ''Config'' ''add_socks5_acceptor'', AssocItem ''Config'' ''add_http_acceptor'']"

definition connect_items :: "module_item list" where
  "connect_items = [TyItem ''ConnectRequest'', TyItem ''IoWrapper'', TyItem ''SimplexConfig'',
     FnItem ''new_tcp_async'', FnItem ''new_tls_async'', FnItem ''new_block_async'',
     FnItem ''new_http_async'', FnItem ''new_simplex_async'', FnItem ''new_socks5_async'',
     FnItem ''new_quic_connection_async'', FnItem ''new_quic_async'',
     AssocItem ''ConnectRequest'' ''port'', AssocItem ''ConnectRequest'' ''hostname'',
     AssocItem ''ConnectRequest'' ''endpoint'', AssocItem ''ConnectRequest'' ''hostname_is_ip'']"

definition resolver_items :: "module_item list" where
  "resolver_items = [TyItem ''ResolverWrapper'', FnItem ''create_system_resolver'',
     FnItem ''create_udp_resolver'', AssocItem ''ResolverWrapper'' ''lookup_async'',
     AssocItem ''ResolverWrapper'' ''lookup_ipv4_async'', AssocItem ''ResolverWrapper'' ''lookup_ipv6_async'']"

definition iplist_items :: "module_item list" where
  "iplist_items = [TyItem ''IpNetworkSetWrapper'', FnItem ''new_iplist'',
     AssocItem ''IpNetworkSetWrapper'' ''contains'', AssocItem ''IpNetworkSetWrapper'' ''contains_any'']"

definition geoip_items :: "module_item list" where
  "geoip_items = [TyItem ''GeoIp'', AssocItem ''GeoIp'' ''lookup'',
     FnItem ''create_geoip_from_url_async'', FnItem ''create_geoip_from_absolute_path'']"

definition new_module ::
  "('e, 'm, 'c, 's, 'd, 'rt, 'u) rune_lib \<Rightarrow> module_item list \<Rightarrow> 'e + 'm" where
  "new_module R is = add_items R is (rn_module_new R)"

text \<open>Each module is built and installed before the next one is built.\<close>

fun install_modules ::
  "('e, 'm, 'c, 's, 'd, 'rt, 'u) rune_lib \<Rightarrow> module_item list list \<Rightarrow> 'c \<Rightarrow> 'e + 'c" where
  "install_modules R [] c = Inr c"
| "install_modules R (is # iss) c =
     res_bind (new_module R is) (\<lambda>m. res_bind (rn_install R m c) (install_modules R iss))"

definition engine_modules :: "module_item list list" where
  "engine_modules = [config_items, connect_items, resolver_items, iplist_items, geoip_items]"

section \<open>Preparing a script\<close>

text \<open>
  The text becomes a source, the modules are installed into a fresh context, the script is
  compiled, its diagnostics are written out if there are any, and only then the outcome of the
  compilation is looked at.
\<close>

definition prepare_script ::
  "('e, 'm, 'c, 's, 'd, 'rt, 'u) rune_lib \<Rightarrow> module_item list list \<Rightarrow> string \<Rightarrow> 'e + ('rt \<times> 'u)" where
  "prepare_script R iss code =
     res_bind (rn_source R code) (\<lambda>sources.
     res_bind (rn_default R) (\<lambda>context0.
     res_bind (install_modules R iss context0) (\<lambda>context.
     case rn_build R context sources of (diagnostics, result) \<Rightarrow>
     res_bind (case diagnostics of None \<Rightarrow> Inr () | Some d \<Rightarrow> rn_emit R d sources) (\<lambda>_.
     res_bind (rn_runtime R context) (\<lambda>runtime.
     res_bind result (\<lambda>unit. Inr (runtime, unit)))))))"

text \<open>
  The helper for tests takes modules that are built already, and makes the context before
  the source; \<open>call\<close> is the call of \<^verbatim>\<open>main\<close>, its value converted and its own result.
\<close>

fun install_all :: "('e, 'm, 'c, 's, 'd, 'rt, 'u) rune_lib \<Rightarrow> 'm list \<Rightarrow> 'c \<Rightarrow> 'e + 'c" where
  "install_all R [] c = Inr c"
| "install_all R (m # ms) c = res_bind (rn_install R m c) (install_all R ms)"

definition test_source :: "string \<Rightarrow> string" where
  "test_source code =
     ''\<newline>        pub async fn main(value) {\<newline>            '' @ code @ ''\<newline>        }\<newline>        ''"

definition testing_run ::
  "('e, 'm, 'c, 's, 'd, 'rt, 'u) rune_lib \<Rightarrow> ('rt \<Rightarrow> 'u \<Rightarrow> 'a \<Rightarrow> 'e + ('e + ('e + 'v))) \<Rightarrow>
   'm list \<Rightarrow> string \<Rightarrow> 'a \<Rightarrow> 'e + 'v" where
  "testing_run R call modules code args =
     res_bind (rn_default R) (\<lambda>context0.
     res_bind (install_all R modules context0) (\<lambda>context.
     res_bind (rn_source R (test_source code)) (\<lambda>sources.
     case rn_build R context sources of (diagnostics, result) \<Rightarrow>
     res_bind (case diagnostics of None \<Rightarrow> Inr () | Some d \<Rightarrow> rn_emit R d sources) (\<lambda>_.
     res_bind (rn_runtime R context) (\<lambda>runtime.
     res_bind result (\<lambda>unit.
     res_bind (call runtime unit args) (\<lambda>value.
     res_bind value (\<lambda>r. r))))))))"

section \<open>Wrappers\<close>

text \<open>
  \<^verbatim>\<open>create_wrapper!\<close> makes a type with one field, a conversion into it and two ways out; its
  second form boxes a trait object, which is the value itself here.
\<close>

datatype 'a wrapper = Wrapper 'a

definition wrapper_from :: "'a \<Rightarrow> 'a wrapper" where
  "wrapper_from t = Wrapper t"

primrec into_inner :: "'a wrapper \<Rightarrow> 'a" where
  "into_inner (Wrapper t) = t"

primrec inner :: "'a wrapper \<Rightarrow> 'a" where
  "inner (Wrapper t) = t"

section \<open>The registry\<close>

text \<open>The entry has the type it belongs to among those present.\<close>

fun has_type :: "module_item set \<Rightarrow> module_item \<Rightarrow> bool" where
  "has_type present (AssocItem ty _) = (TyItem ty \<in> present)"
| "has_type present _ = True"

lemma has_type_mono: "has_type A i \<Longrightarrow> A \<subseteq> B \<Longrightarrow> has_type B i"
  by (cases i) auto

locale registry =
  fixes R :: "('e, 'm, 'c, 's, 'd, 'rt, 'u) rune_lib"
    and items :: "'m \<Rightarrow> module_item list"
    and offered :: "'c \<Rightarrow> module_item set"
  assumes items_new: "items (rn_module_new R) = []"
    and add_item: "i \<notin> set (items m) \<Longrightarrow> \<exists>m'. rn_module_item R i m = Inr m' \<and> items m' = items m @ [i]"
    and install: "set (items m) \<inter> offered c = {} \<Longrightarrow>
      \<forall>i \<in> set (items m). has_type (set (items m) \<union> offered c) i \<Longrightarrow>
      \<exists>c'. rn_install R m c = Inr c' \<and> offered c' = offered c \<union> set (items m)"
begin

lemma add_items_ok:
  "distinct (items m @ is) \<Longrightarrow> \<exists>m'. add_items R is m = Inr m' \<and> items m' = items m @ is"
proof (induction "is" arbitrary: m)
  case (Cons i "is")
  then obtain m1 where m1: "rn_module_item R i m = Inr m1" "items m1 = items m @ [i]"
    using add_item [of i m] by auto
  with Cons.prems Cons.IH [of m1] show ?case by auto
qed simp

lemma new_module_ok: "distinct is \<Longrightarrow> \<exists>m. new_module R is = Inr m \<and> items m = is"
  using add_items_ok [of "rn_module_new R" "is"] by (simp add: items_new new_module_def)

lemma install_modules_ok:
  "distinct (concat iss) \<Longrightarrow> set (concat iss) \<inter> offered c = {} \<Longrightarrow>
   \<forall>is \<in> set iss. \<forall>i \<in> set is. has_type (set is) i \<Longrightarrow>
   \<exists>c'. install_modules R iss c = Inr c' \<and> offered c' = offered c \<union> set (concat iss)"
proof (induction iss arbitrary: c)
  case (Cons "is" iss)
  obtain m where m: "new_module R is = Inr m" "items m = is"
    using new_module_ok [of "is"] Cons.prems(1) by auto
  have "\<forall>i \<in> set is. has_type (set is \<union> offered c) i"
    using Cons.prems(3) has_type_mono by fastforce
  then obtain c1 where c1: "rn_install R m c = Inr c1" "offered c1 = offered c \<union> set is"
    using install [of m c] m(2) Cons.prems(2) by auto
  have "\<exists>c'. install_modules R iss c1 = Inr c' \<and> offered c' = offered c1 \<union> set (concat iss)"
    by (rule Cons.IH) (use Cons.prems c1(2) in auto)
  with m c1 show ?case by auto
qed simp

end

text \<open>A registry as lists: the instance that shows the contract can be kept.\<close>

definition list_registry :: "(unit, module_item list, module_item list, string, unit, unit, string) rune_lib" where
  "list_registry = \<lparr>rn_module_new = [],
     rn_module_item = (\<lambda>i m. if i \<in> set m then Inl () else Inr (m @ [i])),
     rn_default = Inr [],
     rn_install = (\<lambda>m c. if set m \<inter> set c = {} \<and> list_all (has_type (set m \<union> set c)) m
       then Inr (c @ m) else Inl ()),
     rn_source = Inr, rn_build = (\<lambda>c s. (None, Inr s)), rn_emit = (\<lambda>d s. Inr ()), rn_runtime = (\<lambda>c. Inr ())\<rparr>"

interpretation list_registry: registry list_registry "\<lambda>m. m" set
  by unfold_locales (auto simp: list_registry_def list_all_iff)

section \<open>Properties\<close>

text \<open>The functions, types and methods that the README documents for scripts.\<close>

definition documented_items :: "module_item list" where
  "documented_items =
     [AssocItem ''Config'' ''new'', AssocItem ''Config'' ''add_socks5_acceptor'', AssocItem ''Config'' ''add_http_acceptor'',
      AssocItem ''ConnectRequest'' ''endpoint'', AssocItem ''ConnectRequest'' ''hostname'',
      AssocItem ''ConnectRequest'' ''port'', AssocItem ''ConnectRequest'' ''hostname_is_ip'',
      FnItem ''new_tcp_async'', FnItem ''new_tls_async'', FnItem ''new_http_async'', FnItem ''new_socks5_async'',
      FnItem ''new_quic_connection_async'', FnItem ''new_quic_async'', FnItem ''new_simplex_async'', FnItem ''new_block_async'',
      FnItem ''create_system_resolver'', FnItem ''create_udp_resolver'',
      AssocItem ''ResolverWrapper'' ''lookup_async'', AssocItem ''ResolverWrapper'' ''lookup_ipv4_async'',
      AssocItem ''ResolverWrapper'' ''lookup_ipv6_async'',
      FnItem ''create_geoip_from_absolute_path'', FnItem ''create_geoip_from_url_async'', AssocItem ''GeoIp'' ''lookup'',
      FnItem ''new_iplist'', AssocItem ''IpNetworkSetWrapper'' ''contains'', AssocItem ''IpNetworkSetWrapper'' ''contains_any'']"

lemma engine_modules_distinct: "distinct (concat engine_modules)"
  by code_simp

lemma engine_modules_typed: "list_all (\<lambda>is. list_all (has_type (set is)) is) engine_modules"
  by code_simp

lemma engine_modules_documented: "list_all (\<lambda>i. i \<in> set (concat engine_modules)) documented_items"
  by code_simp



end
