(* ===== verification/Std_Net.thy ===== *)
theory Std_Net
  imports Dandelion_Prelude
begin

text \<open>
  The parts of the Rust standard library's \<^verbatim>\<open>std::net\<close> that dandelion rests on:
  the address types, their \<^verbatim>\<open>Display\<close> forms and the address parser behind
  \<^verbatim>\<open>str::parse\<close>.  The parser is written the way \<^verbatim>\<open>core::net::parser\<close> is: a
  reader takes the remaining input and either fails, leaving the input alone
  (\<^verbatim>\<open>read_atomically\<close>), or returns a value and what is left.  The theory ends with
  the round trips from an address through its text.
\<close>

section \<open>Addresses\<close>

datatype ipv4_addr = Ipv4Addr u8 u8 u8 u8
datatype ipv6_addr = Ipv6Addr u16 u16 u16 u16 u16 u16 u16 u16
datatype ip_addr = V4 ipv4_addr | V6 ipv6_addr

record socket_addr_v6 =
  v6_ip :: ipv6_addr
  v6_port :: u16
  v6_flowinfo :: u32
  v6_scope_id :: u32

datatype socket_addr = SocketV4 ipv4_addr u16 | SocketV6 socket_addr_v6

fun socket_addr_new :: "ip_addr \<Rightarrow> u16 \<Rightarrow> socket_addr" where
  "socket_addr_new (V4 a) p = SocketV4 a p"
| "socket_addr_new (V6 a) p =
     SocketV6 \<lparr>v6_ip = a, v6_port = p, v6_flowinfo = 0, v6_scope_id = 0\<rparr>"

fun socket_ip :: "socket_addr \<Rightarrow> ip_addr" where
  "socket_ip (SocketV4 a p) = V4 a"
| "socket_ip (SocketV6 r) = V6 (v6_ip r)"

fun socket_port :: "socket_addr \<Rightarrow> u16" where
  "socket_port (SocketV4 a p) = p"
| "socket_port (SocketV6 r) = v6_port r"

fun ipv6_segments :: "ipv6_addr \<Rightarrow> u16 list" where
  "ipv6_segments (Ipv6Addr a b c d e f g h) = [a, b, c, d, e, f, g, h]"

definition ipv6_of_segments :: "u16 list \<Rightarrow> ipv6_addr" where
  "ipv6_of_segments xs =
     Ipv6Addr (xs ! 0) (xs ! 1) (xs ! 2) (xs ! 3) (xs ! 4) (xs ! 5) (xs ! 6) (xs ! 7)"

fun ipv4_octets :: "ipv4_addr \<Rightarrow> bytes" where
  "ipv4_octets (Ipv4Addr a b c d) = [a, b, c, d]"

definition ipv4_of_octets :: "bytes \<Rightarrow> ipv4_addr" where
  "ipv4_of_octets bs = Ipv4Addr (bs ! 0) (bs ! 1) (bs ! 2) (bs ! 3)"

fun u16s_of_bytes :: "bytes \<Rightarrow> u16 list" where
  "u16s_of_bytes (hi # lo # bs) = u16_from_be_bytes hi lo # u16s_of_bytes bs"
| "u16s_of_bytes _ = []"

definition ipv6_of_octets :: "bytes \<Rightarrow> ipv6_addr" where
  "ipv6_of_octets bs = ipv6_of_segments (u16s_of_bytes bs)"

definition ipv6_octets :: "ipv6_addr \<Rightarrow> bytes" where
  "ipv6_octets a = concat (map u16_to_be_bytes (ipv6_segments a))"

lemma length_ipv6_segments [simp]: "length (ipv6_segments a) = 8"
  by (cases a) simp

lemma ipv6_of_segments_segments [simp]: "ipv6_of_segments (ipv6_segments a) = a"
  by (cases a) (simp add: ipv6_of_segments_def)

lemma ipv4_of_octets_octets [simp]: "ipv4_of_octets (ipv4_octets a) = a"
  by (cases a) (simp add: ipv4_of_octets_def)

lemma length_ipv4_octets [simp]: "length (ipv4_octets a) = 4"
  by (cases a) simp

lemma u16s_of_bytes_be [simp]:
  "u16s_of_bytes (u16_to_be_bytes w @ bs) = w # u16s_of_bytes bs"
  using u16_be_roundtrip [of w] by (simp add: u16_to_be_bytes_def)

lemma u16s_of_bytes_concat [simp]: "u16s_of_bytes (concat (map u16_to_be_bytes ws)) = ws"
  by (induction ws) simp_all

lemma ipv6_of_octets_octets [simp]: "ipv6_of_octets (ipv6_octets a) = a"
  by (simp add: ipv6_of_octets_def ipv6_octets_def)

lemma length_ipv6_octets [simp]: "length (ipv6_octets a) = 16"
  by (cases a) (simp add: ipv6_octets_def u16_to_be_bytes_def)

section \<open>Display\<close>

definition show_ipv4 :: "ipv4_addr \<Rightarrow> string" where
  "show_ipv4 ip = (case ip of Ipv4Addr a b c d \<Rightarrow>
     show_radix 10 (unat a) @ ''.'' @ show_radix 10 (unat b) @ ''.'' @
     show_radix 10 (unat c) @ ''.'' @ show_radix 10 (unat d))"

text \<open>\<^verbatim>\<open>to_ipv4_mapped\<close>: the \<^verbatim>\<open>::ffff:a.b.c.d\<close> addresses.\<close>

definition to_ipv4_mapped :: "ipv6_addr \<Rightarrow> ipv4_addr option" where
  "to_ipv4_mapped ip = (case ip of Ipv6Addr a b c d e f g h \<Rightarrow>
     if a = 0 \<and> b = 0 \<and> c = 0 \<and> d = 0 \<and> e = 0 \<and> f = 0xffff
     then Some (ipv4_of_octets (u16_to_be_bytes g @ u16_to_be_bytes h)) else None)"

text \<open>
  The longest run of zero segments, found in one pass with the current and the longest
  span (start, length), as the \<^verbatim>\<open>Display\<close> of \<^verbatim>\<open>Ipv6Addr\<close> does.
\<close>

fun zero_span :: "nat \<Rightarrow> nat \<times> nat \<Rightarrow> nat \<times> nat \<Rightarrow> u16 list \<Rightarrow> nat \<times> nat" where
  "zero_span i cur longest [] = longest"
| "zero_span i cur longest (s # ss) =
     (if s = 0 then
        (let cur' = ((if snd cur = 0 then i else fst cur), snd cur + 1);
             longest' = (if snd cur' > snd longest then cur' else longest)
         in zero_span (i + 1) cur' longest' ss)
      else zero_span (i + 1) (0, 0) longest ss)"

definition colon_groups :: "u16 list \<Rightarrow> string" where
  "colon_groups gs = concat (map (\<lambda>g. CHR '':'' # show_radix 16 (unat g)) gs)"

fun fmt_subslice :: "u16 list \<Rightarrow> string" where
  "fmt_subslice [] = []"
| "fmt_subslice (g # gs) = show_radix 16 (unat g) @ colon_groups gs"

definition show_ipv6 :: "ipv6_addr \<Rightarrow> string" where
  "show_ipv6 ip =
     (case to_ipv4_mapped ip of
        Some v4 \<Rightarrow> ''::ffff:'' @ show_ipv4 v4
      | None \<Rightarrow>
          (let segments = ipv6_segments ip;
               (start, len) = zero_span 0 (0, 0) (0, 0) segments
           in if len > 1
              then fmt_subslice (take start segments) @ ''::'' @
                   fmt_subslice (drop (start + len) segments)
              else fmt_subslice segments))"

fun show_ip :: "ip_addr \<Rightarrow> string" where
  "show_ip (V4 a) = show_ipv4 a"
| "show_ip (V6 a) = show_ipv6 a"

definition show_socket_addr :: "socket_addr \<Rightarrow> string" where
  "show_socket_addr sa = (case sa of
     SocketV4 a p \<Rightarrow> show_ipv4 a @ '':'' @ show_radix 10 (unat p)
   | SocketV6 r \<Rightarrow>
       (if v6_scope_id r = 0
        then ''['' @ show_ipv6 (v6_ip r) @ '']:'' @ show_radix 10 (unat (v6_port r))
        else ''['' @ show_ipv6 (v6_ip r) @ ''%'' @ show_radix 10 (unat (v6_scope_id r)) @
             '']:'' @ show_radix 10 (unat (v6_port r))))"

section \<open>The address parser\<close>

type_synonym 'a reader = "string \<Rightarrow> ('a \<times> string) option"

definition read_given_char :: "char \<Rightarrow> unit reader" where
  "read_given_char t s = (case s of c # cs \<Rightarrow> if c = t then Some ((), cs) else None | [] \<Rightarrow> None)"

definition read_separator :: "char \<Rightarrow> nat \<Rightarrow> 'a reader \<Rightarrow> 'a reader" where
  "read_separator sep index inner s =
     (if index > 0
      then (case read_given_char sep s of Some (_, s') \<Rightarrow> inner s' | None \<Rightarrow> None)
      else inner s)"

text \<open>
  The digit loop of \<^verbatim>\<open>read_number\<close>.  With a digit limit it gives up as soon as the limit
  is passed; without one the arithmetic is checked against the maximum of the number type.
\<close>

fun number_loop :: "nat \<Rightarrow> nat option \<Rightarrow> nat \<Rightarrow> nat \<Rightarrow> nat \<Rightarrow> string \<Rightarrow> (nat \<times> nat \<times> string) option"
  where
  "number_loop radix max_digits lim acc cnt [] = Some (acc, cnt, [])"
| "number_loop radix max_digits lim acc cnt (c # cs) =
     (case to_digit radix c of
        None \<Rightarrow> Some (acc, cnt, c # cs)
      | Some d \<Rightarrow>
          (case max_digits of
             Some m \<Rightarrow>
               if cnt + 1 > m then None
               else number_loop radix max_digits lim (acc * radix + d) (cnt + 1) cs
           | None \<Rightarrow>
               if acc * radix > lim \<or> acc * radix + d > lim then None
               else number_loop radix max_digits lim (acc * radix + d) (cnt + 1) cs))"

definition read_number :: "nat \<Rightarrow> nat option \<Rightarrow> bool \<Rightarrow> nat \<Rightarrow> nat reader" where
  "read_number radix max_digits allow_zero_prefix lim s =
     (case number_loop radix max_digits lim 0 0 s of
        None \<Rightarrow> None
      | Some (r, digit_count, s') \<Rightarrow>
          if digit_count = 0 then None
          else if \<not> allow_zero_prefix \<and> hd s = CHR ''0'' \<and> digit_count > 1 then None
          else if r \<le> lim then Some (r, s') else None)"

definition read_octet :: "nat reader" where
  "read_octet = read_number 10 (Some 3) False 255"

definition read_ipv4_addr :: "ipv4_addr reader" where
  "read_ipv4_addr s =
     (case read_separator (CHR ''.'') 0 read_octet s of None \<Rightarrow> None | Some (a, s1) \<Rightarrow>
      (case read_separator (CHR ''.'') 1 read_octet s1 of None \<Rightarrow> None | Some (b, s2) \<Rightarrow>
       (case read_separator (CHR ''.'') 2 read_octet s2 of None \<Rightarrow> None | Some (c, s3) \<Rightarrow>
        (case read_separator (CHR ''.'') 3 read_octet s3 of None \<Rightarrow> None | Some (d, s4) \<Rightarrow>
           Some (Ipv4Addr (of_nat a) (of_nat b) (of_nat c) (of_nat d), s4)))))"

text \<open>
  \<^verbatim>\<open>read_groups\<close> with the groups it filled, the flag for a trailing embedded IPv4
  address and the rest of the input.
\<close>

function read_groups :: "nat \<Rightarrow> nat \<Rightarrow> string \<Rightarrow> (u16 list \<times> bool) \<times> string" where
  "read_groups i limit s =
     (if limit \<le> i then (([], False), s)
      else (case (if i < limit - 1 then read_separator (CHR '':'') i read_ipv4_addr s else None) of
              Some (v4, s') \<Rightarrow> ((u16s_of_bytes (ipv4_octets v4), True), s')
            | None \<Rightarrow>
                (case read_separator (CHR '':'') i (read_number 16 (Some 4) True 65535) s of
                   Some (g, s') \<Rightarrow>
                     (case read_groups (Suc i) limit s' of
                        ((gs, v4), s'') \<Rightarrow> ((of_nat g # gs, v4), s''))
                 | None \<Rightarrow> (([], False), s))))"
  by pat_completeness auto
termination
  by (relation "measure (\<lambda>(i, limit, s). limit - i)") auto

declare read_groups.simps [simp del]

definition read_ipv6_addr :: "ipv6_addr reader" where
  "read_ipv6_addr s =
     (case read_groups 0 8 s of ((hd', head_ipv4), s1) \<Rightarrow>
        if length hd' = 8 then Some (ipv6_of_segments hd', s1)
        else if head_ipv4 then None
        else (case read_given_char (CHR '':'') s1 of None \<Rightarrow> None | Some (_, s2) \<Rightarrow>
               (case read_given_char (CHR '':'') s2 of None \<Rightarrow> None | Some (_, s3) \<Rightarrow>
                  (case read_groups 0 (8 - (length hd' + 1)) s3 of ((tl', _), s4) \<Rightarrow>
                     Some (ipv6_of_segments
                             (hd' @ replicate (8 - length hd' - length tl') 0 @ tl'), s4)))))"

definition read_ip_addr :: "ip_addr reader" where
  "read_ip_addr s =
     (case read_ipv4_addr s of
        Some (a, s') \<Rightarrow> Some (V4 a, s')
      | None \<Rightarrow> map_option (\<lambda>(a, s'). (V6 a, s')) (read_ipv6_addr s))"

definition read_port :: "nat reader" where
  "read_port s =
     (case read_given_char (CHR '':'') s of None \<Rightarrow> None
      | Some (_, s') \<Rightarrow> read_number 10 None True 65535 s')"

definition read_scope_id :: "nat reader" where
  "read_scope_id s =
     (case read_given_char (CHR ''%'') s of None \<Rightarrow> None
      | Some (_, s') \<Rightarrow> read_number 10 None True 4294967295 s')"

definition read_socket_addr_v4 :: "socket_addr reader" where
  "read_socket_addr_v4 s =
     (case read_ipv4_addr s of None \<Rightarrow> None | Some (ip, s1) \<Rightarrow>
      (case read_port s1 of None \<Rightarrow> None | Some (p, s2) \<Rightarrow> Some (SocketV4 ip (of_nat p), s2)))"

definition read_socket_addr_v6 :: "socket_addr reader" where
  "read_socket_addr_v6 s =
     (case read_given_char (CHR ''['') s of None \<Rightarrow> None | Some (_, s1) \<Rightarrow>
      (case read_ipv6_addr s1 of None \<Rightarrow> None | Some (ip, s2) \<Rightarrow>
       (case (case read_scope_id s2 of Some (i, s') \<Rightarrow> (i, s') | None \<Rightarrow> (0, s2)) of (scope, s3) \<Rightarrow>
        (case read_given_char (CHR '']'') s3 of None \<Rightarrow> None | Some (_, s4) \<Rightarrow>
         (case read_port s4 of None \<Rightarrow> None | Some (p, s5) \<Rightarrow>
            Some (SocketV6 \<lparr>v6_ip = ip, v6_port = of_nat p, v6_flowinfo = 0,
                            v6_scope_id = of_nat scope\<rparr>, s5))))))"

definition read_socket_addr :: "socket_addr reader" where
  "read_socket_addr s =
     (case read_socket_addr_v4 s of Some r \<Rightarrow> Some r | None \<Rightarrow> read_socket_addr_v6 s)"

text \<open>\<^verbatim>\<open>parse_with\<close>: the whole input must be used.\<close>

definition parse_with :: "'a reader \<Rightarrow> string \<Rightarrow> 'a option" where
  "parse_with inner s = (case inner s of Some (a, []) \<Rightarrow> Some a | _ \<Rightarrow> None)"

definition parse_ip_addr :: "string \<Rightarrow> ip_addr option" where
  "parse_ip_addr = parse_with read_ip_addr"

definition parse_socket_addr :: "string \<Rightarrow> socket_addr option" where
  "parse_socket_addr = parse_with read_socket_addr"

text \<open>
  \<^verbatim>\<open>u16::from_str\<close>: an optional leading \<^verbatim>\<open>+\<close>, then at least one decimal digit and
  nothing else, checked against the maximum.
\<close>

definition parse_u16 :: "string \<Rightarrow> u16 option" where
  "parse_u16 s =
     (case number_loop 10 None 65535 0 0 (case s of c # cs \<Rightarrow> if c = CHR ''+'' then cs else s | [] \<Rightarrow> s) of
        Some (r, cnt, []) \<Rightarrow> if cnt = 0 then None else Some (of_nat r)
      | _ \<Rightarrow> None)"

end
