(* ===== verification/Std_Net_Roundtrip.thy ===== *)
theory Std_Net_Roundtrip
  imports Std_Net
begin

text \<open>
  Every address is read back from its own text: the printing of \<^verbatim>\<open>std::net\<close> addresses
  (\<^const>\<open>show_ip\<close>, \<^const>\<open>show_socket_addr\<close>) and the address parser are inverse to each
  other.  The lemmas are stated with an arbitrary continuation of the input, so that a
  printed address can be read inside a longer text.
\<close>

section \<open>Numbers\<close>

text \<open>The text at which a number in the given radix stops.\<close>

definition stops :: "nat \<Rightarrow> string \<Rightarrow> bool" where
  "stops radix r \<longleftrightarrow> (case r of [] \<Rightarrow> True | c # _ \<Rightarrow> to_digit radix c = None)"

lemma stops_simps [simp]:
  "stops radix []" "stops radix (c # r) \<longleftrightarrow> to_digit radix c = None"
  by (simp_all add: stops_def)

lemma to_digit_mono: "to_digit 16 c = None \<Longrightarrow> to_digit 10 c = None"
  by (auto simp: to_digit_def Let_def split: if_splits)

lemma stops_mono: "stops 16 r \<Longrightarrow> stops 10 r"
  by (cases r) (auto intro: to_digit_mono)

lemma to_digit_punct [simp]:
  "to_digit 10 (CHR '':'') = None" "to_digit 16 (CHR '':'') = None"
  "to_digit 10 (CHR ''.'') = None" "to_digit 16 (CHR ''.'') = None"
  "to_digit 10 (CHR '']'') = None" "to_digit 16 (CHR '']'') = None"
  "to_digit 10 (CHR ''['') = None" "to_digit 16 (CHR ''['') = None"
  "to_digit 10 (CHR ''%'') = None" "to_digit 16 (CHR ''%'') = None"
  by (simp_all add: to_digit_def Let_def)

lemma digits_value_ge: "1 \<le> radix \<Longrightarrow> acc \<le> digits_value radix acc ds"
proof (induction ds arbitrary: acc)
  case (Cons d ds)
  have "acc \<le> acc * radix + d" using Cons.prems by (cases radix) auto
  also have "\<dots> \<le> digits_value radix (acc * radix + d) ds" using Cons by blast
  finally show ?case by simp
qed simp

lemma number_loop_digits:
  assumes "\<And>d. d \<in> set ds \<Longrightarrow> d < radix" and "radix \<le> 36" and "1 \<le> radix" and "stops radix r"
    and "case md of Some m \<Rightarrow> cnt + length ds \<le> m | None \<Rightarrow> digits_value radix acc ds \<le> lim"
  shows "number_loop radix md lim acc cnt (map digit_char ds @ r) =
    Some (digits_value radix acc ds, cnt + length ds, r)"
  using assms
proof (induction ds arbitrary: acc cnt)
  case Nil
  then show ?case by (cases r) simp_all
next
  case (Cons d ds)
  have "acc * radix + d \<le> digits_value radix (acc * radix + d) ds"
    using Cons.prems(3) by (rule digits_value_ge)
  then have "md = None \<Longrightarrow> acc * radix + d \<le> lim" using Cons.prems(5) by simp
  with Cons show ?case by (cases md) auto
qed

lemma number_loop_splits:
  "number_loop radix md lim acc cnt s = Some (v, n, s') \<Longrightarrow>
   \<exists>u. s = u @ s' \<and> n = cnt + length u \<and> (\<forall>c \<in> set u. to_digit radix c \<noteq> None) \<and> stops radix s'"
proof (induction s arbitrary: acc cnt)
  case (Cons c cs)
  show ?case
  proof (cases "to_digit radix c")
    case None
    with Cons.prems show ?thesis by auto
  next
    case (Some d)
    then have "number_loop radix md lim (acc * radix + d) (cnt + 1) cs = Some (v, n, s')"
      using Cons.prems by (cases md) (auto split: if_splits)
    then obtain u where "cs = u @ s' \<and> n = cnt + 1 + length u \<and>
        (\<forall>c \<in> set u. to_digit radix c \<noteq> None) \<and> stops radix s'"
      using Cons.IH by blast
    with Some show ?thesis by (intro exI [of _ "c # u"]) auto
  qed
qed auto

lemma digit_char_eq_0 [simp]: "d < 36 \<Longrightarrow> digit_char d = CHR ''0'' \<longleftrightarrow> d = 0"
proof -
  assume "d < 36"
  then have "(of_char (digit_char d) :: nat) = of_char (CHR ''0'') \<longleftrightarrow> d = 0"
    by (auto simp: digit_char_def)
  then show ?thesis by (simp only: of_char_eq_iff)
qed

lemma read_number_show:
  assumes "2 \<le> radix" and "radix \<le> 36" and "n \<le> lim" and "stops radix r"
    and "case md of Some m \<Rightarrow> 0 < m \<and> n < radix ^ m | None \<Rightarrow> True"
  shows "read_number radix md azp lim (show_radix radix n @ r) = Some (n, r)"
proof -
  let ?ds = "digits_of radix n"
  have loop: "number_loop radix md lim 0 0 (map digit_char ?ds @ r) = Some (n, length ?ds, r)"
    using number_loop_digits [where ds = ?ds and radix = radix and r = r and md = md and acc = 0
      and cnt = 0 and lim = lim] assms digits_of_less [of radix]
      length_digits_of_le [of radix n] digits_value_digits_of [of radix n]
    by (cases md) auto
  have "hd ?ds < radix" using digits_of_less [OF assms(1), of "hd ?ds" n] by simp
  moreover have "n = 0 \<Longrightarrow> length ?ds = 1" using assms(1) by (simp add: digits_of_small)
  ultimately have "hd (map digit_char ?ds @ r) = CHR ''0'' \<Longrightarrow> length ?ds = 1"
    using hd_digits_of_pos [OF assms(1), of n] assms(2) by (simp add: hd_map) blast
  with loop assms(3) show ?thesis by (simp add: read_number_def show_radix_def)
qed

lemma read_number_stop [simp]: "stops radix s \<Longrightarrow> read_number radix md azp lim s = None"
  by (cases s) (simp_all add: read_number_def)

lemma unat_u8_less [simp]: "unat (a :: u8) \<le> 255" "unat (a :: u8) < 1000"
  using unsigned_less [of a, where ?'a = nat] by simp_all

lemma unat_u16_less [simp]: "unat (a :: u16) \<le> 65535" "unat (a :: u16) < 65536"
  using unsigned_less [of a, where ?'a = nat] by simp_all

lemma unat_u32_less [simp]: "unat (a :: u32) \<le> 4294967295"
  using unsigned_less [of a, where ?'a = nat] by simp

lemma read_octet_show [simp]:
  "stops 10 r \<Longrightarrow> read_octet (show_radix 10 (unat (a :: u8)) @ r) = Some (unat a, r)"
  by (simp add: read_octet_def read_number_show)

lemma read_group_show [simp]:
  "stops 16 r \<Longrightarrow>
   read_number 16 (Some 4) True 65535 (show_radix 16 (unat (g :: u16)) @ r) = Some (unat g, r)"
  by (simp add: read_number_show)

section \<open>IPv4\<close>

lemma read_given_char_simps [simp]:
  "read_given_char c [] = None"
  "read_given_char c (d # s) = (if d = c then Some ((), s) else None)"
  by (auto simp: read_given_char_def)

lemma read_separator_simps [simp]:
  "read_separator sep 0 inner s = inner s"
  "0 < i \<Longrightarrow> read_separator sep i inner s =
     (case s of c # s' \<Rightarrow> if c = sep then inner s' else None | [] \<Rightarrow> None)"
  by (auto simp: read_separator_def split: list.splits)

lemma read_ipv4_show [simp]:
  "stops 10 r \<Longrightarrow> read_ipv4_addr (show_ipv4 a @ r) = Some (a, r)"
  by (cases a) (simp add: read_ipv4_addr_def show_ipv4_def)

lemma read_ipv4_stop [simp]: "stops 10 s \<Longrightarrow> read_ipv4_addr s = None"
  by (simp add: read_ipv4_addr_def read_octet_def)

lemma read_octet_splits:
  "read_octet s = Some (v, s') \<Longrightarrow>
   \<exists>u. s = u @ s' \<and> (\<forall>c \<in> set u. to_digit 10 c \<noteq> None) \<and> stops 10 s'"
  unfolding read_octet_def read_number_def
  by (auto split: option.splits if_splits dest!: number_loop_splits)

text \<open>A hexadecimal group that is not followed by a dot does not start an IPv4 address.\<close>

lemma read_ipv4_hex_group:
  assumes hex: "\<And>c. c \<in> set h \<Longrightarrow> to_digit 16 c \<noteq> None"
    and r: "stops 16 r" "r = [] \<or> hd r \<noteq> CHR ''.''"
  shows "read_ipv4_addr (h @ r) = None"
proof (cases "read_octet (h @ r)")
  case (Some p)
  obtain v s' where p: "p = (v, s')" by (cases p)
  obtain u where u: "h @ r = u @ s'" "\<forall>c \<in> set u. to_digit 10 c \<noteq> None"
    using read_octet_splits Some p by blast
  have "s' = [] \<or> hd s' \<noteq> CHR ''.''"
  proof -
    from u(1) obtain t where "h = u @ t \<and> t @ r = s' \<or> h @ t = u \<and> r = t @ s'"
      by (auto simp: append_eq_append_conv2)
    then show ?thesis
    proof
      assume a: "h = u @ t \<and> t @ r = s'"
      show ?thesis using a hex [of "CHR ''.''"] r by (cases t) auto
    next
      assume a: "h @ t = u \<and> r = t @ s'"
      then have "t = []" using r(1) u(2) by (cases t) (auto dest: to_digit_mono)
      with a r show ?thesis by simp
    qed
  qed
  with Some p show ?thesis by (cases s') (auto simp: read_ipv4_addr_def)
qed (simp add: read_ipv4_addr_def)

lemma show_radix_16_hex: "c \<in> set (show_radix 16 n) \<Longrightarrow> to_digit 16 c \<noteq> None"
  using digits_of_less [of 16] by (auto simp: show_radix_def)

section \<open>IPv6\<close>

text \<open>What may follow the groups of an address: nothing that could be another group.\<close>

definition groups_end :: "string \<Rightarrow> bool" where
  "groups_end r \<longleftrightarrow> stops 16 r \<and> (r = [] \<or> hd r \<noteq> CHR ''.'') \<and>
     (r \<noteq> [] \<and> hd r = CHR '':'' \<longrightarrow> tl r \<noteq> [] \<and> hd (tl r) = CHR '':'')"

lemma groups_endD:
  "groups_end r \<Longrightarrow> stops 16 r" "groups_end r \<Longrightarrow> stops 10 r"
  "groups_end r \<Longrightarrow> r = [] \<or> hd r \<noteq> CHR ''.''"
  by (auto simp: groups_end_def intro: stops_mono)

lemma groups_end_sep:
  "groups_end r \<Longrightarrow> 0 < i \<Longrightarrow>
   (\<And>s. stops 16 s \<Longrightarrow> inner s = None) \<Longrightarrow> read_separator (CHR '':'') i inner r = None"
  by (cases r; cases "tl r") (auto simp: groups_end_def)

lemma stops_colon_groups [simp]: "groups_end r \<Longrightarrow> stops 16 (colon_groups gs @ r)"
  by (cases gs) (auto simp: colon_groups_def groups_endD)

lemma colon_groups_no_dot:
  "groups_end r \<Longrightarrow> colon_groups gs @ r = [] \<or> hd (colon_groups gs @ r) \<noteq> CHR ''.''"
  by (cases gs) (use groups_endD(3) in \<open>auto simp: colon_groups_def\<close>)

lemma read_ipv4_group [simp]:
  "groups_end r \<Longrightarrow>
   read_ipv4_addr (show_radix 16 (unat (g :: u16)) @ colon_groups gs @ r) = None"
  by (rule read_ipv4_hex_group)
    (use show_radix_16_hex colon_groups_no_dot in \<open>auto simp del: append_is_Nil_conv\<close>)

lemma read_groups_colon:
  "0 < i \<Longrightarrow> i + length gs \<le> limit \<Longrightarrow> groups_end r \<Longrightarrow>
   read_groups i limit (colon_groups gs @ r) = ((gs, False), r)"
proof (induction gs arbitrary: i)
  case Nil
  have "read_separator (CHR '':'') i read_ipv4_addr r = None"
    "read_separator (CHR '':'') i (read_number 16 (Some 4) True 65535) r = None"
    by (rule groups_end_sep; use Nil stops_mono in simp)+
  then show ?case by (subst read_groups.simps) (simp add: colon_groups_def)
next
  case (Cons g gs)
  have IH: "read_groups (Suc i) limit (colon_groups gs @ r) = ((gs, False), r)"
    using Cons by simp
  show ?case
    using Cons.prems
    by (subst read_groups.simps) (simp add: IH colon_groups_def [of "g # gs"]
        colon_groups_def [of gs, symmetric])
qed

lemma read_groups_subslice:
  assumes "length gs \<le> limit" and "groups_end r"
  shows "read_groups 0 limit (fmt_subslice gs @ r) = ((gs, False), r)"
proof (cases gs)
  case Nil
  with assms show ?thesis by (subst read_groups.simps) (simp add: groups_endD)
next
  case (Cons g gs')
  have "read_groups (Suc 0) limit (colon_groups gs' @ r) = ((gs', False), r)"
    using assms Cons by (intro read_groups_colon) auto
  with assms Cons show ?thesis by (subst read_groups.simps) simp
qed

definition span_ok :: "u16 list \<Rightarrow> nat \<times> nat \<Rightarrow> bool" where
  "span_ok xs sp \<longleftrightarrow> fst sp + snd sp \<le> length xs \<and> (\<forall>j. fst sp \<le> j \<and> j < fst sp + snd sp \<longrightarrow> xs ! j = 0)"

lemma span_ok_append: "span_ok xs sp \<Longrightarrow> span_ok (xs @ ys) sp"
  by (auto simp: span_ok_def nth_append)

lemma zero_span_ok:
  "span_ok pre longest \<Longrightarrow> span_ok pre cur \<Longrightarrow> (0 < snd cur \<longrightarrow> fst cur + snd cur = length pre) \<Longrightarrow>
   span_ok (pre @ ss) (zero_span (length pre) cur longest ss)"
proof (induction ss arbitrary: pre cur longest)
  case (Cons s ss)
  note longest = span_ok_append [OF Cons.prems(1), of "[s]"]
  show ?case
  proof (cases "s = 0")
    case True
    let ?cur = "((if snd cur = 0 then length pre else fst cur), Suc (snd cur))"
    have cur: "span_ok (pre @ [s]) ?cur"
      using Cons.prems True by (auto simp: span_ok_def nth_append less_Suc_eq)
    have "fst ?cur + snd ?cur = length (pre @ [s])" using Cons.prems by auto
    moreover have "span_ok (pre @ [s]) (if snd ?cur > snd longest then ?cur else longest)"
      using cur longest by simp
    ultimately show ?thesis
      using Cons.IH [OF _ cur] True by (simp add: Let_def split del: if_split)
  next
    case False
    then show ?thesis
      using Cons.IH [of "pre @ [s]" longest "(0, 0)"] longest by (simp add: span_ok_def)
  qed
qed simp

lemma zero_span_segments:
  assumes "zero_span 0 (0, 0) (0, 0) xs = (start, len)"
  shows "start + len \<le> length xs"
    and "xs = take start xs @ replicate len 0 @ drop (start + len) xs"
proof -
  have ok: "span_ok xs (start, len)"
    using zero_span_ok [of "[]" "(0, 0)" "(0, 0)" xs] assms by (simp add: span_ok_def)
  then show le: "start + len \<le> length xs" by (simp add: span_ok_def)
  have "take len (drop start xs) = replicate len 0"
    using ok by (intro nth_equalityI) (auto simp: span_ok_def)
  then have "drop start xs = replicate len 0 @ drop (start + len) xs"
    by (metis append_take_drop_id drop_drop add.commute)
  then show "xs = take start xs @ replicate len 0 @ drop (start + len) xs"
    by (metis append_take_drop_id)
qed

text \<open>The end of an address text: a bracket, a scope mark, or the end of the input.\<close>

definition addr_end :: "string \<Rightarrow> bool" where
  "addr_end r \<longleftrightarrow> groups_end r \<and> (r = [] \<or> hd r \<noteq> CHR '':'')"

lemma groups_end_double_colon [simp]: "groups_end (CHR '':'' # CHR '':'' # r)"
  by (simp add: groups_end_def)

lemma read_ipv6_compressed:
  assumes "start + len \<le> 8" and "1 < len" and "addr_end r" and "length xs = 8"
    and "xs = take start xs @ replicate len 0 @ drop (start + len) xs"
  shows "read_ipv6_addr (fmt_subslice (take start xs) @ ''::'' @
      fmt_subslice (drop (start + len) xs) @ r) = Some (ipv6_of_segments xs, r)"
proof -
  let ?s = "CHR '':'' # CHR '':'' # fmt_subslice (drop (start + len) xs) @ r"
  have hd: "read_groups 0 8 (fmt_subslice (take start xs) @ ?s) = ((take start xs, False), ?s)"
    by (rule read_groups_subslice) (use assms in simp_all)
  have tl: "read_groups 0 (7 - start) (fmt_subslice (drop (start + len) xs) @ r) =
      ((drop (start + len) xs, False), r)"
    by (rule read_groups_subslice) (use assms in \<open>auto simp: addr_end_def\<close>)
  have "8 - start - length (drop (start + len) xs) = len" using assms by simp
  with assms hd tl show ?thesis by (simp add: read_ipv6_addr_def)
qed

lemma read_ipv6_mapped:
  assumes "to_ipv4_mapped a = Some v4" and "addr_end r"
  shows "read_ipv6_addr (''::ffff:'' @ show_ipv4 v4 @ r) = Some (a, r)"
proof -
  obtain g h where a: "a = Ipv6Addr 0 0 0 0 0 0xffff g h"
    and v4: "v4 = ipv4_of_octets (u16_to_be_bytes g @ u16_to_be_bytes h)"
    using assms(1) by (cases a) (auto simp: to_ipv4_mapped_def split: if_splits)
  have v4s: "u16s_of_bytes (ipv4_octets v4) = [g, h]"
    unfolding v4 using u16_be_roundtrip [of g] u16_be_roundtrip [of h]
    by (simp add: u16_to_be_bytes_def ipv4_of_octets_def)
  have ffff: "''ffff'' = show_radix 16 (unat (0xffff :: u16))"
    using char_of_char [of "CHR ''f''", where ?'a = nat]
    by (simp add: show_radix_def digits_of.simps digit_char_def)
  let ?r = "CHR '':'' # show_ipv4 v4 @ r"
  have r10: "stops 10 r" using assms(2) by (simp add: addr_end_def groups_endD)
  have 1: "read_groups 1 7 ?r = (([g, h], True), r)"
    using r10 v4s by (subst read_groups.simps) simp
  have 2: "read_groups 0 7 (''ffff'' @ ?r) = (([0xffff, g, h], True), r)"
    unfolding ffff using 1
    by (subst read_groups.simps)
      (simp add: read_ipv4_hex_group show_radix_16_hex read_number_show)
  have 3: "read_groups 0 8 (fmt_subslice [] @ ''::'' @ ''ffff'' @ ?r) =
      (([], False), ''::'' @ ''ffff'' @ ?r)"
    by (rule read_groups_subslice) simp_all
  show ?thesis
    using 2 3 by (simp add: read_ipv6_addr_def a ipv6_of_segments_def numeral_nat)
qed

lemma read_ipv6_show [simp]:
  assumes "addr_end r"
  shows "read_ipv6_addr (show_ipv6 a @ r) = Some (a, r)"
proof (cases "to_ipv4_mapped a")
  case (Some v4)
  then show ?thesis using read_ipv6_mapped [OF Some assms] by (simp add: show_ipv6_def)
next
  case None
  obtain start len where z: "zero_span 0 (0, 0) (0, 0) (ipv6_segments a) = (start, len)"
    by (cases "zero_span 0 (0, 0) (0, 0) (ipv6_segments a)")
  show ?thesis
  proof (cases "1 < len")
    case True
    then show ?thesis
      using None z zero_span_segments [OF z] assms
        read_ipv6_compressed [of start len r "ipv6_segments a"]
      by (simp add: show_ipv6_def Let_def)
  next
    case False
    have "read_groups 0 8 (fmt_subslice (ipv6_segments a) @ r) = ((ipv6_segments a, False), r)"
      by (rule read_groups_subslice) (use assms in \<open>simp_all add: addr_end_def\<close>)
    with False None z show ?thesis by (simp add: show_ipv6_def read_ipv6_addr_def Let_def)
  qed
qed

text \<open>An IPv6 text is never taken for an IPv4 one.\<close>

lemma fmt_subslice_not_ipv4:
  "groups_end r \<Longrightarrow> read_ipv4_addr (fmt_subslice gs @ r) = None"
  by (cases gs) (simp_all add: groups_endD)

lemma show_ipv6_not_ipv4:
  assumes "addr_end r"
  shows "read_ipv4_addr (show_ipv6 a @ r) = None"
proof (cases "to_ipv4_mapped a")
  case None
  have "groups_end r" using assms by (simp add: addr_end_def)
  with None show ?thesis
    by (simp add: show_ipv6_def Let_def fmt_subslice_not_ipv4 split: prod.split)
qed (simp add: show_ipv6_def)

section \<open>Whole addresses\<close>

lemma addr_end_simps [simp]:
  "addr_end []" "addr_end (CHR '']'' # r)" "addr_end (CHR ''%'' # r)"
  by (simp_all add: addr_end_def groups_end_def)

lemma parse_ip_show [simp]: "parse_ip_addr (show_ip a) = Some a"
proof (cases a)
  case (V4 b)
  then show ?thesis
    using read_ipv4_show [of "[]" b]
    by (simp add: parse_ip_addr_def parse_with_def read_ip_addr_def del: read_ipv4_show)
next
  case (V6 b)
  then show ?thesis
    using read_ipv6_show [of "[]" b] show_ipv6_not_ipv4 [of "[]" b]
    by (simp add: parse_ip_addr_def parse_with_def read_ip_addr_def del: read_ipv6_show)
qed

text \<open>A text that starts with neither a digit nor a colon is no address.\<close>

lemma parse_ip_none:
  assumes "stops 16 s" and "s = [] \<or> hd s \<noteq> CHR '':''"
  shows "parse_ip_addr s = None"
proof -
  have "read_groups 0 8 s = (([], False), s)"
    using assms stops_mono by (subst read_groups.simps) simp
  then have "read_ipv6_addr s = None"
    using assms(2) by (cases s) (simp_all add: read_ipv6_addr_def)
  then show ?thesis
    using assms(1) stops_mono by (simp add: parse_ip_addr_def parse_with_def read_ip_addr_def)
qed

lemma read_port_show [simp]:
  "stops 10 r \<Longrightarrow> read_port (CHR '':'' # show_radix 10 (unat (p :: u16)) @ r) = Some (unat p, r)"
  by (simp add: read_port_def read_number_show)

lemma read_port_show_end [simp]:
  "read_port (CHR '':'' # show_radix 10 (unat (p :: u16))) = Some (unat p, [])"
  using read_port_show [of "[]" p] by (simp del: read_port_show)

lemma read_scope_id_show [simp]:
  "stops 10 r \<Longrightarrow>
   read_scope_id (CHR ''%'' # show_radix 10 (unat (i :: u32)) @ r) = Some (unat i, r)"
  by (simp add: read_scope_id_def read_number_show)

lemma read_scope_id_none [simp]: "read_scope_id (CHR '']'' # r) = None"
  by (simp add: read_scope_id_def)

definition no_flowinfo :: "socket_addr \<Rightarrow> bool" where
  "no_flowinfo sa = (case sa of SocketV4 _ _ \<Rightarrow> True | SocketV6 r \<Rightarrow> v6_flowinfo r = 0)"

lemma no_flowinfo_new [simp]: "no_flowinfo (socket_addr_new ip p)"
  by (cases ip) (simp_all add: no_flowinfo_def)

text \<open>
  A socket address is read back from its text, except for the flow information of an
  IPv6 address, which the text does not carry.
\<close>

lemma parse_socket_show:
  assumes "no_flowinfo sa"
  shows "parse_socket_addr (show_socket_addr sa) = Some sa"
proof (cases sa)
  case (SocketV4 a p)
  then show ?thesis
    by (simp add: parse_socket_addr_def parse_with_def read_socket_addr_def
        read_socket_addr_v4_def show_socket_addr_def)
next
  case (SocketV6 r)
  obtain ip p scope where r: "r = \<lparr>v6_ip = ip, v6_port = p, v6_flowinfo = 0, v6_scope_id = scope\<rparr>"
    using assms SocketV6 by (cases r) (simp add: no_flowinfo_def)
  have v4: "read_socket_addr_v4 (CHR ''['' # s) = None" for s
    by (simp add: read_socket_addr_v4_def)
  show ?thesis
    by (simp add: SocketV6 r parse_socket_addr_def parse_with_def read_socket_addr_def v4
        read_socket_addr_v6_def show_socket_addr_def)
qed

lemma parse_u16_show [simp]: "parse_u16 (show_radix 10 (unat (p :: u16))) = Some p"
proof -
  let ?ds = "digits_of 10 (unat p)"
  have ds: "\<And>d. d \<in> set ?ds \<Longrightarrow> d < 10" using digits_of_less [of 10] by simp
  have loop: "number_loop 10 None 65535 0 0 (map digit_char ?ds) = Some (unat p, length ?ds, [])"
    using number_loop_digits [where ds = ?ds and radix = 10 and r = "[]" and md = None and acc = 0
      and cnt = 0 and lim = 65535] ds digits_value_digits_of [of 10 "unat p"] by simp
  have "to_digit 10 (hd (show_radix 10 (unat p))) \<noteq> None"
    using ds [of "hd ?ds"] by (simp add: show_radix_def hd_map)
  then have "hd (show_radix 10 (unat p)) \<noteq> CHR ''+''"
    by (auto simp: to_digit_def)
  with loop show ?thesis
    by (cases "show_radix 10 (unat p)") (simp_all add: parse_u16_def show_radix_def)
qed

end
