(* ===== verification/Endpoint.thy ===== *)
theory Endpoint
  imports Std_Net_Roundtrip
begin

text \<open>
  The target of a connection, \<^verbatim>\<open>core/endpoint.rs\<close>, and the view of it that routing
  scripts get, \<^verbatim>\<open>ConnectRequest\<close> of \<^verbatim>\<open>config/engine/connect.rs\<close>: the endpoint type,
  its accessors, its text form and the parsing of that text.  The properties are the
  round trips through the text, which every connector relies on (the script hands the
  text of the endpoint back to the connector functions, which parse it again), and the
  error cases of the parser.
\<close>

section \<open>Definitions\<close>

datatype endpoint = Addr socket_addr | Domain string u16

definition new_from_domain :: "string \<Rightarrow> u16 \<Rightarrow> endpoint" where
  "new_from_domain domain port = Domain domain port"

definition new_from_addr :: "socket_addr \<Rightarrow> endpoint" where
  "new_from_addr addr = Addr addr"

fun hostname :: "endpoint \<Rightarrow> string" where
  "hostname (Addr addr) = show_ip (socket_ip addr)"
| "hostname (Domain d _) = d"

fun port :: "endpoint \<Rightarrow> u16" where
  "port (Addr addr) = socket_port addr"
| "port (Domain _ p) = p"

datatype endpoint_error = PortMissing | PortInvalid

text \<open>\<^verbatim>\<open>str::rsplit_once\<close>: split at the last occurrence of the separator.\<close>

definition rsplit_once :: "char \<Rightarrow> string \<Rightarrow> (string \<times> string) option" where
  "rsplit_once c s =
     (if c \<in> set s
      then Some (rev (tl (dropWhile (\<lambda>x. x \<noteq> c) (rev s))), rev (takeWhile (\<lambda>x. x \<noteq> c) (rev s)))
      else None)"

definition endpoint_from_str :: "string \<Rightarrow> endpoint_error + endpoint" where
  "endpoint_from_str value =
     (case parse_socket_addr value of
        Some addr \<Rightarrow> Inr (new_from_addr addr)
      | None \<Rightarrow>
          res_bind (ok_or PortMissing (rsplit_once (CHR '':'') value)) (\<lambda>(host, port).
          res_bind (ok_or PortInvalid (parse_u16 port)) (\<lambda>p.
          Inr (new_from_domain host p))))"

fun endpoint_to_string :: "endpoint \<Rightarrow> string" where
  "endpoint_to_string (Addr addr) = show_socket_addr addr"
| "endpoint_to_string (Domain d p) = d @ '':'' @ show_radix 10 (unat p)"

text \<open>The request a routing script sees.\<close>

record connect_request =
  cr_endpoint :: endpoint

definition connect_request_new :: "endpoint \<Rightarrow> connect_request" where
  "connect_request_new e = \<lparr>cr_endpoint = e\<rparr>"

definition cr_port :: "connect_request \<Rightarrow> u16" where
  "cr_port r = port (cr_endpoint r)"

definition cr_hostname :: "connect_request \<Rightarrow> string" where
  "cr_hostname r = hostname (cr_endpoint r)"

definition cr_endpoint_string :: "connect_request \<Rightarrow> string" where
  "cr_endpoint_string r = endpoint_to_string (cr_endpoint r)"

definition cr_hostname_as_ip :: "connect_request \<Rightarrow> string option" where
  "cr_hostname_as_ip r =
     (case cr_endpoint r of
        Addr addr \<Rightarrow> Some (show_ip (socket_ip addr))
      | Domain domain _ \<Rightarrow> map_option show_ip (parse_ip_addr domain))"

definition cr_hostname_is_ip :: "connect_request \<Rightarrow> bool" where
  "cr_hostname_is_ip r = (cr_hostname_as_ip r \<noteq> None)"

section \<open>Splitting at the last colon\<close>

lemma rsplit_once_append [simp]:
  "c \<notin> set t \<Longrightarrow> rsplit_once c (d @ c # t) = Some (d, t)"
proof -
  assume c: "c \<notin> set t"
  then have all: "\<And>x. x \<in> set (rev t) \<Longrightarrow> x \<noteq> c" by auto
  have "dropWhile (\<lambda>x. x \<noteq> c) (rev t @ c # rev d) = c # rev d"
    "takeWhile (\<lambda>x. x \<noteq> c) (rev t @ c # rev d) = rev t"
    using all dropWhile_append2 [of "rev t" "\<lambda>x. x \<noteq> c"]
      takeWhile_append2 [of "rev t" "\<lambda>x. x \<noteq> c"] by auto
  then show ?thesis by (simp add: rsplit_once_def)
qed

lemma rsplit_once_None [simp]: "rsplit_once c s = None \<longleftrightarrow> c \<notin> set s"
  by (simp add: rsplit_once_def)

lemma rsplit_once_SomeD: "rsplit_once c s = Some p \<Longrightarrow> c \<in> set s"
  by (simp add: rsplit_once_def split: if_splits)

lemma digits_not_colon: "stops 10 [c] \<Longrightarrow> c \<notin> set (show_radix 10 n)"
  using digits_of_less [of 10] by (auto simp: show_radix_def)

lemma colon_not_in_show [simp]: "CHR '':'' \<notin> set (show_radix 10 n)"
  by (rule digits_not_colon) simp

section \<open>What a socket address text looks like\<close>

text \<open>
  A reader is local when what it reads does not depend on what follows: it consumes a
  prefix, leaves a text at which it stops, and reads the prefix alone in the same way.
\<close>

lemma number_loop_local:
  "number_loop radix md lim acc cnt s = Some (v, n, s') \<Longrightarrow>
   \<exists>u. s = u @ s' \<and> number_loop radix md lim acc cnt u = Some (v, n, []) \<and>
       (\<forall>c \<in> set u. to_digit radix c \<noteq> None)"
proof (induction s arbitrary: acc cnt)
  case (Cons c cs)
  show ?case
  proof (cases "to_digit radix c")
    case None
    with Cons.prems show ?thesis by auto
  next
    case (Some d)
    then have "number_loop radix md lim (acc * radix + d) (cnt + 1) cs = Some (v, n, s')"
      using Cons.prems by (cases md) (auto split: if_splits)
    then obtain u where "cs = u @ s' \<and> (\<forall>c \<in> set u. to_digit radix c \<noteq> None) \<and>
        number_loop radix md lim (acc * radix + d) (cnt + 1) u = Some (v, n, [])"
      using Cons.IH by blast
    with Some Cons.prems show ?thesis
      by (intro exI [of _ "c # u"]) (cases md; auto split: if_splits)
  qed
qed auto

lemma number_loop_digit_free: "number_loop radix md lim acc cnt [] = Some (v, n, []) \<Longrightarrow> n = cnt"
  by simp

lemma read_number_local:
  assumes "read_number radix md azp lim s = Some (v, s')"
  shows "\<exists>u. s = u @ s' \<and> u \<noteq> [] \<and> read_number radix md azp lim u = Some (v, []) \<and>
    (\<forall>c \<in> set u. to_digit radix c \<noteq> None)"
proof -
  obtain n where n: "number_loop radix md lim 0 0 s = Some (v, n, s')" "n \<noteq> 0"
    using assms by (auto simp: read_number_def split: option.splits if_splits)
  then obtain u where u: "s = u @ s'" "number_loop radix md lim 0 0 u = Some (v, n, [])"
    "\<forall>c \<in> set u. to_digit radix c \<noteq> None"
    using number_loop_local by blast
  moreover from u(2) n(2) have "u \<noteq> []" by auto
  ultimately show ?thesis
    using assms n by (intro exI [of _ u]) (auto simp: read_number_def split: if_splits)
qed

lemma read_octet_local:
  "read_octet s = Some (v, s') \<Longrightarrow>
   \<exists>u. s = u @ s' \<and> u \<noteq> [] \<and> read_octet u = Some (v, []) \<and> (\<forall>c \<in> set u. to_digit 10 c \<noteq> None)"
  unfolding read_octet_def by (rule read_number_local)

lemma read_octet_extend:
  assumes "read_octet u = Some (v, [])" and "stops 10 r"
  shows "read_octet (u @ r) = Some (v, r)"
proof -
  have loop: "number_loop 10 (Some 3) 255 acc cnt u = Some (w, n, []) \<Longrightarrow>
      number_loop 10 (Some 3) 255 acc cnt (u @ r) = Some (w, n, r)" for acc cnt w n
    using assms(2)
    by (induction u arbitrary: acc cnt)
      (auto split: option.splits if_splits simp: stops_def intro: list.exhaust [of r])
  have "u \<noteq> []" using assms(1) by (auto simp: read_octet_def read_number_def)
  then show ?thesis
    using assms(1) loop
    by (auto simp: read_octet_def read_number_def split: option.splits if_splits)
qed

lemma read_dot_octet:
  "0 < i \<Longrightarrow> read_separator (CHR ''.'') i read_octet s = Some (v, s') \<Longrightarrow>
   \<exists>t. s = CHR ''.'' # t \<and> read_octet t = Some (v, s')"
  by (cases s) (auto split: if_splits)

lemma read_ipv4_octets:
  assumes "read_ipv4_addr s = Some (a, s')"
  obtains w x y z s1 s2 s3 where
    "read_octet s = Some (w, CHR ''.'' # s1)" "read_octet s1 = Some (x, CHR ''.'' # s2)"
    "read_octet s2 = Some (y, CHR ''.'' # s3)" "read_octet s3 = Some (z, s')"
    "a = Ipv4Addr (of_nat w) (of_nat x) (of_nat y) (of_nat z)"
proof -
  note def = read_ipv4_addr_def read_separator_simps(1) and [simp del] = read_separator_simps(2)
  from assms obtain w t1 where 1: "read_octet s = Some (w, t1)"
    by (cases "read_octet s") (auto simp: def)
  with assms obtain x t2 where 2: "read_separator (CHR ''.'') 1 read_octet t1 = Some (x, t2)"
    by (cases "read_separator (CHR ''.'') 1 read_octet t1") (auto simp: def)
  with assms 1 obtain y t3 where 3: "read_separator (CHR ''.'') 2 read_octet t2 = Some (y, t3)"
    by (cases "read_separator (CHR ''.'') 2 read_octet t2") (auto simp: def)
  with assms 1 2 obtain z where 4: "read_separator (CHR ''.'') 3 read_octet t3 = Some (z, s')"
    and a: "a = Ipv4Addr (of_nat w) (of_nat x) (of_nat y) (of_nat z)"
    by (cases "read_separator (CHR ''.'') 3 read_octet t3") (auto simp: def)
  from 1 a read_dot_octet [OF _ 2] read_dot_octet [OF _ 3] read_dot_octet [OF _ 4] that
  show ?thesis by auto
qed

lemma read_ipv4_local:
  assumes "read_ipv4_addr s = Some (a, s')"
  shows "\<exists>u. s = u @ s' \<and> read_ipv4_addr u = Some (a, []) \<and> CHR '':'' \<notin> set u"
proof -
  obtain w x y z s1 s2 s3 where
    1: "read_octet s = Some (w, CHR ''.'' # s1)" and 2: "read_octet s1 = Some (x, CHR ''.'' # s2)" and
    3: "read_octet s2 = Some (y, CHR ''.'' # s3)" and 4: "read_octet s3 = Some (z, s')" and
    a: "a = Ipv4Addr (of_nat w) (of_nat x) (of_nat y) (of_nat z)"
    using assms by (rule read_ipv4_octets)
  from read_octet_local [OF 1] obtain u1 where u1: "s = u1 @ ''.'' @ s1"
    "read_octet u1 = Some (w, [])" "\<forall>c \<in> set u1. to_digit 10 c \<noteq> None" by auto
  from read_octet_local [OF 2] obtain u2 where u2: "s1 = u2 @ ''.'' @ s2"
    "read_octet u2 = Some (x, [])" "\<forall>c \<in> set u2. to_digit 10 c \<noteq> None" by auto
  from read_octet_local [OF 3] obtain u3 where u3: "s2 = u3 @ ''.'' @ s3"
    "read_octet u3 = Some (y, [])" "\<forall>c \<in> set u3. to_digit 10 c \<noteq> None" by auto
  from read_octet_local [OF 4] obtain u4 where u4: "s3 = u4 @ s'"
    "read_octet u4 = Some (z, [])" "\<forall>c \<in> set u4. to_digit 10 c \<noteq> None" by auto
  let ?u = "u1 @ ''.'' @ u2 @ ''.'' @ u3 @ ''.'' @ u4"
  have "read_octet (u1 @ ''.'' @ r) = Some (w, ''.'' @ r)"
    "read_octet (u2 @ ''.'' @ r) = Some (x, ''.'' @ r)"
    "read_octet (u3 @ ''.'' @ r) = Some (y, ''.'' @ r)" for r
    using u1(2) u2(2) u3(2) by (auto intro: read_octet_extend)
  with u4(2) a have "read_ipv4_addr ?u = Some (a, [])"
    by (simp add: read_ipv4_addr_def)
  moreover have "CHR '':'' \<notin> set ?u" using u1(3) u2(3) u3(3) u4(3) by auto
  moreover have "s = ?u @ s'" using u1(1) u2(1) u3(1) u4(1) by simp
  ultimately show ?thesis by blast
qed

lemma read_port_end:
  "read_port s = Some (p, []) \<Longrightarrow> \<exists>t. s = CHR '':'' # t \<and> (\<forall>c \<in> set t. to_digit 10 c \<noteq> None)"
proof -
  assume "read_port s = Some (p, [])"
  then obtain t where "s = CHR '':'' # t" "read_number 10 None True 65535 t = Some (p, [])"
    by (cases s) (auto simp: read_port_def split: if_splits)
  with read_number_local [OF this(2)] show ?thesis by auto
qed

lemma split_last_colon:
  "CHR '':'' \<notin> set t \<Longrightarrow> CHR '':'' \<notin> set t' \<Longrightarrow> d @ CHR '':'' # t = u @ CHR '':'' # t' \<Longrightarrow> d = u \<and> t = t'"
  by (metis rsplit_once_append option.inject prod.inject)

text \<open>
  Only an IPv4 text or a text in brackets, followed by a port, is a socket address: any
  other host name stays a domain.
\<close>

lemma socket_text_host:
  assumes "parse_socket_addr (d @ CHR '':'' # t) = Some sa" and "CHR '':'' \<notin> set t"
  shows "(\<exists>a. parse_ip_addr d = Some (V4 a)) \<or> (d \<noteq> [] \<and> hd d = CHR ''['')"
proof -
  let ?s = "d @ CHR '':'' # t"
  have "read_socket_addr ?s = Some (sa, [])"
    using assms(1) by (auto simp: parse_socket_addr_def parse_with_def split: option.splits list.splits)
  then consider (v4) "read_socket_addr_v4 ?s = Some (sa, [])"
    | (v6) "read_socket_addr_v6 ?s = Some (sa, [])"
    by (auto simp: read_socket_addr_def split: option.splits)
  then show ?thesis
  proof cases
    case v4
    then obtain a s' p where a: "read_ipv4_addr ?s = Some (a, s')" and p: "read_port s' = Some (p, [])"
      by (auto simp: read_socket_addr_v4_def split: option.splits)
    from read_port_end [OF p] obtain t' where t': "s' = CHR '':'' # t'"
      "\<forall>c \<in> set t'. to_digit 10 c \<noteq> None" by blast
    then have "CHR '':'' \<notin> set t'" by auto
    moreover from read_ipv4_local [OF a] obtain u where u: "?s = u @ s'"
      "read_ipv4_addr u = Some (a, [])" by blast
    ultimately have "d = u" using split_last_colon [OF assms(2)] t'(1) by metis
    with u(2) show ?thesis by (simp add: parse_ip_addr_def parse_with_def read_ip_addr_def)
  next
    case v6
    then show ?thesis
      by (cases d) (auto simp: read_socket_addr_v6_def split: if_splits)
  qed
qed

section \<open>Parsing a text back\<close>

lemma endpoint_from_str_text:
  "endpoint_from_str (d @ CHR '':'' # show_radix 10 (unat p)) =
    (case parse_socket_addr (d @ CHR '':'' # show_radix 10 (unat p)) of
       Some sa \<Rightarrow> Inr (Addr sa) | None \<Rightarrow> Inr (Domain d p))"
  by (simp add: endpoint_from_str_def new_from_addr_def new_from_domain_def split: option.split)

text \<open>The endpoints whose text is read back as the same endpoint.\<close>

definition endpoint_canonical :: "endpoint \<Rightarrow> bool" where
  "endpoint_canonical e = (case e of
     Addr sa \<Rightarrow> no_flowinfo sa
   | Domain d _ \<Rightarrow> parse_ip_addr d = None \<and> (d = [] \<or> hd d \<noteq> CHR ''[''))"

lemma endpoint_roundtrip:
  assumes "endpoint_canonical e"
  shows "endpoint_from_str (endpoint_to_string e) = Inr e"
proof (cases e)
  case (Addr sa)
  with assms show ?thesis
    by (simp add: endpoint_canonical_def endpoint_from_str_def parse_socket_show new_from_addr_def)
next
  case (Domain d p)
  have "parse_socket_addr (d @ CHR '':'' # show_radix 10 (unat p)) = None"
  proof (rule ccontr)
    assume "parse_socket_addr (d @ CHR '':'' # show_radix 10 (unat p)) \<noteq> None"
    then obtain sa where "parse_socket_addr (d @ CHR '':'' # show_radix 10 (unat p)) = Some sa"
      by auto
    from socket_text_host [OF this] show False
      using assms Domain by (auto simp: endpoint_canonical_def)
  qed
  with Domain show ?thesis by (simp add: endpoint_from_str_text)
qed

text \<open>A reader never adds to its input.\<close>

lemma read_given_char_set: "read_given_char c s = Some (v, s') \<Longrightarrow> set s' \<subseteq> set s"
  by (cases s) (auto split: if_splits)

lemma read_separator_set:
  "read_separator sep i inner s = Some (v, s') \<Longrightarrow>
   (\<And>t v t'. inner t = Some (v, t') \<Longrightarrow> set t' \<subseteq> set t) \<Longrightarrow> set s' \<subseteq> set s"
  unfolding read_separator_def
  by (fastforce split: if_splits option.splits dest: read_given_char_set)

lemma read_number_set: "read_number radix md azp lim s = Some (v, s') \<Longrightarrow> set s' \<subseteq> set s"
  using read_number_local by fastforce

lemma read_ipv4_set: "read_ipv4_addr s = Some (a, s') \<Longrightarrow> set s' \<subseteq> set s"
  using read_ipv4_local by fastforce

lemma read_groups_set: "read_groups i limit s = (r, s') \<Longrightarrow> set s' \<subseteq> set s"
proof (induction i limit s arbitrary: r rule: read_groups.induct)
  case (1 i limit s)
  let ?v4 = "if i < limit - 1 then read_separator (CHR '':'') i read_ipv4_addr s else None"
  let ?g = "read_separator (CHR '':'') i (read_number 16 (Some 4) True 65535) s"
  note unfold = read_groups.simps [of i limit s]
  show ?case
  proof (cases "limit \<le> i")
    case False
    show ?thesis
    proof (cases ?v4)
      case None
      show ?thesis
      proof (cases ?g)
        case None
        with \<open>?v4 = None\<close> False "1.prems" show ?thesis by (subst (asm) unfold) auto
      next
        case (Some q)
        obtain g t where q: "q = (g, t)" by (cases q)
        obtain gs v4 t' where rec: "read_groups (Suc i) limit t = ((gs, v4), t')"
          by (cases "read_groups (Suc i) limit t") auto
        have "set t \<subseteq> set s"
          using Some unfolding q by (rule read_separator_set) (rule read_number_set)
        moreover have "t' = s'"
          using "1.prems" False \<open>?v4 = None\<close> Some q rec by (subst (asm) unfold) simp
        moreover have "set t' \<subseteq> set t"
          using "1.IH" [OF False \<open>?v4 = None\<close> Some q [symmetric]] rec \<open>t' = s'\<close> by simp
        ultimately show ?thesis by blast
      qed
    next
      case (Some q)
      then have "read_separator (CHR '':'') i read_ipv4_addr s = Some q" by (auto split: if_splits)
      moreover have "s' = snd q"
        using "1.prems" False Some by (subst (asm) unfold) (auto split: prod.splits)
      ultimately show ?thesis
        by (cases q) (auto dest!: read_separator_set [OF _ read_ipv4_set])
    qed
  qed (use "1.prems" unfold in auto)
qed

lemma read_ipv6_set: "read_ipv6_addr s = Some (a, s') \<Longrightarrow> set s' \<subseteq> set s"
proof -
  assume a: "read_ipv6_addr s = Some (a, s')"
  obtain h b s1 where 1: "read_groups 0 8 s = ((h, b), s1)"
    by (cases "read_groups 0 8 s") auto
  obtain t c s4 where 2: "read_groups 0 (7 - length h) (tl (tl s1)) = ((t, c), s4)"
    by (cases "read_groups 0 (7 - length h) (tl (tl s1))") auto
  have "s' = s1 \<or> s' = s4"
    using a 1 2 by (cases s1; cases "tl s1") (auto simp: read_ipv6_addr_def split: if_splits)
  moreover have "set (tl (tl s1)) \<subseteq> set s1" by (cases s1; cases "tl s1") auto
  ultimately show ?thesis
    using read_groups_set [OF 1] read_groups_set [OF 2] by blast
qed

lemma read_scope_id_set: "read_scope_id s = Some (v, s') \<Longrightarrow> set s' \<subseteq> set s"
  unfolding read_scope_id_def
  by (auto split: option.splits dest!: read_given_char_set read_number_set)

lemma socket_text_colon: "parse_socket_addr s = Some sa \<Longrightarrow> CHR '':'' \<in> set s"
proof -
  have port_colon: "read_port t = Some (q, t') \<Longrightarrow> CHR '':'' \<in> set t" for t q t'
    by (cases t) (auto simp: read_port_def split: if_splits)
  assume "parse_socket_addr s = Some sa"
  then have "read_socket_addr s = Some (sa, [])"
    by (auto simp: parse_socket_addr_def parse_with_def split: option.splits list.splits)
  then consider "read_socket_addr_v4 s = Some (sa, [])" | "read_socket_addr_v6 s = Some (sa, [])"
    by (auto simp: read_socket_addr_def split: option.splits)
  then show ?thesis
  proof cases
    case 1
    then obtain a s' p where "read_ipv4_addr s = Some (a, s')" "read_port s' = Some (p, [])"
      by (auto simp: read_socket_addr_v4_def split: option.splits)
    with read_ipv4_local [OF this(1)] port_colon show ?thesis by auto
  next
    case 2
    then obtain s1 ip s2 scope s3 s4 p where
      "read_given_char (CHR ''['') s = Some ((), s1)" "read_ipv6_addr s1 = Some (ip, s2)"
      "(case read_scope_id s2 of Some (i, s') \<Rightarrow> (i, s') | None \<Rightarrow> (0, s2)) = (scope, s3)"
      "read_given_char (CHR '']'') s3 = Some ((), s4)" "read_port s4 = Some (p, [])"
      by (auto simp: read_socket_addr_v6_def split: option.splits prod.splits)
    note steps = this
    have "CHR '':'' \<in> set s4" using steps(5) by (rule port_colon)
    moreover have "set s4 \<subseteq> set s3" using steps(4) by (rule read_given_char_set)
    moreover have "set s3 \<subseteq> set s2"
      using steps(3) by (auto split: option.splits dest: read_scope_id_set)
    moreover have "set s2 \<subseteq> set s1" using steps(2) by (rule read_ipv6_set)
    moreover have "set s1 \<subseteq> set s" using steps(1) by (rule read_given_char_set)
    ultimately show ?thesis by blast
  qed
qed

lemma endpoint_from_str_errors:
  "endpoint_from_str s = Inl PortMissing \<longleftrightarrow> CHR '':'' \<notin> set s"
  "endpoint_from_str s = Inl PortInvalid \<longleftrightarrow>
     parse_socket_addr s = None \<and>
     (\<exists>host t. rsplit_once (CHR '':'') s = Some (host, t) \<and> parse_u16 t = None)"
  using socket_text_colon [of s]
  by (auto simp: endpoint_from_str_def ok_or_def split: option.splits dest: rsplit_once_SomeD)

text \<open>A domain that is taken from a text is what stands before its last colon.\<close>

lemma endpoint_from_str_Domain:
  "endpoint_from_str s = Inr (Domain d p) \<longleftrightarrow>
     parse_socket_addr s = None \<and> (\<exists>t. rsplit_once (CHR '':'') s = Some (d, t) \<and> parse_u16 t = Some p)"
  by (auto simp: endpoint_from_str_def new_from_addr_def new_from_domain_def res_bind_eq_Inr
      ok_or_def split: option.splits dest: rsplit_once_SomeD)

lemma hostname_is_ip_iff:
  "cr_hostname_is_ip (connect_request_new e) \<longleftrightarrow> parse_ip_addr (hostname e) \<noteq> None"
  by (cases e) (simp_all add: cr_hostname_is_ip_def cr_hostname_as_ip_def connect_request_new_def)

lemma hostname_as_ip_value:
  "cr_hostname_as_ip (connect_request_new e) = map_option show_ip (parse_ip_addr (hostname e))"
  by (cases e) (simp_all add: cr_hostname_as_ip_def connect_request_new_def)

section \<open>Properties\<close>

text \<open>
  C19: the text of an endpoint parses back to that endpoint: always for an IPv4 address,
  for an IPv6 address without a flow label (the text does not carry it), and for a domain
  whose name is neither the text of an IP address nor starts with a bracket.
\<close>

theorem endpoint_text_roundtrip:
  assumes "endpoint_canonical e"
  shows "endpoint_from_str (endpoint_to_string e) = Inr e"
  using assms by (rule endpoint_roundtrip)

theorem endpoint_text_roundtrip_witness:
  "endpoint_from_str (endpoint_to_string (Domain ''x.io'' 80)) = Inr (Domain ''x.io'' 80)"
proof (rule endpoint_text_roundtrip)
  have "parse_ip_addr ''x.io'' = None" by (rule parse_ip_none) (simp_all add: to_digit_def)
  then show "endpoint_canonical (Domain ''x.io'' 80)" by (simp add: endpoint_canonical_def)
qed

text \<open>
  C22: the two errors of parsing an endpoint: a text without a colon has no port, and a
  text that is no socket address has an invalid port exactly when what follows its last
  colon is no 16-bit number; every other text is an endpoint.
\<close>

theorem endpoint_parse_errors:
  "(endpoint_from_str s = Inl PortMissing \<longleftrightarrow> CHR '':'' \<notin> set s) \<and>
   (endpoint_from_str s = Inl PortInvalid \<longleftrightarrow>
      parse_socket_addr s = None \<and>
      (\<exists>host t. rsplit_once (CHR '':'') s = Some (host, t) \<and> parse_u16 t = None))"
  using endpoint_from_str_errors by blast

text \<open>
  The view of a script agrees with the endpoint: its host is an IP exactly when the
  host name of the endpoint parses as one, the IP it sees is that address in its
  canonical text, and for an endpoint that is an address the text it sees is the host
  name itself.
\<close>

theorem connect_request_hostname_ip:
  "(cr_hostname_is_ip (connect_request_new e) \<longleftrightarrow>
      parse_ip_addr (cr_hostname (connect_request_new e)) \<noteq> None) \<and>
   cr_hostname_as_ip (connect_request_new e) =
      map_option show_ip (parse_ip_addr (cr_hostname (connect_request_new e))) \<and>
   cr_hostname_as_ip (connect_request_new (Addr sa)) =
      Some (cr_hostname (connect_request_new (Addr sa)))"
  using hostname_is_ip_iff hostname_as_ip_value
  by (simp add: cr_hostname_def connect_request_new_def cr_hostname_as_ip_def)

end
