(* ===== verification/Lru_Cache.thy ===== *)
theory Lru_Cache
  imports Dandelion_Prelude
begin

text \<open>
  The interface of the \<^verbatim>\<open>lru\<close> crate's unbounded \<^verbatim>\<open>LruCache<K, V>\<close> that the fake DNS
  resolver calls: the operations as a record, and what the crate documents of them as a
  locale over the entries in order of recency, the most recently used first.  The crate
  itself is not part of the repository, so its representation stays a type parameter.
\<close>

record ('k, 'v, 'c) lru_ops =
  lru_unbounded :: 'c
  lru_get :: "'c \<Rightarrow> 'k \<Rightarrow> 'v option \<times> 'c"
  lru_put :: "'c \<Rightarrow> 'k \<Rightarrow> 'v \<Rightarrow> 'c"
  lru_pop_lru :: "'c \<Rightarrow> ('k \<times> 'v) option \<times> 'c"

text \<open>Bringing a key to the front of a recency list, and putting a new entry there.\<close>

definition touch :: "'k \<Rightarrow> 'v \<Rightarrow> ('k \<times> 'v) list \<Rightarrow> ('k \<times> 'v) list" where
  "touch k v es = (k, v) # filter (\<lambda>p. fst p \<noteq> k) es"

locale lru_cache =
  fixes L :: "('k, 'v, 'c) lru_ops"
    and valid :: "'c \<Rightarrow> bool"
    and entries :: "'c \<Rightarrow> ('k \<times> 'v) list"
  assumes valid_unbounded: "valid (lru_unbounded L)"
    and entries_unbounded: "entries (lru_unbounded L) = []"
    and distinct_entries: "valid c \<Longrightarrow> distinct (map fst (entries c))"
    and valid_get: "valid c \<Longrightarrow> valid (snd (lru_get L c k))"
    and get_result: "valid c \<Longrightarrow> fst (lru_get L c k) = map_of (entries c) k"
    and get_entries: "valid c \<Longrightarrow> entries (snd (lru_get L c k)) =
          (case map_of (entries c) k of None \<Rightarrow> entries c | Some v \<Rightarrow> touch k v (entries c))"
    and valid_put: "valid c \<Longrightarrow> valid (lru_put L c k v)"
    and put_entries: "valid c \<Longrightarrow> entries (lru_put L c k v) = touch k v (entries c)"
    and valid_pop_lru: "valid c \<Longrightarrow> valid (snd (lru_pop_lru L c))"
    and pop_lru_result: "valid c \<Longrightarrow> fst (lru_pop_lru L c) =
          (if entries c = [] then None else Some (last (entries c)))"
    and pop_lru_entries: "valid c \<Longrightarrow> entries (snd (lru_pop_lru L c)) = butlast (entries c)"
begin

lemmas valid_ops = valid_unbounded valid_get valid_put valid_pop_lru
lemmas entries_ops = entries_unbounded get_entries put_entries pop_lru_entries
lemmas result_ops = get_result pop_lru_result

end

lemma set_touch: "set (touch k v es) = insert (k, v) {p \<in> set es. fst p \<noteq> k}"
  by (auto simp: touch_def)

lemma filter_fst_id: "k \<notin> fst ` set es \<Longrightarrow> filter (\<lambda>p. fst p \<noteq> k) es = es"
  by (auto simp: filter_id_conv)

lemma touch_new: "k \<notin> fst ` set es \<Longrightarrow> touch k v es = (k, v) # es"
  by (simp add: touch_def filter_fst_id)

lemma distinct_touch: "distinct (map fst es) \<Longrightarrow> distinct (map fst (touch k v es))"
  by (auto simp: touch_def distinct_map_filter)

lemma length_touch_member:
  "distinct (map fst es) \<Longrightarrow> (k, v) \<in> set es \<Longrightarrow> length (touch k v es) = length es"
proof (induction es)
  case (Cons e es)
  show ?case
  proof (cases "fst e = k")
    case True
    then have "k \<notin> fst ` set es" using Cons.prems(1) by auto
    with True show ?thesis by (simp add: touch_def filter_fst_id)
  next
    case False
    with Cons show ?thesis by (auto simp: touch_def)
  qed
qed simp

section \<open>A cache kept as its own recency list\<close>

text \<open>
  The simplest cache that meets the interface, with which the theorems about the
  resolver are instantiated.
\<close>

definition list_lru :: "('k, 'v, ('k \<times> 'v) list) lru_ops" where
  "list_lru = \<lparr>
     lru_unbounded = [],
     lru_get = (\<lambda>c k. (map_of c k, (case map_of c k of None \<Rightarrow> c | Some v \<Rightarrow> touch k v c))),
     lru_put = (\<lambda>c k v. touch k v c),
     lru_pop_lru = (\<lambda>c. (if c = [] then None else Some (last c), butlast c))\<rparr>"

interpretation list_lru: lru_cache list_lru "\<lambda>c. distinct (map fst c)" "\<lambda>c. c"
  by unfold_locales
    (auto simp: list_lru_def distinct_touch map_butlast distinct_butlast
      split: option.split)

end
