(* ===== verification/Fake_Dns.thy ===== *)
theory Fake_Dns
  imports Lru_Cache Std_Net_Roundtrip
begin

text \<open>
  The fake DNS resolver of the TUN mode, \<^verbatim>\<open>core/tun/resolver.rs\<close>, and its script wrapper
  \<^verbatim>\<open>FakeResolver\<close> of \<^verbatim>\<open>config/engine/tun.rs\<close>.  A pool of addresses is handed out to
  names; when the pool is empty the address of the least recently used name is taken
  over.  The forward map is a \<^verbatim>\<open>HashMap\<close> (a HOL map), the free addresses a
  \<^verbatim>\<open>LinkedList\<close> (a list), the reverse map the crate's \<^verbatim>\<open>LruCache\<close>, a parameter through
  the interface \<^const>\<open>lru_cache\<close>.

  The detailed state is related to an abstract one, a list of free addresses and a
  recency list of the assignments, which every operation simulates; the guarantees for
  names and addresses are proved on the abstract machine and carried over.
\<close>

section \<open>The pool with its two maps\<close>

record ('k, 'v, 'c) pool_mapping =
  pool :: "'v list"
  mapping :: "'k \<rightharpoonup> 'v"
  reverse_mapping :: 'c

definition pool_new :: "('v, 'k, 'c) lru_ops \<Rightarrow> 'v list \<Rightarrow> ('k, 'v, 'c) pool_mapping" where
  "pool_new L vs = \<lparr>pool = vs, mapping = Map.empty, reverse_mapping = lru_unbounded L\<rparr>"

definition pool_get ::
  "('v, 'k, 'c) lru_ops \<Rightarrow> 'k \<Rightarrow> ('k, 'v, 'c) pool_mapping \<Rightarrow> 'v option \<times> ('k, 'v, 'c) pool_mapping"
  where
  "pool_get L key s =
     (case mapping s key of
        Some value \<Rightarrow>
          (Some value, s\<lparr>reverse_mapping := snd (lru_get L (reverse_mapping s) value)\<rparr>)
      | None \<Rightarrow>
          (case pool s of
             value # rest \<Rightarrow>
               (Some value,
                s\<lparr>pool := rest, mapping := (mapping s)(key \<mapsto> value),
                  reverse_mapping := lru_put L (reverse_mapping s) value key\<rparr>)
           | [] \<Rightarrow>
               (case lru_pop_lru L (reverse_mapping s) of
                  (Some (value, old_key), c) \<Rightarrow>
                    (Some value,
                     s\<lparr>mapping := ((mapping s)(old_key := None))(key \<mapsto> value),
                       reverse_mapping := lru_put L c value key\<rparr>)
                | (None, c) \<Rightarrow> (None, s\<lparr>reverse_mapping := c\<rparr>))))"

definition pool_get_reverse ::
  "('v, 'k, 'c) lru_ops \<Rightarrow> 'v \<Rightarrow> ('k, 'v, 'c) pool_mapping \<Rightarrow> 'k option \<times> ('k, 'v, 'c) pool_mapping"
  where
  "pool_get_reverse L value s =
     (case lru_get L (reverse_mapping s) value of
        (r, c) \<Rightarrow> (r, s\<lparr>reverse_mapping := c\<rparr>))"

text \<open>A run of lookups; it reports the names it touched.\<close>

datatype ('k, 'v) pool_op = Get 'k | GetReverse 'v

fun pool_exec ::
  "('v, 'k, 'c) lru_ops \<Rightarrow> ('k, 'v) pool_op list \<Rightarrow> ('k, 'v, 'c) pool_mapping \<Rightarrow>
   'k list \<times> ('k, 'v, 'c) pool_mapping" where
  "pool_exec L [] s = ([], s)"
| "pool_exec L (Get k # ops) s =
     (case pool_exec L ops (snd (pool_get L k s)) of (ks, s') \<Rightarrow> (k # ks, s'))"
| "pool_exec L (GetReverse v # ops) s =
     (case pool_get_reverse L v s of (r, s1) \<Rightarrow>
        (case pool_exec L ops s1 of (ks, s') \<Rightarrow>
           ((case r of None \<Rightarrow> ks | Some k \<Rightarrow> k # ks), s')))"

text \<open>The addresses a sequence of names is given.\<close>

fun pool_gets ::
  "('v, 'k, 'c) lru_ops \<Rightarrow> 'k list \<Rightarrow> ('k, 'v, 'c) pool_mapping \<Rightarrow> 'v option list" where
  "pool_gets L [] s = []"
| "pool_gets L (k # ks) s = (case pool_get L k s of (r, s') \<Rightarrow> r # pool_gets L ks s')"

section \<open>The resolver\<close>

datatype ip_type = Ipv4 | Ipv6

record ('c4, 'c6) fake_dns =
  ipv4_mapping :: "(string, ipv4_addr, 'c4) pool_mapping"
  ipv6_mapping :: "(string, ipv6_addr, 'c6) pool_mapping"

record ('c4, 'c6) lru_pair =
  lru4 :: "(ipv4_addr, string, 'c4) lru_ops"
  lru6 :: "(ipv6_addr, string, 'c6) lru_ops"

definition fake_dns_new ::
  "('c4, 'c6) lru_pair \<Rightarrow> ipv4_addr list \<Rightarrow> ipv6_addr list \<Rightarrow> ('c4, 'c6) fake_dns" where
  "fake_dns_new L p4 p6 =
     \<lparr>ipv4_mapping = pool_new (lru4 L) p4, ipv6_mapping = pool_new (lru6 L) p6\<rparr>"

definition fake_lookup ::
  "('c4, 'c6) lru_pair \<Rightarrow> string \<Rightarrow> ip_type \<Rightarrow> ('c4, 'c6) fake_dns \<Rightarrow>
   ip_addr option \<times> ('c4, 'c6) fake_dns" where
  "fake_lookup L name query_type s =
     (case parse_ip_addr name of
        Some ip \<Rightarrow> (Some ip, s)
      | None \<Rightarrow>
          (case query_type of
             Ipv4 \<Rightarrow> (case pool_get (lru4 L) name (ipv4_mapping s) of
                        (r, m) \<Rightarrow> (map_option V4 r, s\<lparr>ipv4_mapping := m\<rparr>))
           | Ipv6 \<Rightarrow> (case pool_get (lru6 L) name (ipv6_mapping s) of
                        (r, m) \<Rightarrow> (map_option V6 r, s\<lparr>ipv6_mapping := m\<rparr>))))"

definition fake_lookup_ipv4 ::
  "('c4, 'c6) lru_pair \<Rightarrow> string \<Rightarrow> ('c4, 'c6) fake_dns \<Rightarrow> ipv4_addr option \<times> ('c4, 'c6) fake_dns"
  where
  "fake_lookup_ipv4 L name s =
     (case fake_lookup L name Ipv4 s of
        (r, s') \<Rightarrow> (Option.bind r (\<lambda>ip. case ip of V4 a \<Rightarrow> Some a | V6 _ \<Rightarrow> None), s'))"

definition fake_lookup_ipv6 ::
  "('c4, 'c6) lru_pair \<Rightarrow> string \<Rightarrow> ('c4, 'c6) fake_dns \<Rightarrow> ipv6_addr option \<times> ('c4, 'c6) fake_dns"
  where
  "fake_lookup_ipv6 L name s =
     (case fake_lookup L name Ipv6 s of
        (r, s') \<Rightarrow> (Option.bind r (\<lambda>ip. case ip of V6 a \<Rightarrow> Some a | V4 _ \<Rightarrow> None), s'))"

definition fake_lookup_ptr ::
  "('c4, 'c6) lru_pair \<Rightarrow> ip_addr \<Rightarrow> ('c4, 'c6) fake_dns \<Rightarrow> string option \<times> ('c4, 'c6) fake_dns"
  where
  "fake_lookup_ptr L addr s =
     (case addr of
        V4 a \<Rightarrow> (case pool_get_reverse (lru4 L) a (ipv4_mapping s) of
                   (r, m) \<Rightarrow> (r, s\<lparr>ipv4_mapping := m\<rparr>))
      | V6 a \<Rightarrow> (case pool_get_reverse (lru6 L) a (ipv6_mapping s) of
                   (r, m) \<Rightarrow> (r, s\<lparr>ipv6_mapping := m\<rparr>)))"

text \<open>The wrapper that routing scripts call: addresses as text, no assignment as an error.\<close>

datatype fake_resolver_error = NoFakeIpv4 string | NoFakeIpv6 string

definition fake_resolver_lookup_ipv4 ::
  "('c4, 'c6) lru_pair \<Rightarrow> string \<Rightarrow> ('c4, 'c6) fake_dns \<Rightarrow>
   (fake_resolver_error + string) \<times> ('c4, 'c6) fake_dns" where
  "fake_resolver_lookup_ipv4 L name s =
     (case fake_lookup_ipv4 L name s of
        (r, s') \<Rightarrow> (ok_or (NoFakeIpv4 name) (map_option show_ipv4 r), s'))"

definition fake_resolver_lookup_ipv6 ::
  "('c4, 'c6) lru_pair \<Rightarrow> string \<Rightarrow> ('c4, 'c6) fake_dns \<Rightarrow>
   (fake_resolver_error + string) \<times> ('c4, 'c6) fake_dns" where
  "fake_resolver_lookup_ipv6 L name s =
     (case fake_lookup_ipv6 L name s of
        (r, s') \<Rightarrow> (ok_or (NoFakeIpv6 name) (map_option show_ipv6 r), s'))"

text \<open>The states a resolver can be in after any sequence of lookups.\<close>

inductive fake_reach ::
  "('c4, 'c6) lru_pair \<Rightarrow> ipv4_addr list \<Rightarrow> ipv6_addr list \<Rightarrow> ('c4, 'c6) fake_dns \<Rightarrow> bool"
  for L p4 p6 where
  start: "fake_reach L p4 p6 (fake_dns_new L p4 p6)"
| ipv4: "fake_reach L p4 p6 s \<Longrightarrow> fake_reach L p4 p6 (snd (fake_lookup_ipv4 L name s))"
| ipv6: "fake_reach L p4 p6 s \<Longrightarrow> fake_reach L p4 p6 (snd (fake_lookup_ipv6 L name s))"
| ptr: "fake_reach L p4 p6 s \<Longrightarrow> fake_reach L p4 p6 (snd (fake_lookup_ptr L addr s))"

section \<open>The abstract machine\<close>

record ('k, 'v) lru_spec =
  free :: "'v list"
  used :: "('v \<times> 'k) list"

definition spec_get :: "'k \<Rightarrow> ('k, 'v) lru_spec \<Rightarrow> 'v option \<times> ('k, 'v) lru_spec" where
  "spec_get key a =
     (case find (\<lambda>p. snd p = key) (used a) of
        Some (v, k) \<Rightarrow> (Some v, a\<lparr>used := touch v key (used a)\<rparr>)
      | None \<Rightarrow>
          (case free a of
             v # vs \<Rightarrow> (Some v, \<lparr>free = vs, used = (v, key) # used a\<rparr>)
           | [] \<Rightarrow> if used a = [] then (None, a)
                   else (Some (fst (last (used a))),
                         a\<lparr>used := (fst (last (used a)), key) # butlast (used a)\<rparr>)))"

definition spec_get_reverse :: "'v \<Rightarrow> ('k, 'v) lru_spec \<Rightarrow> 'k option \<times> ('k, 'v) lru_spec" where
  "spec_get_reverse v a =
     (case map_of (used a) v of
        Some k \<Rightarrow> (Some k, a\<lparr>used := touch v k (used a)\<rparr>)
      | None \<Rightarrow> (None, a))"

definition spec_wf :: "('k, 'v) lru_spec \<Rightarrow> bool" where
  "spec_wf a \<longleftrightarrow> distinct (free a @ map fst (used a)) \<and> distinct (map snd (used a))"

definition spec_values :: "('k, 'v) lru_spec \<Rightarrow> 'v set" where
  "spec_values a = set (free a) \<union> fst ` set (used a)"

lemma find_snd_Some:
  "find (\<lambda>p. snd p = key) es = Some (v, k) \<Longrightarrow> k = key \<and> (v, key) \<in> set es"
  by (induction es) (auto split: if_splits)

lemma find_snd_None: "find (\<lambda>p. snd p = key) es = None \<longleftrightarrow> key \<notin> snd ` set es"
  by (induction es) auto

lemma distinct_snd_filter:
  "distinct (map snd es) \<Longrightarrow> distinct (map snd (filter P es))"
  by (rule distinct_map_filter)

lemma distinct_fst_last:
  "distinct (map fst es) \<Longrightarrow> es \<noteq> [] \<Longrightarrow> fst (last es) \<notin> fst ` set (butlast es)"
  by (cases es rule: rev_cases) auto

lemma distinct_fst_unique:
  "distinct (map fst es) \<Longrightarrow> (v, k) \<in> set es \<Longrightarrow> (v, k') \<in> set es \<Longrightarrow> k = k'"
  by (metis eq_key_imp_eq_value)

lemma distinct_snd_unique:
  "distinct (map snd es) \<Longrightarrow> (v, k) \<in> set es \<Longrightarrow> (v', k) \<in> set es \<Longrightarrow> v = v'"
  by (induction es) (auto simp: image_iff)

lemma distinct_snd_touch:
  "distinct (map fst es) \<Longrightarrow> distinct (map snd es) \<Longrightarrow> (v, k) \<in> set es \<Longrightarrow>
   distinct (map snd (touch v k es))"
  unfolding touch_def
  by (auto simp: distinct_map_filter dest: distinct_snd_unique)

lemma fst_touch_member: "(v, k) \<in> set es \<Longrightarrow> fst ` set (touch v k es) = fst ` set es"
  by (force simp: set_touch)

lemma touch_set_member:
  assumes "distinct (map fst es)" and "(v, k) \<in> set es"
  shows "set (touch v k es) = set es"
proof -
  have "p = (v, k)" if "p \<in> set es" "fst p = v" for p
    using distinct_fst_unique [OF assms(1), of v "snd p" k] assms(2) that
    by (metis prod.collapse)
  then show ?thesis using assms(2) unfolding set_touch by blast
qed

lemma map_of_SomeD_iff:
  "distinct (map fst es) \<Longrightarrow> map_of es v = Some k \<longleftrightarrow> (v, k) \<in> set es"
  by (metis map_of_SomeD map_of_is_SomeI)

lemma spec_wf_touch:
  "spec_wf a \<Longrightarrow> (v, k) \<in> set (used a) \<Longrightarrow> spec_wf (a\<lparr>used := touch v k (used a)\<rparr>)"
  using fst_touch_member [of v k "used a"]
  by (auto simp: spec_wf_def distinct_touch distinct_snd_touch simp flip: set_map)

text \<open>The four ways a lookup by name can go.\<close>

lemma spec_get_cases:
  assumes "spec_get key a = (r, a')"
  obtains
    (hit) v where "(v, key) \<in> set (used a)" "r = Some v" "a' = a\<lparr>used := touch v key (used a)\<rparr>"
  | (fresh) v vs where "key \<notin> snd ` set (used a)" "free a = v # vs" "r = Some v"
      "a' = \<lparr>free = vs, used = (v, key) # used a\<rparr>"
  | (evict) v old es where "key \<notin> snd ` set (used a)" "free a = []" "used a = es @ [(v, old)]"
      "r = Some v" "a' = \<lparr>free = [], used = (v, key) # es\<rparr>"
  | (exhausted) "key \<notin> snd ` set (used a)" "free a = []" "used a = []" "r = None" "a' = a"
proof (cases "find (\<lambda>p. snd p = key) (used a)")
  case (Some p)
  then show ?thesis
    using assms find_snd_Some [of key "used a"] hit by (cases p) (auto simp: spec_get_def)
next
  case None
  then have key: "key \<notin> snd ` set (used a)" by (simp add: find_snd_None)
  show ?thesis
  proof (cases "free a")
    case Nil
    show ?thesis
    proof (cases "used a" rule: rev_cases)
      case (snoc es e)
      then show ?thesis
        using assms None Nil key by (cases e) (auto simp: spec_get_def intro!: evict)
    qed (use assms None Nil key in \<open>auto simp: spec_get_def intro!: exhausted\<close>)
  qed (use assms None key in \<open>auto simp: spec_get_def intro!: fresh\<close>)
qed

lemma spec_get_wf:
  assumes "spec_wf a" and "spec_get key a = (r, a')"
  shows "spec_wf a'" and "spec_values a' = spec_values a"
    and "length (free a') + length (used a') = length (free a) + length (used a)"
    and "r = None \<longleftrightarrow> free a = [] \<and> used a = []"
    and "r = Some v \<Longrightarrow> used a' \<noteq> [] \<and> hd (used a') = (v, key)"
proof -
  have d: "distinct (map fst (used a))" using assms(1) by (simp add: spec_wf_def)
  note rules = spec_wf_def spec_values_def
  from assms(2) show "spec_wf a'"
  proof (cases rule: spec_get_cases)
    case (hit w)
    with assms(1) show ?thesis by (simp add: spec_wf_touch)
  qed (use assms(1) in \<open>auto simp: rules\<close>)
  from assms(2) show "spec_values a' = spec_values a"
    by (cases rule: spec_get_cases) (auto simp: rules fst_touch_member)
  from assms(2) show "length (free a') + length (used a') = length (free a) + length (used a)"
    by (cases rule: spec_get_cases) (auto simp: length_touch_member [OF d])
  from assms(2) show "r = None \<longleftrightarrow> free a = [] \<and> used a = []"
    by (cases rule: spec_get_cases) auto
  from assms(2) show "r = Some v \<Longrightarrow> used a' \<noteq> [] \<and> hd (used a') = (v, key)"
    by (cases rule: spec_get_cases) (auto simp: touch_def)
qed

lemma spec_get_reverse_wf:
  assumes "spec_wf a" and "spec_get_reverse v a = (r, a')"
  shows "spec_wf a'" and "spec_values a' = spec_values a"
    and "length (free a') + length (used a') = length (free a) + length (used a)"
    and "r = Some k \<longleftrightarrow> (v, k) \<in> set (used a)"
    and "set (used a') = set (used a)"
proof -
  have d: "distinct (map fst (used a))" using assms(1) by (simp add: spec_wf_def)
  have "spec_wf a' \<and> spec_values a' = spec_values a \<and>
    length (free a') + length (used a') = length (free a) + length (used a) \<and>
    (r = Some k \<longleftrightarrow> (v, k) \<in> set (used a)) \<and> set (used a') = set (used a)"
  proof (cases "map_of (used a) v")
    case None
    then have "(v, k) \<notin> set (used a)" by (auto dest: weak_map_of_SomeI)
    with None assms show ?thesis by (simp add: spec_get_reverse_def)
  next
    case (Some w)
    then have w: "(v, w) \<in> set (used a)" by (rule map_of_SomeD)
    then have "set (touch v w (used a)) = set (used a)" by (rule touch_set_member [OF d])
    moreover have "r = Some k \<longleftrightarrow> (v, k) \<in> set (used a)"
      using Some assms(2) map_of_SomeD_iff [OF d, of v k] by (auto simp: spec_get_reverse_def)
    ultimately show ?thesis
      using Some assms w length_touch_member [OF d]
      by (auto simp: spec_get_reverse_def spec_wf_touch spec_values_def)
  qed
  then show "spec_wf a'" and "spec_values a' = spec_values a"
    and "length (free a') + length (used a') = length (free a) + length (used a)"
    and "r = Some k \<longleftrightarrow> (v, k) \<in> set (used a)"
    and "set (used a') = set (used a)"
    by blast+
qed

text \<open>Fresh names take the free addresses in order, then the least recently used ones.\<close>

fun spec_gets :: "'k list \<Rightarrow> ('k, 'v) lru_spec \<Rightarrow> 'v option list" where
  "spec_gets [] a = []"
| "spec_gets (k # ks) a = (case spec_get k a of (r, a') \<Rightarrow> r # spec_gets ks a')"

lemma spec_get_fresh:
  "n \<notin> snd ` set U \<Longrightarrow>
   spec_get n \<lparr>free = v # vs, used = U\<rparr> = (Some v, \<lparr>free = vs, used = (v, n) # U\<rparr>)"
  using find_snd_None [of n U] by (simp add: spec_get_def)

lemma spec_get_evict:
  assumes "m \<notin> snd ` set U \<union> set (n # ns)"
  shows "spec_get m \<lparr>free = [], used = U @ rev (zip (v # vs) (n # ns))\<rparr> =
    (Some v, \<lparr>free = [], used = ((v, m) # U) @ rev (zip vs ns)\<rparr>)"
proof -
  have "m \<notin> snd ` set (U @ rev (zip (v # vs) (n # ns)))"
    using assms by (auto dest: set_zip_rightD)
  then show ?thesis
    using find_snd_None [of m "U @ rev (zip (v # vs) (n # ns))"] by (simp add: spec_get_def butlast_append)
qed

lemma spec_gets_evict:
  "length ms = length vs \<Longrightarrow> length ns = length vs \<Longrightarrow> distinct ms \<Longrightarrow>
   set ms \<inter> (snd ` set U \<union> set ns) = {} \<Longrightarrow>
   spec_gets ms \<lparr>free = [], used = U @ rev (zip vs ns)\<rparr> = map Some vs"
proof (induction ms arbitrary: vs ns U)
  case (Cons m ms)
  then obtain v vs' n ns' where vn: "vs = v # vs'" "ns = n # ns'" by (cases vs; cases ns) auto
  have "spec_get m \<lparr>free = [], used = U @ rev (zip vs ns)\<rparr> =
      (Some v, \<lparr>free = [], used = ((v, m) # U) @ rev (zip vs' ns')\<rparr>)"
    unfolding vn by (rule spec_get_evict) (use Cons.prems(4) vn in auto)
  moreover have "spec_gets ms \<lparr>free = [], used = ((v, m) # U) @ rev (zip vs' ns')\<rparr> = map Some vs'"
    using Cons.prems vn by (intro Cons.IH) auto
  ultimately show ?case using vn by simp
qed simp

lemma spec_gets_fresh:
  "length ns = length vs \<Longrightarrow> distinct ns \<Longrightarrow> set ns \<inter> snd ` set U = {} \<Longrightarrow>
   spec_gets (ns @ ms) \<lparr>free = vs, used = U\<rparr> =
   map Some vs @ spec_gets ms \<lparr>free = [], used = rev (zip vs ns) @ U\<rparr>"
proof (induction ns arbitrary: vs U)
  case (Cons n ns)
  then obtain v vs' where v: "vs = v # vs'" by (cases vs) auto
  have "spec_get n \<lparr>free = vs, used = U\<rparr> = (Some v, \<lparr>free = vs', used = (v, n) # U\<rparr>)"
    unfolding v by (rule spec_get_fresh) (use Cons.prems(3) in auto)
  then show ?case using Cons v by auto
qed simp

text \<open>
  Keeping an assignment.  Every assignment more recent than that of \<open>k\<close> belongs to a name
  of \<open>T\<close>; as long as \<open>T\<close> is smaller than the pool, a lookup of a name of \<open>T\<close> (or of \<open>k\<close>)
  finds another address than the one of \<open>k\<close>.
\<close>

definition kept :: "'k \<Rightarrow> 'v \<Rightarrow> 'k set \<Rightarrow> ('k, 'v) lru_spec \<Rightarrow> bool" where
  "kept k v T a \<longleftrightarrow> (\<exists>A B. used a = A @ (v, k) # B \<and> snd ` set A \<subseteq> T)"

lemma keptI: "used a = A @ (v, k) # B \<Longrightarrow> snd ` set A \<subseteq> T \<Longrightarrow> kept k v T a"
  by (auto simp: kept_def)

lemma kept_member: "kept k v T a \<Longrightarrow> (v, k) \<in> set (used a)"
  by (auto simp: kept_def)

lemma kept_touch:
  assumes "spec_wf a" and "kept k v T a" and "(w, x) \<in> set (used a)" and "x \<in> T \<or> x = k"
  shows "kept k v T (a\<lparr>used := touch w x (used a)\<rparr>)"
proof -
  obtain A B where ab: "used a = A @ (v, k) # B" "snd ` set A \<subseteq> T"
    using assms(2) by (auto simp: kept_def)
  have d: "distinct (map fst (used a))" "distinct (map snd (used a))"
    using assms(1) by (simp_all add: spec_wf_def)
  show ?thesis
  proof (cases "x = k")
    case True
    then have "w = v" using distinct_snd_unique [OF d(2) assms(3)] ab(1) by auto
    with True show ?thesis by (intro keptI [of _ "[]"]) (auto simp: touch_def)
  next
    case False
    then have "w \<noteq> v" using distinct_fst_unique [OF d(1) assms(3)] ab(1) by auto
    then have "touch w x (used a) =
        ((w, x) # filter (\<lambda>p. fst p \<noteq> w) A) @ (v, k) # filter (\<lambda>p. fst p \<noteq> w) B"
      using ab(1) by (simp add: touch_def)
    with False assms(4) ab(2) show ?thesis
      by (intro keptI [where A = "(w, x) # filter (\<lambda>p. fst p \<noteq> w) A"]) auto
  qed
qed

lemma kept_get:
  assumes "spec_wf a" and "kept k v T a" and "x \<in> T \<or> x = k" and "finite T"
    and "card T < length (free a) + length (used a)" and "spec_get x a = (r, a')"
  shows "kept k v T a'"
proof -
  obtain A B where ab: "used a = A @ (v, k) # B" "snd ` set A \<subseteq> T"
    using assms(2) by (auto simp: kept_def)
  from assms(6) show ?thesis
  proof (cases rule: spec_get_cases)
    case (hit w)
    then show ?thesis using kept_touch [OF assms(1,2) hit(1) assms(3)] by simp
  next
    case (fresh w vs)
    then show ?thesis using ab assms(3) by (intro keptI [of _ "(w, x) # A"]) auto
  next
    case (evict w old es)
    have x: "x \<in> T" "x \<notin> snd ` set A" using evict(1) ab(1) assms(3) by auto
    have "B \<noteq> []"
    proof
      assume "B = []"
      have "distinct (map snd A)" using assms(1) ab(1) by (simp add: spec_wf_def)
      then have "length A = card (snd ` set A)" by (metis distinct_card length_map set_map)
      also have "\<dots> < card T" using x ab(2) assms(4) by (intro psubset_card_mono) auto
      finally show False using assms(5) evict(2) ab(1) \<open>B = []\<close> by simp
    qed
    then have "es = A @ (v, k) # butlast B"
      using evict(3) ab(1) by (cases B rule: rev_cases) auto
    with evict(5) x ab(2) show ?thesis by (intro keptI [of _ "(w, x) # A"]) auto
  next
    case exhausted
    with ab show ?thesis by simp
  qed
qed

section \<open>The detailed state simulates the abstract one\<close>

definition pool_abs ::
  "('c \<Rightarrow> ('v \<times> 'k) list) \<Rightarrow> ('k, 'v, 'c) pool_mapping \<Rightarrow> ('k, 'v) lru_spec" where
  "pool_abs entries s = \<lparr>free = pool s, used = entries (reverse_mapping s)\<rparr>"

text \<open>
  The invariant of the pool: no address is both free and assigned or assigned twice, no
  name has two addresses, and the two maps are inverse to each other.
\<close>

definition pool_inv ::
  "('c \<Rightarrow> bool) \<Rightarrow> ('c \<Rightarrow> ('v \<times> 'k) list) \<Rightarrow> ('k, 'v, 'c) pool_mapping \<Rightarrow> bool" where
  "pool_inv valid entries s \<longleftrightarrow>
     valid (reverse_mapping s) \<and> spec_wf (pool_abs entries s) \<and>
     (\<forall>k v. mapping s k = Some v \<longleftrightarrow> (v, k) \<in> set (entries (reverse_mapping s)))"

context lru_cache
begin

abbreviation abst :: "('v, 'k, 'c) pool_mapping \<Rightarrow> ('v, 'k) lru_spec" where
  "abst \<equiv> pool_abs entries"

abbreviation pinv :: "('v, 'k, 'c) pool_mapping \<Rightarrow> bool" where
  "pinv \<equiv> pool_inv valid entries"

lemma inv_new: "distinct vs \<Longrightarrow> pinv (pool_new L vs)"
  by (simp add: pool_inv_def pool_new_def pool_abs_def spec_wf_def valid_unbounded entries_unbounded)

lemma abs_new: "abst (pool_new L vs) = \<lparr>free = vs, used = []\<rparr>"
  by (simp add: pool_new_def pool_abs_def entries_unbounded)

lemma find_mapping:
  assumes "pinv s"
  shows "find (\<lambda>p. snd p = key) (entries (reverse_mapping s)) =
    map_option (\<lambda>v. (v, key)) (mapping s key)"
proof (cases "mapping s key")
  case None
  then have "\<And>v. (v, key) \<notin> set (entries (reverse_mapping s))"
    using assms by (metis option.distinct(1) pool_inv_def)
  then have "key \<notin> snd ` set (entries (reverse_mapping s))" by auto
  then show ?thesis using None by (simp add: find_snd_None)
next
  case (Some v)
  then have v: "(v, key) \<in> set (entries (reverse_mapping s))"
    using assms by (simp add: pool_inv_def)
  then have "find (\<lambda>p. snd p = key) (entries (reverse_mapping s)) \<noteq> None"
    by (metis find_snd_None imageI snd_conv)
  then obtain w k where w: "find (\<lambda>p. snd p = key) (entries (reverse_mapping s)) = Some (w, k)"
    by auto
  moreover have "distinct (map snd (entries (reverse_mapping s)))"
    using assms by (simp add: pool_inv_def spec_wf_def pool_abs_def)
  ultimately have "k = key \<and> w = v"
    using find_snd_Some [OF w] v distinct_snd_unique by metis
  then show ?thesis using w Some by simp
qed

lemma get_refines:
  assumes "pinv s" and "pool_get L key s = (r, s')"
  shows "spec_get key (abst s) = (r, abst s')"
proof -
  let ?c = "reverse_mapping s"
  have wf: "valid ?c" and sw: "spec_wf (abst s)" using assms(1) by (simp_all add: pool_inv_def)
  have find: "find (\<lambda>p. snd p = key) (entries ?c) = map_option (\<lambda>v. (v, key)) (mapping s key)"
    using assms(1) by (rule find_mapping)
  have fst_new: "pool s = v # vs \<Longrightarrow> v \<notin> fst ` set (entries ?c)" for v vs
    using sw by (auto simp: spec_wf_def pool_abs_def)
  have fst_last: "entries ?c \<noteq> [] \<Longrightarrow> fst (last (entries ?c)) \<notin> fst ` set (butlast (entries ?c))"
    using distinct_entries [OF wf] by (rule distinct_fst_last)
  show ?thesis
  proof (cases "mapping s key")
    case (Some v)
    then have "map_of (entries ?c) v = Some key"
      using assms(1) distinct_entries [OF wf] by (simp add: pool_inv_def map_of_SomeD_iff)
    moreover have "find (\<lambda>p. snd p = key) (entries ?c) = Some (v, key)" using find Some by simp
    moreover have "r = Some v" and "s' = s\<lparr>reverse_mapping := snd (lru_get L ?c v)\<rparr>"
      using assms(2) Some by (simp_all add: pool_get_def)
    ultimately show ?thesis
      using wf by (simp add: spec_get_def pool_abs_def get_entries)
  next
    case None
    show ?thesis
    proof (cases "pool s")
      case Nil
      obtain p c where pop: "lru_pop_lru L ?c = (p, c)" by (cases "lru_pop_lru L ?c")
      have "p = (if entries ?c = [] then None else Some (last (entries ?c)))"
        "entries c = butlast (entries ?c)" "valid c"
        using pop_lru_result [OF wf] pop_lru_entries [OF wf] valid_pop_lru [OF wf] pop by auto
      then show ?thesis
        using assms(2) None Nil find pop fst_last
        by (auto simp: pool_get_def spec_get_def pool_abs_def put_entries touch_new
            split: if_splits prod.splits)
    next
      case (Cons v vs)
      then show ?thesis
        using assms(2) None find fst_new [OF Cons] wf
        by (auto simp: pool_get_def spec_get_def pool_abs_def put_entries touch_new)
    qed
  qed
qed

lemma get_valid:
  "pinv s \<Longrightarrow> pool_get L key s = (r, s') \<Longrightarrow> valid (reverse_mapping s')"
  by (auto simp: pool_get_def pool_inv_def valid_get valid_put split: option.splits list.splits prod.splits)
    (metis snd_conv valid_pop_lru valid_put)+

lemma get_inv:
  assumes "pinv s" and "pool_get L key s = (r, s')"
  shows "pinv s'"
proof -
  let ?e = "entries (reverse_mapping s)" and ?e' = "entries (reverse_mapping s')"
  have ref: "spec_get key (abst s) = (r, abst s')" using assms by (rule get_refines)
  have sw: "spec_wf (abst s)" and m: "\<And>k v. mapping s k = Some v \<longleftrightarrow> (v, k) \<in> set ?e"
    using assms(1) by (simp_all add: pool_inv_def)
  have none: "key \<notin> snd ` set ?e \<longleftrightarrow> mapping s key = None"
    using find_mapping [OF assms(1), of key] find_snd_None [of key ?e] by simp
  have "mapping s' k = Some v \<longleftrightarrow> (v, k) \<in> set ?e'" for k v
    using ref
  proof (cases rule: spec_get_cases)
    case (hit w)
    then have "mapping s key = Some w" using m by (simp add: pool_abs_def)
    then have "mapping s' = mapping s" using assms(2) by (auto simp: pool_get_def)
    moreover have "set ?e' = set ?e"
      using hit(1,3) sw touch_set_member [of ?e w key] by (simp add: pool_abs_def spec_wf_def)
    ultimately show ?thesis using m by simp
  next
    case (fresh w vs)
    then have "mapping s' = (mapping s)(key \<mapsto> w)"
      using assms(2) none by (auto simp: pool_get_def pool_abs_def)
    moreover have "?e' = (w, key) # ?e" using fresh(4) by (simp add: pool_abs_def)
    ultimately show ?thesis using m fresh(1) by (force simp: pool_abs_def)
  next
    case (evict w old es)
    have pop: "fst (lru_pop_lru L (reverse_mapping s)) = Some (w, old)"
      using pop_lru_result [of "reverse_mapping s"] assms(1) evict(3)
      by (simp add: pool_inv_def pool_abs_def)
    have none': "mapping s key = None" "pool s = []"
      using evict(1,2) none by (simp_all add: pool_abs_def)
    have "mapping s' = ((mapping s)(old := None))(key \<mapsto> w)"
      using assms(2) none' pop by (auto simp: pool_get_def split: prod.splits)
    moreover have "?e' = (w, key) # es" "?e = es @ [(w, old)]"
      using evict(3,5) by (simp_all add: pool_abs_def)
    moreover have "old \<notin> snd ` set es" using sw evict(3) by (auto simp: spec_wf_def)
    ultimately show ?thesis using m evict(1) by (force simp: pool_abs_def)
  next
    case exhausted
    then have "mapping s' = mapping s"
      using assms(2) none by (auto simp: pool_get_def pool_abs_def split: prod.splits option.splits)
    then show ?thesis using m exhausted(5) by (simp add: pool_abs_def)
  qed
  then show ?thesis
    using get_valid [OF assms] spec_get_wf(1) [OF sw ref] by (simp add: pool_inv_def)
qed

lemma get_reverse_refines:
  assumes "pinv s" and "pool_get_reverse L v s = (r, s')"
  shows "spec_get_reverse v (abst s) = (r, abst s')" and "pinv s'"
proof -
  let ?c = "reverse_mapping s"
  have wf: "valid ?c" and sw: "spec_wf (abst s)" using assms(1) by (simp_all add: pool_inv_def)
  have r: "r = fst (lru_get L ?c v)" and s': "s' = s\<lparr>reverse_mapping := snd (lru_get L ?c v)\<rparr>"
    using assms(2) by (auto simp: pool_get_reverse_def split: prod.splits)
  show ref: "spec_get_reverse v (abst s) = (r, abst s')"
    using wf r s' by (auto simp: spec_get_reverse_def pool_abs_def get_result get_entries
        split: option.split)
  have "set (entries (reverse_mapping s')) = set (entries ?c)" "spec_wf (abst s')"
    using spec_get_reverse_wf(1,5) [OF sw ref] by (simp_all add: pool_abs_def)
  then show "pinv s'" using assms(1) wf s' by (simp add: pool_inv_def valid_get)
qed

definition capacity :: "('v, 'k, 'c) pool_mapping \<Rightarrow> nat" where
  "capacity s = length (pool s) + length (entries (reverse_mapping s))"

lemma capacity_abs: "capacity s = length (free (abst s)) + length (used (abst s))"
  by (simp add: capacity_def pool_abs_def)

lemma get_step:
  assumes "pinv s" and "pool_get L k s = (r, s')"
  shows "spec_values (abst s') = spec_values (abst s)" and "capacity s' = capacity s"
    and "r = None \<longleftrightarrow> capacity s = 0"
    and "r = Some v \<Longrightarrow> mapping s' k = Some v"
proof -
  have sw: "spec_wf (abst s)" using assms(1) by (simp add: pool_inv_def)
  note spec = spec_get_wf [OF sw get_refines [OF assms]]
  show "spec_values (abst s') = spec_values (abst s)" by (rule spec(2))
  show "capacity s' = capacity s" using spec(3) by (simp add: capacity_abs)
  show "r = None \<longleftrightarrow> capacity s = 0" using spec(4) by (simp add: capacity_abs)
  assume "r = Some v"
  then have "(v, k) \<in> set (used (abst s'))" using spec(5) by (metis hd_in_set)
  then show "mapping s' k = Some v"
    using get_inv [OF assms] by (simp add: pool_inv_def pool_abs_def)
qed

lemma get_reverse_step:
  assumes "pinv s" and "pool_get_reverse L v s = (r, s')"
  shows "spec_values (abst s') = spec_values (abst s)" and "capacity s' = capacity s"
    and "r = Some k \<longleftrightarrow> mapping s k = Some v"
proof -
  have sw: "spec_wf (abst s)" using assms(1) by (simp add: pool_inv_def)
  note spec = spec_get_reverse_wf [OF sw get_reverse_refines(1) [OF assms]]
  show "spec_values (abst s') = spec_values (abst s)" by (rule spec(2))
  show "capacity s' = capacity s" using spec(3) by (simp add: capacity_abs)
  show "r = Some k \<longleftrightarrow> mapping s k = Some v"
    using spec(4) assms(1) by (simp add: pool_inv_def pool_abs_def)
qed

lemma exec_inv:
  "pinv s \<Longrightarrow> pool_exec L ops s = (ks, s') \<Longrightarrow>
   pinv s' \<and> spec_values (abst s') = spec_values (abst s) \<and> capacity s' = capacity s"
proof (induction ops arbitrary: s ks)
  case (Cons op ops)
  show ?case
  proof (cases op)
    case (Get k)
    obtain r s1 where g: "pool_get L k s = (r, s1)" by (cases "pool_get L k s")
    obtain ks1 where "pool_exec L ops s1 = (ks1, s')"
      using Cons.prems(2) Get g by (auto split: prod.splits)
    with Cons.IH get_inv [OF Cons.prems(1) g] get_step(1,2) [OF Cons.prems(1) g]
    show ?thesis by metis
  next
    case (GetReverse v)
    obtain r s1 where g: "pool_get_reverse L v s = (r, s1)" by (cases "pool_get_reverse L v s")
    obtain ks1 where "pool_exec L ops s1 = (ks1, s')"
      using Cons.prems(2) GetReverse g by (auto split: prod.splits)
    with Cons.IH get_reverse_refines(2) [OF Cons.prems(1) g] get_reverse_step(1,2) [OF Cons.prems(1) g]
    show ?thesis by metis
  qed
qed simp

lemma exec_kept:
  "pinv s \<Longrightarrow> pool_exec L ops s = (ks, s') \<Longrightarrow> kept k v T (abst s) \<Longrightarrow> set ks \<subseteq> insert k T \<Longrightarrow>
   finite T \<Longrightarrow> card T < capacity s \<Longrightarrow> kept k v T (abst s')"
proof (induction ops arbitrary: s ks)
  case (Cons op ops)
  have sw: "spec_wf (abst s)" using Cons.prems(1) by (simp add: pool_inv_def)
  show ?case
  proof (cases op)
    case (Get x)
    obtain r s1 where g: "pool_get L x s = (r, s1)" by (cases "pool_get L x s")
    obtain ks1 where ex: "pool_exec L ops s1 = (ks1, s')" and ks: "ks = x # ks1"
      using Cons.prems(2) Get g by (auto split: prod.splits)
    have "kept k v T (abst s1)"
      using kept_get [OF sw Cons.prems(3) _ Cons.prems(5) _ get_refines [OF Cons.prems(1) g]]
        Cons.prems(4,6) ks by (auto simp: capacity_abs)
    then show ?thesis
      using Cons.IH [OF get_inv [OF Cons.prems(1) g] ex] get_step(2) [OF Cons.prems(1) g]
        Cons.prems ks by simp
  next
    case (GetReverse w)
    obtain r s1 where g: "pool_get_reverse L w s = (r, s1)" by (cases "pool_get_reverse L w s")
    obtain ks1 where ex: "pool_exec L ops s1 = (ks1, s')"
      and ks: "ks = (case r of None \<Rightarrow> ks1 | Some x \<Rightarrow> x # ks1)"
      using Cons.prems(2) GetReverse g by (auto split: prod.splits)
    note ref = get_reverse_refines [OF Cons.prems(1) g]
    have "kept k v T (abst s1)"
    proof (cases r)
      case None
      then show ?thesis using ref(1) Cons.prems(3) by (simp add: spec_get_reverse_def split: option.splits)
    next
      case (Some x)
      then have "(w, x) \<in> set (used (abst s))" "abst s1 = (abst s)\<lparr>used := touch w x (used (abst s))\<rparr>"
        using ref(1) by (auto simp: spec_get_reverse_def split: option.splits dest: map_of_SomeD)
      then show ?thesis using kept_touch [OF sw Cons.prems(3)] Cons.prems(4) ks Some by auto
    qed
    then show ?thesis
      using Cons.IH [OF ref(2) ex] get_reverse_step(2) [OF Cons.prems(1) g] Cons.prems ks
      by (auto split: option.splits)
  qed
qed simp

text \<open>
  A name keeps its address while fewer other names are looked up than there are
  addresses.
\<close>

lemma exec_retains:
  assumes "pinv s" and "pool_get L k s = (Some v, s1)" and "pool_exec L ops s1 = (ks, s2)"
    and "card (set ks - {k}) < capacity s"
  shows "fst (pool_get L k s2) = Some v"
proof -
  have inv1: "pinv s1" using assms(1,2) by (rule get_inv)
  have sw: "spec_wf (abst s)" using assms(1) by (simp add: pool_inv_def)
  have hd: "used (abst s1) \<noteq> [] \<and> hd (used (abst s1)) = (v, k)"
    using spec_get_wf(5) [OF sw get_refines [OF assms(1,2)]] by simp
  then have "kept k v (set ks - {k}) (abst s1)"
    by (intro keptI [of _ "[]" _ _ "tl (used (abst s1))"]) (metis append_Nil list.collapse, simp)
  then have "kept k v (set ks - {k}) (abst s2)"
    using exec_kept [OF inv1 assms(3)] get_step(2) [OF assms(1,2)] assms(4) by auto
  then have "mapping s2 k = Some v"
    using kept_member exec_inv [OF inv1 assms(3)] by (fastforce simp: pool_inv_def pool_abs_def)
  then show ?thesis by (simp add: pool_get_def)
qed

lemma capacity_new: "capacity (pool_new L vs) = length vs"
  by (simp add: capacity_def pool_new_def entries_unbounded)

lemma values_new: "spec_values (abst (pool_new L vs)) = set vs"
  by (simp add: abs_new spec_values_def)

lemma mapping_in_values: "pinv s \<Longrightarrow> mapping s k = Some v \<Longrightarrow> v \<in> spec_values (abst s)"
  by (force simp: pool_inv_def spec_values_def pool_abs_def)

lemma gets_refines: "pinv s \<Longrightarrow> pool_gets L ks s = spec_gets ks (abst s)"
proof (induction ks arbitrary: s)
  case (Cons k ks)
  obtain r s' where "pool_get L k s = (r, s')" by (cases "pool_get L k s")
  with Cons get_refines [of s k] get_inv [of s k] show ?case by simp
qed simp

end

section \<open>The two pools of the resolver\<close>

text \<open>What every reachable state of the resolver satisfies.\<close>

definition fake_inv ::
  "('c4 \<Rightarrow> bool) \<Rightarrow> ('c4 \<Rightarrow> (ipv4_addr \<times> string) list) \<Rightarrow> ('c6 \<Rightarrow> bool) \<Rightarrow>
   ('c6 \<Rightarrow> (ipv6_addr \<times> string) list) \<Rightarrow> ipv4_addr list \<Rightarrow> ipv6_addr list \<Rightarrow>
   ('c4, 'c6) fake_dns \<Rightarrow> bool" where
  "fake_inv ok4 e4 ok6 e6 p4 p6 s \<longleftrightarrow>
     pool_inv ok4 e4 (ipv4_mapping s) \<and> pool_inv ok6 e6 (ipv6_mapping s) \<and>
     spec_values (pool_abs e4 (ipv4_mapping s)) = set p4 \<and>
     spec_values (pool_abs e6 (ipv6_mapping s)) = set p6"

locale fake_dns_caches =
  c4: lru_cache "lru4 L" ok4 e4 + c6: lru_cache "lru6 L" ok6 e6
  for L :: "('c4, 'c6) lru_pair" and ok4 e4 ok6 e6 +
  fixes p4 :: "ipv4_addr list" and p6 :: "ipv6_addr list"
  assumes distinct_pools: "distinct p4" "distinct p6"
begin

abbreviation finv :: "('c4, 'c6) fake_dns \<Rightarrow> bool" where
  "finv \<equiv> fake_inv ok4 e4 ok6 e6 p4 p6"

lemma finv_new: "finv (fake_dns_new L p4 p6)"
  using distinct_pools
  by (simp add: fake_inv_def fake_dns_new_def c4.inv_new c6.inv_new c4.values_new c6.values_new)

lemma finv_lookup:
  assumes "finv s"
  shows "finv (snd (fake_lookup L name q s))"
proof -
  obtain r4 m4 r6 m6 where g: "pool_get (lru4 L) name (ipv4_mapping s) = (r4, m4)"
    "pool_get (lru6 L) name (ipv6_mapping s) = (r6, m6)"
    by (cases "pool_get (lru4 L) name (ipv4_mapping s)",
        cases "pool_get (lru6 L) name (ipv6_mapping s)")
  have i: "pool_inv ok4 e4 (ipv4_mapping s)" "pool_inv ok6 e6 (ipv6_mapping s)"
    using assms by (simp_all add: fake_inv_def)
  show ?thesis
    using assms g c4.get_inv [OF i(1) g(1)] c4.get_step(1) [OF i(1) g(1)]
      c6.get_inv [OF i(2) g(2)] c6.get_step(1) [OF i(2) g(2)]
    by (simp add: fake_lookup_def fake_inv_def split: option.split ip_type.split)
qed

lemma finv_ptr:
  assumes "finv s"
  shows "finv (snd (fake_lookup_ptr L addr s))"
proof (cases addr)
  case (V4 a)
  obtain r m where g: "pool_get_reverse (lru4 L) a (ipv4_mapping s) = (r, m)"
    by (cases "pool_get_reverse (lru4 L) a (ipv4_mapping s)")
  have i: "pool_inv ok4 e4 (ipv4_mapping s)" using assms by (simp add: fake_inv_def)
  show ?thesis
    using V4 g assms c4.get_reverse_refines(2) [OF i g] c4.get_reverse_step(1) [OF i g]
    by (simp add: fake_lookup_ptr_def fake_inv_def)
next
  case (V6 a)
  obtain r m where g: "pool_get_reverse (lru6 L) a (ipv6_mapping s) = (r, m)"
    by (cases "pool_get_reverse (lru6 L) a (ipv6_mapping s)")
  have i: "pool_inv ok6 e6 (ipv6_mapping s)" using assms by (simp add: fake_inv_def)
  show ?thesis
    using V6 g assms c6.get_reverse_refines(2) [OF i g] c6.get_reverse_step(1) [OF i g]
    by (simp add: fake_lookup_ptr_def fake_inv_def)
qed

lemma snd_lookup_ipv4: "snd (fake_lookup_ipv4 L name s) = snd (fake_lookup L name Ipv4 s)"
  by (simp add: fake_lookup_ipv4_def split: prod.split)

lemma snd_lookup_ipv6: "snd (fake_lookup_ipv6 L name s) = snd (fake_lookup L name Ipv6 s)"
  by (simp add: fake_lookup_ipv6_def split: prod.split)

lemma reach_finv: "fake_reach L p4 p6 s \<Longrightarrow> finv s"
  by (induction rule: fake_reach.induct)
    (simp_all add: finv_new finv_lookup finv_ptr snd_lookup_ipv4 snd_lookup_ipv6)

lemma lookup_then_ptr:
  assumes "finv s" and "parse_ip_addr name = None" and "p4 \<noteq> []"
    and "fake_lookup_ipv4 L name s = (r, s')"
  obtains a where "r = Some a" and "a \<in> set p4" and "fst (fake_lookup_ptr L (V4 a) s') = Some name"
proof -
  let ?m = "ipv4_mapping s"
  obtain r4 m4 where g: "pool_get (lru4 L) name ?m = (r4, m4)"
    by (cases "pool_get (lru4 L) name ?m")
  have i: "pool_inv ok4 e4 ?m" and vals: "spec_values (pool_abs e4 ?m) = set p4"
    using assms(1) by (simp_all add: fake_inv_def)
  have "c4.capacity ?m \<noteq> 0"
    using vals assms(3) by (auto simp: c4.capacity_abs spec_values_def)
  then obtain a where a: "r4 = Some a" using c4.get_step(3) [OF i g] by auto
  have i': "pool_inv ok4 e4 m4" using i g by (rule c4.get_inv)
  have m: "mapping m4 name = Some a" using c4.get_step(4) [OF i g] a by simp
  obtain k m5 where rev: "pool_get_reverse (lru4 L) a m4 = (k, m5)"
    by (cases "pool_get_reverse (lru4 L) a m4")
  have "k = Some name" using c4.get_reverse_step(3) [OF i' rev] m by simp
  moreover have "r = Some a" "s' = s\<lparr>ipv4_mapping := m4\<rparr>"
    using assms(2,4) g a by (auto simp: fake_lookup_ipv4_def fake_lookup_def)
  moreover have "a \<in> set p4"
    using c4.mapping_in_values [OF i' m] c4.get_step(1) [OF i g] vals by simp
  ultimately show ?thesis using that rev by (simp add: fake_lookup_ptr_def)
qed

end

text \<open>The interface is met by two caches kept as recency lists.\<close>

definition list_lrus ::
  "((ipv4_addr \<times> string) list, (ipv6_addr \<times> string) list) lru_pair" where
  "list_lrus = \<lparr>lru4 = list_lru, lru6 = list_lru\<rparr>"

interpretation list_fake: fake_dns_caches list_lrus
  "\<lambda>c. distinct (map fst c)" "\<lambda>c. c" "\<lambda>c. distinct (map fst c)" "\<lambda>c. c"
  "[Ipv4Addr 10 0 0 1, Ipv4Addr 10 0 0 2]" "[]"
  by (auto simp: fake_dns_caches_def fake_dns_caches_axioms_def list_lrus_def
      intro: list_lru.lru_cache_axioms)

section \<open>Properties\<close>

lemmas pool_eval = pool_get_def pool_new_def pool_get_reverse_def list_lru_def touch_def

text \<open>
  C1: each lookup by name and each reverse lookup of the pool with its hash map and LRU
  cache simulates the abstract machine of free addresses and a recency list, with the
  same result, and keeps the pool's invariant.
\<close>

theorem pool_refines_lru_spec:
  assumes "lru_cache L valid entries" and "pool_inv valid entries s"
  shows "spec_get k (pool_abs entries s) =
      (fst (pool_get L k s), pool_abs entries (snd (pool_get L k s))) \<and>
    spec_get_reverse v (pool_abs entries s) =
      (fst (pool_get_reverse L v s), pool_abs entries (snd (pool_get_reverse L v s))) \<and>
    pool_inv valid entries (snd (pool_get L k s)) \<and>
    pool_inv valid entries (snd (pool_get_reverse L v s))"
  using lru_cache.get_refines [OF assms, of k] lru_cache.get_inv [OF assms, of k]
    lru_cache.get_reverse_refines [OF assms, of v]
  by (metis prod.collapse)

theorem pool_refines_lru_spec_witness:
  "spec_get ''a'' \<lparr>free = [7 :: nat], used = []\<rparr> =
     (Some 7, pool_abs (\<lambda>c. c) (snd (pool_get list_lru ''a'' (pool_new list_lru [7]))))"
proof -
  have "pool_inv (\<lambda>c. distinct (map fst c)) (\<lambda>c. c) (pool_new list_lru [7 :: nat])"
    by (rule list_lru.inv_new) simp
  from pool_refines_lru_spec [OF list_lru.lru_cache_axioms this, of "''a''"]
  show ?thesis by (simp add: pool_abs_def pool_eval)
qed

text \<open>
  C2: after any sequence of lookups from a pool of distinct addresses, an address belongs
  to at most one name, it is an address of the pool, and the reverse lookup of a name's
  address gives that name.
\<close>

theorem pool_addresses_not_shared:
  assumes "lru_cache L valid entries" and "distinct vs"
    and "pool_exec L ops (pool_new L vs) = (ks, s)" and "mapping s k = Some v"
  shows "v \<in> set vs \<and> (mapping s k' = Some v \<longrightarrow> k' = k) \<and>
    fst (pool_get_reverse L v s) = Some k"
proof -
  note inv = lru_cache.inv_new [OF assms(1,2)]
  have s: "pool_inv valid entries s" "spec_values (pool_abs entries s) = set vs"
    using lru_cache.exec_inv [OF assms(1) inv assms(3)] lru_cache.values_new [OF assms(1)] by auto
  have rev: "fst (pool_get_reverse L v s) = Some k' \<longleftrightarrow> mapping s k' = Some v" for k'
    by (rule lru_cache.get_reverse_step(3) [OF assms(1) s(1)]) (rule prod.collapse [symmetric])
  have "v \<in> set vs" using lru_cache.mapping_in_values [OF assms(1) s(1) assms(4)] s(2) by simp
  with rev [of k] rev [of k'] assms(4) show ?thesis by auto
qed

theorem pool_addresses_not_shared_witness:
  "mapping (snd (pool_exec list_lru [Get ''a'', Get ''b''] (pool_new list_lru [7 :: nat]))) ''b'' =
     Some 7 \<and>
   fst (pool_get_reverse list_lru 7
     (snd (pool_exec list_lru [Get ''a'', Get ''b''] (pool_new list_lru [7 :: nat])))) = Some ''b''"
proof -
  let ?r = "pool_exec list_lru [Get ''a'', Get ''b''] (pool_new list_lru [7 :: nat])"
  have m: "mapping (snd ?r) ''b'' = Some 7" by (simp add: pool_eval)
  with pool_addresses_not_shared [OF list_lru.lru_cache_axioms _ prod.collapse [symmetric] m]
  show ?thesis by simp
qed

text \<open>
  C3: a name keeps its address through any sequence of lookups in which fewer other names
  are touched than the pool has addresses.
\<close>

theorem pool_retains_recent_name:
  assumes "lru_cache L valid entries" and "distinct vs"
    and "pool_exec L ops0 (pool_new L vs) = (ks0, s)"
    and "pool_get L k s = (Some v, s1)" and "pool_exec L ops s1 = (ks, s2)"
    and "card (set ks - {k}) < length vs"
  shows "fst (pool_get L k s2) = Some v"
proof -
  note inv = lru_cache.inv_new [OF assms(1,2)]
  have "pool_inv valid entries s \<and> lru_cache.capacity entries s = length vs"
    using lru_cache.exec_inv [OF assms(1) inv assms(3)] lru_cache.capacity_new [OF assms(1)] by simp
  then show ?thesis using lru_cache.exec_retains [OF assms(1) _ assms(4,5)] assms(6) by simp
qed

theorem pool_retains_recent_name_witness:
  "fst (pool_get list_lru ''a'' (snd (pool_exec list_lru [Get ''b'', GetReverse 8]
     (snd (pool_get list_lru ''a'' (pool_new list_lru [7 :: nat, 8])))))) = Some 7"
proof -
  let ?s = "pool_new list_lru [7 :: nat, 8]"
  let ?s1 = "snd (pool_get list_lru ''a'' ?s)"
  let ?r = "pool_exec list_lru [Get ''b'', GetReverse 8] ?s1"
  have 1: "pool_get list_lru ''a'' ?s = (Some 7, ?s1)" by (simp add: pool_eval)
  have 2: "card (set (fst ?r) - {''a''}) < length [7 :: nat, 8]" by (simp add: pool_eval)
  show ?thesis
    using pool_retains_recent_name [OF list_lru.lru_cache_axioms _ pool_exec.simps(1) 1
        prod.collapse [symmetric] 2] by simp
qed

text \<open>
  C4: as many fresh names as there are addresses get the addresses in pool order, and the
  same number of further names get the same addresses again in the same order, the least
  recently used first.
\<close>

theorem pool_evicts_in_order:
  assumes "lru_cache L valid entries" and "distinct vs" and "distinct (ns @ ms)"
    and "length ns = length vs" and "length ms = length vs"
  shows "pool_gets L (ns @ ms) (pool_new L vs) = map Some (vs @ vs)"
proof -
  have "pool_gets L (ns @ ms) (pool_new L vs) = spec_gets (ns @ ms) \<lparr>free = vs, used = []\<rparr>"
    using lru_cache.gets_refines [OF assms(1) lru_cache.inv_new [OF assms(1,2)]]
      lru_cache.abs_new [OF assms(1)] by simp
  also have "\<dots> = map Some vs @ spec_gets ms \<lparr>free = [], used = [] @ rev (zip vs ns)\<rparr>"
    using spec_gets_fresh [of ns vs "[]" ms] assms by simp
  also have "spec_gets ms \<lparr>free = [], used = [] @ rev (zip vs ns)\<rparr> = map Some vs"
    using assms by (intro spec_gets_evict) auto
  finally show ?thesis by simp
qed

theorem pool_evicts_in_order_witness:
  "pool_gets list_lru [''a'', ''b'', ''c'', ''d''] (pool_new list_lru [7 :: nat, 8]) =
     [Some 7, Some 8, Some 7, Some 8]"
  using pool_evicts_in_order [OF list_lru.lru_cache_axioms, of "[7 :: nat, 8]" "[''a'', ''b'']"
      "[''c'', ''d'']"] by simp

text \<open>
  C20: in every reachable state of the resolver, a name that is not an IP address gets an
  address of the IPv4 pool whenever that pool is not empty, the script sees the text of
  that address, and the reverse lookup of the address gives the name back.
\<close>

theorem fake_dns_lookup_then_ptr:
  assumes "fake_dns_caches L ok4 e4 ok6 e6 p4 p6" and "fake_reach L p4 p6 s"
    and "parse_ip_addr name = None" and "p4 \<noteq> []"
  shows "\<exists>a. fst (fake_resolver_lookup_ipv4 L name s) = Inr (show_ipv4 a) \<and> a \<in> set p4 \<and>
    fst (fake_lookup_ptr L (V4 a) (snd (fake_resolver_lookup_ipv4 L name s))) = Some name"
proof -
  obtain r s' where l: "fake_lookup_ipv4 L name s = (r, s')" by (cases "fake_lookup_ipv4 L name s")
  have "fake_inv ok4 e4 ok6 e6 p4 p6 s"
    using assms(1,2) by (rule fake_dns_caches.reach_finv)
  from fake_dns_caches.lookup_then_ptr [OF assms(1) this assms(3,4) l] obtain a where
    "r = Some a" "a \<in> set p4" "fst (fake_lookup_ptr L (V4 a) s') = Some name" by blast
  then show ?thesis using l by (auto simp: fake_resolver_lookup_ipv4_def)
qed

theorem fake_dns_lookup_then_ptr_witness:
  "\<exists>a. fst (fake_resolver_lookup_ipv4 list_lrus ''x.y''
      (fake_dns_new list_lrus [Ipv4Addr 10 0 0 1, Ipv4Addr 10 0 0 2] [])) = Inr (show_ipv4 a) \<and>
    a \<in> {Ipv4Addr 10 0 0 1, Ipv4Addr 10 0 0 2}"
proof -
  have "parse_ip_addr ''x.y'' = None"
    by (rule parse_ip_none) (simp_all add: to_digit_def Let_def)
  from fake_dns_lookup_then_ptr [OF list_fake.fake_dns_caches_axioms fake_reach.start this]
  show ?thesis by auto
qed

text \<open>
  A name that is itself an IP address is answered with that address, or not at all
  when it is of the other family, and no address of the pools is used.
\<close>

theorem fake_dns_ip_literals:
  "fake_lookup_ipv4 L (show_ipv4 a) s = (Some a, s) \<and>
   fake_lookup_ipv6 L (show_ipv6 b) s = (Some b, s) \<and>
   fake_lookup_ipv4 L (show_ipv6 b) s = (None, s) \<and>
   fake_lookup_ipv6 L (show_ipv4 a) s = (None, s)"
  using parse_ip_show [of "V4 a"] parse_ip_show [of "V6 b"]
  by (simp add: fake_lookup_ipv4_def fake_lookup_ipv6_def fake_lookup_def)

end
