(* ===== verification/Repository_Tests.thy ===== *)
theory Repository_Tests
  imports Endpoint Fake_Dns
begin

text \<open>
  The unit tests of the repository that run on its own code only, as executable functions
  over the model: an assertion that fails, or an \<^verbatim>\<open>unwrap\<close> of nothing, is the result
  \<open>False\<close>.  They are the tests of \<^verbatim>\<open>core/endpoint.rs\<close> and of \<^verbatim>\<open>core/tun/resolver.rs\<close>.  That they
  pass ties the model to what the program's authors checked of the program; the test of the
  address pool passes for every LRU cache and every list of distinct addresses, not only for
  the network of the test.
\<close>

section \<open>Definitions\<close>

definition test_parse_from_str :: bool where
  "test_parse_from_str \<longleftrightarrow>
     \<not> isl (endpoint_from_str ''127.0.0.1:89'') \<and>
     isl (endpoint_from_str ''127.0.0.1'') \<and>
     isl (endpoint_from_str ''google.com'') \<and>
     \<not> isl (endpoint_from_str ''google.com:443'') \<and>
     \<not> isl (endpoint_from_str ''[fe::1]:443'')"

definition test_ip_for_ip_address :: "('c4, 'c6) lru_pair \<Rightarrow> bool" where
  "test_ip_for_ip_address L =
     (let resolver = fake_dns_new L [] [];
          (r4, resolver) = fake_lookup_ipv4 L ''10.0.0.1'' resolver;
          (r6, resolver) = fake_lookup_ipv6 L ''2001:db8::1'' resolver
      in map_option V4 r4 = parse_ip_addr ''10.0.0.1'' \<and> r4 \<noteq> None \<and>
         map_option V6 r6 = parse_ip_addr ''2001:db8::1'' \<and> r6 \<noteq> None)"

text \<open>
  The two loops of the test of the pool.  The first collects the addresses, in a set and in a
  vector that have the same elements; the second compares with the vector.
\<close>

fun first_loop ::
  "('c4, 'c6) lru_pair \<Rightarrow> string list \<Rightarrow> ipv4_addr list \<Rightarrow> ('c4, 'c6) fake_dns \<Rightarrow>
   (ipv4_addr list \<times> ('c4, 'c6) fake_dns) option" where
  "first_loop L [] addrs s = Some (addrs, s)"
| "first_loop L (name # names) addrs s =
     (case fake_lookup_ipv4 L name s of
        (None, _) \<Rightarrow> None
      | (Some ip, s1) \<Rightarrow>
          (case fake_lookup_ptr L (V4 ip) s1 of
             (r, s2) \<Rightarrow> if r = Some name \<and> ip \<notin> set addrs then first_loop L names (addrs @ [ip]) s2 else None))"

fun second_loop ::
  "('c4, 'c6) lru_pair \<Rightarrow> string list \<Rightarrow> ipv4_addr list \<Rightarrow> ('c4, 'c6) fake_dns \<Rightarrow> bool" where
  "second_loop L [] addrs s \<longleftrightarrow> True"
| "second_loop L (name # names) [] s \<longleftrightarrow> False"
| "second_loop L (name # names) (addr # addrs) s \<longleftrightarrow>
     (case fake_lookup_ipv4 L (name @ ''.new'') s of
        (None, _) \<Rightarrow> False
      | (Some ip, s1) \<Rightarrow>
          (case fake_lookup_ptr L (V4 ip) s1 of
             (r, s2) \<Rightarrow> ip = addr \<and> r = Some (name @ ''.new'') \<and> second_loop L names addrs s2))"

text \<open>The numbers below the size of the network, as text.\<close>

definition test_names :: "nat \<Rightarrow> string list" where
  "test_names size' = map (show_radix 10) [0..<size']"

definition test_pool_with_bidirectional_mapping :: "('c4, 'c6) lru_pair \<Rightarrow> ipv4_addr list \<Rightarrow> bool" where
  "test_pool_with_bidirectional_mapping L network =
     (let names = test_names (length network)
      in case first_loop L names [] (fake_dns_new L network []) of
           None \<Rightarrow> False
         | Some (addrs, resolver) \<Rightarrow> second_loop L names addrs resolver)"

section \<open>One round of the loops\<close>

lemma spec_reverse_after_get:
  assumes "spec_wf a" and "spec_get k a = (Some v, a')"
  shows "spec_get_reverse v a' = (Some k, a')"
proof -
  obtain U where U: "used a' = (v, k) # U" using spec_get_wf(5) [OF assms, of v] by (cases "used a'") auto
  moreover have "v \<notin> fst ` set U" using spec_get_wf(1) [OF assms] U by (auto simp: spec_wf_def)
  ultimately have "touch v k (used a') = used a'" by (simp add: touch_def filter_fst_id)
  with U show ?thesis by (simp add: spec_get_reverse_def)
qed

context fake_dns_caches
begin

text \<open>What a round does is what the abstract pool says, and the reverse lookup changes nothing of it.\<close>

lemma round_spec:
  assumes "finv s" and "parse_ip_addr name = None"
    and "spec_get name (pool_abs e4 (ipv4_mapping s)) = (Some ip, a)"
  obtains s1 s2 where "fake_lookup_ipv4 L name s = (Some ip, s1)"
    and "fake_lookup_ptr L (V4 ip) s1 = (Some name, s2)"
    and "pool_abs e4 (ipv4_mapping s2) = a" and "finv s2"
proof -
  let ?m = "ipv4_mapping s"
  have i: "pool_inv ok4 e4 ?m" using assms(1) by (simp add: fake_inv_def)
  obtain r m1 where g: "pool_get (lru4 L) name ?m = (r, m1)" by (cases "pool_get (lru4 L) name ?m")
  have r: "r = Some ip" "pool_abs e4 m1 = a" using c4.get_refines [OF i g] assms(3) by auto
  have i1: "pool_inv ok4 e4 m1" using i g by (rule c4.get_inv)
  obtain k m2 where v: "pool_get_reverse (lru4 L) ip m1 = (k, m2)" by (cases "pool_get_reverse (lru4 L) ip m1")
  have "spec_get_reverse ip a = (Some name, a)"
    using i assms(3) by (intro spec_reverse_after_get) (simp_all add: pool_inv_def)
  then have k: "k = Some name" "pool_abs e4 m2 = a" using c4.get_reverse_refines(1) [OF i1 v] r(2) by auto
  have 1: "fake_lookup_ipv4 L name s = (Some ip, s\<lparr>ipv4_mapping := m1\<rparr>)"
    using g r assms(2) by (simp add: fake_lookup_ipv4_def fake_lookup_def)
  have 2: "fake_lookup_ptr L (V4 ip) (s\<lparr>ipv4_mapping := m1\<rparr>) = (Some name, s\<lparr>ipv4_mapping := m2\<rparr>)"
    using v k by (simp add: fake_lookup_ptr_def)
  have "finv (s\<lparr>ipv4_mapping := m1\<rparr>)"
    using finv_lookup [OF assms(1), of name Ipv4] snd_lookup_ipv4 [of name s] 1 by simp
  from finv_ptr [OF this, of "V4 ip"] 2 have "finv (s\<lparr>ipv4_mapping := m2\<rparr>)" by simp
  with that [OF 1 2] k show ?thesis by simp
qed

lemma first_loop_spec:
  assumes "finv s" and "pool_abs e4 (ipv4_mapping s) = \<lparr>free = vs, used = U\<rparr>"
    and "length ns = length vs" and "distinct ns" and "set ns \<inter> snd ` set U = {}"
    and "\<forall>n \<in> set ns. parse_ip_addr n = None" and "distinct (addrs @ vs)"
  shows "\<exists>s'. first_loop L ns addrs s = Some (addrs @ vs, s') \<and> finv s' \<and>
    pool_abs e4 (ipv4_mapping s') = \<lparr>free = [], used = rev (zip vs ns) @ U\<rparr>"
  using assms
proof (induction ns arbitrary: s vs U addrs)
  case (Cons n ns)
  then obtain v vs' where v: "vs = v # vs'" by (cases vs) auto
  have "spec_get n (pool_abs e4 (ipv4_mapping s)) = (Some v, \<lparr>free = vs', used = (v, n) # U\<rparr>)"
    unfolding Cons.prems(2) v by (rule spec_get_fresh) (use Cons.prems(5) in auto)
  from round_spec [OF Cons.prems(1) _ this] obtain s1 s2 where
    l: "fake_lookup_ipv4 L n s = (Some v, s1)" "fake_lookup_ptr L (V4 v) s1 = (Some n, s2)"
    and s2: "pool_abs e4 (ipv4_mapping s2) = \<lparr>free = vs', used = (v, n) # U\<rparr>" "finv s2"
    using Cons.prems(6) by auto
  have "\<exists>s'. first_loop L ns (addrs @ [v]) s2 = Some ((addrs @ [v]) @ vs', s') \<and> finv s' \<and>
      pool_abs e4 (ipv4_mapping s') = \<lparr>free = [], used = rev (zip vs' ns) @ (v, n) # U\<rparr>"
    by (rule Cons.IH [OF s2(2,1)]) (use Cons.prems v in auto)
  then show ?case using l v Cons.prems(7) by auto
qed simp

lemma second_loop_spec:
  assumes "finv s" and "pool_abs e4 (ipv4_mapping s) = \<lparr>free = [], used = U @ rev (zip vs ms)\<rparr>"
    and "length ns = length vs" and "length ms = length vs" and "distinct ns"
    and "(\<lambda>n. n @ ''.new'') ` set ns \<inter> (snd ` set U \<union> set ms) = {}"
    and "\<forall>n \<in> set ns. parse_ip_addr (n @ ''.new'') = None"
  shows "second_loop L ns vs s"
  using assms
proof (induction ns arbitrary: s vs U ms)
  case (Cons n ns)
  then obtain v vs' m ms' where v: "vs = v # vs'" "ms = m # ms'" by (cases vs; cases ms) auto
  have "spec_get (n @ ''.new'') (pool_abs e4 (ipv4_mapping s)) =
      (Some v, \<lparr>free = [], used = ((v, n @ ''.new'') # U) @ rev (zip vs' ms')\<rparr>)"
    unfolding Cons.prems(2) v by (rule spec_get_evict) (use Cons.prems(6) v in auto)
  from round_spec [OF Cons.prems(1) _ this] obtain s1 s2 where
    l: "fake_lookup_ipv4 L (n @ ''.new'') s = (Some v, s1)"
      "fake_lookup_ptr L (V4 v) s1 = (Some (n @ ''.new''), s2)"
    and s2: "pool_abs e4 (ipv4_mapping s2) = \<lparr>free = [], used = ((v, n @ ''.new'') # U) @ rev (zip vs' ms')\<rparr>"
      "finv s2"
    using Cons.prems(7) by auto
  have "second_loop L ns vs' s2"
    by (rule Cons.IH [OF s2(2,1)]) (use Cons.prems v in auto)
  with l v show ?case by simp
qed simp

lemma loops_pass:
  assumes "length ns = length p4" and "distinct ns" and "(\<lambda>n. n @ ''.new'') ` set ns \<inter> set ns = {}"
    and "\<forall>n \<in> set ns. parse_ip_addr n = None \<and> parse_ip_addr (n @ ''.new'') = None"
  shows "\<exists>s'. first_loop L ns [] (fake_dns_new L p4 p6) = Some (p4, s') \<and> second_loop L ns p4 s'"
proof -
  have abs: "pool_abs e4 (ipv4_mapping (fake_dns_new L p4 p6)) = \<lparr>free = p4, used = []\<rparr>"
    by (simp add: fake_dns_new_def c4.abs_new)
  obtain s' where s': "first_loop L ns [] (fake_dns_new L p4 p6) = Some (p4, s')" "finv s'"
    "pool_abs e4 (ipv4_mapping s') = \<lparr>free = [], used = [] @ rev (zip p4 ns)\<rparr>"
    using first_loop_spec [OF finv_new abs, of ns "[]"] assms distinct_pools(1) by auto
  moreover have "second_loop L ns p4 s'"
    by (rule second_loop_spec [OF s'(2,3)]) (use assms in auto)
  ultimately show ?thesis by blast
qed

end

section \<open>The names of the test\<close>

text \<open>The digits at the front of a text are determined by the text.\<close>

lemma digits_front:
  assumes "h @ r = u @ s" and "\<forall>c \<in> set h. to_digit n c \<noteq> None" and "stops n r"
    and "\<forall>c \<in> set u. to_digit n c \<noteq> None" and "stops n s"
  shows "u = h \<and> s = r"
proof -
  have "takeWhile (\<lambda>c. to_digit n c \<noteq> None) (x @ y) = x"
    if "\<forall>c \<in> set x. to_digit n c \<noteq> None" "stops n y" for x y
    using that by (cases y) (simp_all add: takeWhile_append)
  from this [OF assms(2,3)] this [OF assms(4,5)] assms(1) show ?thesis by auto
qed

lemma read_group_splits:
  "read_number 16 (Some 4) True 65535 s = Some (v, s') \<Longrightarrow>
   \<exists>u. s = u @ s' \<and> (\<forall>c \<in> set u. to_digit 16 c \<noteq> None) \<and> stops 16 s'"
  unfolding read_number_def by (auto split: option.splits if_splits dest!: number_loop_splits)

text \<open>A number, alone or before a dot and a letter, is no address.\<close>

lemma parse_ip_number:
  assumes dec: "\<forall>c \<in> set h. to_digit 10 c \<noteq> None"
    and r: "r = [] \<or> (\<exists>r'. r = CHR ''.'' # r' \<and> stops 10 r')"
  shows "parse_ip_addr (h @ r) = None"
proof -
  have stop: "stops 16 r" "stops 10 r" using r by auto
  have hex: "\<forall>c \<in> set h. to_digit 16 c \<noteq> None" using dec to_digit_mono by blast
  have v4: "read_ipv4_addr (h @ r) = None"
  proof (cases "read_octet (h @ r)")
    case (Some p)
    obtain v s' where p: "p = (v, s')" by (cases p)
    with read_octet_splits Some obtain u where
      "h @ r = u @ s'" "\<forall>c \<in> set u. to_digit 10 c \<noteq> None" "stops 10 s'" by blast
    with digits_front [OF _ dec stop(2)] have "s' = r" by blast
    with Some p r show ?thesis by (auto simp: read_ipv4_addr_def read_octet_def)
  qed (simp add: read_ipv4_addr_def)
  have colon: "read_given_char (CHR '':'') r = None" "read_given_char (CHR '':'') (h @ r) = None"
    using r dec by (cases h; auto)+
  have none: "read_groups 1 8 r = (([], False), r)"
    using r by (subst read_groups.simps) (auto simp: read_separator_def)
  have "read_groups 0 8 (h @ r) = (([], False), h @ r) \<or> (\<exists>g. read_groups 0 8 (h @ r) = (([g], False), r))"
  proof (cases "read_number 16 (Some 4) True 65535 (h @ r)")
    case None
    then show ?thesis using v4 by (subst read_groups.simps) simp
  next
    case (Some p)
    obtain g s' where p: "p = (g, s')" by (cases p)
    with read_group_splits Some obtain u where
      "h @ r = u @ s'" "\<forall>c \<in> set u. to_digit 16 c \<noteq> None" "stops 16 s'" by blast
    with digits_front [OF _ hex stop(1)] have "s' = r" by blast
    then have "read_groups 0 8 (h @ r) = (([of_nat g], False), r)"
      using Some p v4 none by (subst read_groups.simps) simp
    then show ?thesis by blast
  qed
  with colon have "read_ipv6_addr (h @ r) = None" by (auto simp: read_ipv6_addr_def)
  with v4 show ?thesis by (simp add: parse_ip_addr_def parse_with_def read_ip_addr_def)
qed

lemma show_radix_10_dec: "c \<in> set (show_radix 10 n) \<Longrightarrow> to_digit 10 c \<noteq> None"
  using digits_of_less [of 10] by (auto simp: show_radix_def)

lemma show_radix_10_inj: "show_radix 10 m = show_radix 10 n \<Longrightarrow> m = n"
proof -
  assume eq: "show_radix 10 m = show_radix 10 n"
  have "read_number 10 None True (max m n) (show_radix 10 k @ []) = Some (k, [])" if "k \<le> max m n" for k
    using that by (intro read_number_show) auto
  from this [of m] this [of n] eq show "m = n" by simp
qed

lemma test_names_ok:
  "length (test_names n) = n" "distinct (test_names n)"
  "(\<lambda>n. n @ ''.new'') ` set (test_names n) \<inter> set (test_names n) = {}"
  "\<forall>s \<in> set (test_names n). parse_ip_addr s = None \<and> parse_ip_addr (s @ ''.new'') = None"
proof -
  show "length (test_names n) = n" by (simp add: test_names_def)
  show "distinct (test_names n)" by (auto simp: test_names_def distinct_map inj_on_def dest: show_radix_10_inj)
  have "CHR ''.'' \<notin> set (show_radix 10 k)" for k using show_radix_10_dec [of "CHR ''.''" k] by auto
  then have no_dot: "CHR ''.'' \<notin> set s" if "s \<in> set (test_names n)" for s using that by (auto simp: test_names_def)
  show "(\<lambda>n. n @ ''.new'') ` set (test_names n) \<inter> set (test_names n) = {}"
    using no_dot by fastforce
  have "stops 10 ''new''" by (simp add: to_digit_def Let_def)
  then show "\<forall>s \<in> set (test_names n). parse_ip_addr s = None \<and> parse_ip_addr (s @ ''.new'') = None"
    using parse_ip_number [of "show_radix 10 _" "[]"] parse_ip_number [of "show_radix 10 _" "''.new''"]
      show_radix_10_dec by (auto simp: test_names_def)
qed

section \<open>The tests pass\<close>

lemma show_numbers:
  "show_radix 10 0 = ''0''" "show_radix 10 1 = ''1''" "show_radix 10 10 = ''10''" "show_radix 10 127 = ''127''"
  "show_radix 10 89 = ''89''" "show_radix 10 443 = ''443''" "show_radix 16 1 = ''1''"
  "show_radix 16 254 = ''fe''" "show_radix 16 8193 = ''2001''" "show_radix 16 3512 = ''db8''"
  by (simp_all add: show_radix_def digits_of.simps digit_char_def char_of_def bit_iff_odd)

lemma show_addresses:
  "show_ipv4 (Ipv4Addr 127 0 0 1) = ''127.0.0.1''" "show_ipv4 (Ipv4Addr 10 0 0 1) = ''10.0.0.1''"
  "show_ipv6 (Ipv6Addr 8193 3512 0 0 0 0 0 1) = ''2001:db8::1''" "show_ipv6 (Ipv6Addr 254 0 0 0 0 0 0 1) = ''fe::1''"
  by (simp_all add: show_ipv4_def show_ipv6_def to_ipv4_mapped_def colon_groups_def show_numbers [simplified])

lemma parse_from_str_passes: test_parse_from_str
proof -
  let ?e = "\<lambda>a p. Addr (socket_addr_new a p)"
  have ok: "endpoint_canonical (?e a p)" for a p by (simp add: endpoint_canonical_def)
  have "parse_ip_addr ''google.com'' = None" by (rule parse_ip_none) (simp_all add: to_digit_def)
  then have "endpoint_canonical (Domain ''google.com'' 443)" by (simp add: endpoint_canonical_def)
  from endpoint_roundtrip [OF this] endpoint_roundtrip [OF ok, of "V4 (Ipv4Addr 127 0 0 1)" 89]
    endpoint_roundtrip [OF ok, of "V6 (Ipv6Addr 254 0 0 0 0 0 0 1)" 443]
  have "endpoint_from_str ''google.com:443'' = Inr (Domain ''google.com'' 443)"
    "endpoint_from_str ''127.0.0.1:89'' = Inr (?e (V4 (Ipv4Addr 127 0 0 1)) 89)"
    "endpoint_from_str ''[fe::1]:443'' = Inr (?e (V6 (Ipv6Addr 254 0 0 0 0 0 0 1)) 443)"
    by (simp_all add: show_socket_addr_def show_addresses show_numbers [simplified])
  moreover have "endpoint_from_str ''127.0.0.1'' = Inl PortMissing" "endpoint_from_str ''google.com'' = Inl PortMissing"
    by (simp_all add: endpoint_from_str_errors)
  ultimately show ?thesis by (simp add: test_parse_from_str_def)
qed

lemma ip_for_ip_address_passes: "test_ip_for_ip_address L"
proof -
  have "parse_ip_addr ''10.0.0.1'' = Some (V4 (Ipv4Addr 10 0 0 1))"
    "parse_ip_addr ''2001:db8::1'' = Some (V6 (Ipv6Addr 8193 3512 0 0 0 0 0 1))"
    using parse_ip_show [of "V4 (Ipv4Addr 10 0 0 1)"] parse_ip_show [of "V6 (Ipv6Addr 8193 3512 0 0 0 0 0 1)"]
    by (simp_all add: show_addresses)
  then show ?thesis
    by (simp add: test_ip_for_ip_address_def fake_lookup_ipv4_def fake_lookup_ipv6_def fake_lookup_def)
qed

text \<open>
  The repository's test of the fake-IP resolver passes, for any LRU caches and any list of
  distinct addresses in the place of its network: every name gets an address that is not in
  use, the reverse lookup gives the name back, and as many further names get the same addresses
  in the same order, with the reverse lookups of the test in between.
\<close>

theorem bidirectional_mapping_passes:
  assumes "lru_cache (lru4 L) ok4 e4" and "lru_cache (lru6 L) ok6 e6" and "distinct network"
  shows "test_pool_with_bidirectional_mapping L network"
proof -
  have "fake_dns_caches L ok4 e4 ok6 e6 network []"
    using assms by (simp add: fake_dns_caches_def fake_dns_caches_axioms_def)
  from fake_dns_caches.loops_pass [OF this test_names_ok]
  show ?thesis by (auto simp: test_pool_with_bidirectional_mapping_def Let_def)
qed

theorem bidirectional_mapping_passes_witness:
  "test_pool_with_bidirectional_mapping list_lrus [Ipv4Addr 10 0 0 0, Ipv4Addr 10 0 0 1, Ipv4Addr 10 0 0 2]"
  using bidirectional_mapping_passes [OF list_fake.c4.lru_cache_axioms list_fake.c6.lru_cache_axioms] by simp

end
