(* ===== verification/Script_Tests.thy ===== *)
theory Script_Tests
  imports Script_Api Repository_Tests
begin

text \<open>
  The unit tests of \<^verbatim>\<open>ConnectRequest\<close> in \<^verbatim>\<open>config/engine/connect.rs\<close>.  They run a script with the
  helper of \<^verbatim>\<open>config/engine/testing.rs\<close>: its module is built and installed, the script is compiled,
  called with a request and calls one of its methods.  The script language is a parameter; that
  it computes what a script of one call says, in a context that offers the method, is the locale
  \<open>runs_script\<close>.
\<close>

section \<open>Definitions\<close>

text \<open>The values the tests convert the result of a script to.\<close>

datatype test_value = U16Value u16 | StringValue string | BoolValue bool

text \<open>The methods of a request, by the name they are registered with.\<close>

definition request_methods :: "(string \<times> (connect_request \<Rightarrow> test_value)) list" where
  "request_methods =
     [(''port'', \<lambda>r. U16Value (cr_port r)), (''hostname'', \<lambda>r. StringValue (cr_hostname r)),
      (''endpoint'', \<lambda>r. StringValue (cr_endpoint_string r)), (''hostname_is_ip'', \<lambda>r. BoolValue (cr_hostname_is_ip r))]"

definition method_call :: "string \<Rightarrow> string" where
  "method_call method_name = ''Ok(value.'' @ method_name @ ''())''"

definition test_request ::
  "('e, 'm, 'c, 's, 'd, 'rt, 'u) rune_lib \<Rightarrow> ('rt \<Rightarrow> 'u \<Rightarrow> connect_request \<Rightarrow> 'e + ('e + ('e + 'v))) \<Rightarrow>
   string \<Rightarrow> endpoint \<Rightarrow> 'e + 'v" where
  "test_request R call method_name e =
     (let code = method_call method_name; request = connect_request_new e
      in res_bind (new_module R connect_items) (\<lambda>m. testing_run R call [m] code request))"

text \<open>A test: the text is parsed, and the value the script returns is compared.\<close>

definition test_method ::
  "('e, 'm, 'c, 's, 'd, 'rt, 'u) rune_lib \<Rightarrow> ('rt \<Rightarrow> 'u \<Rightarrow> connect_request \<Rightarrow> 'e + ('e + ('e + test_value))) \<Rightarrow>
   string \<Rightarrow> string \<times> test_value \<Rightarrow> bool" where
  "test_method R call method_name = (\<lambda>(endpoint, expected).
     case endpoint_from_str endpoint of
       Inl _ \<Rightarrow> False
     | Inr request \<Rightarrow>
         (case test_request R call method_name request of Inl _ \<Rightarrow> False | Inr v \<Rightarrow> v = expected))"

definition test_connect_request_port where
  "test_connect_request_port R call = list_all (test_method R call ''port'')
     [(''127.0.0.1:80'', U16Value 80), (''[::1]:80'', U16Value 80), (''example.com:80'', U16Value 80)]"

definition test_connect_request_hostname where
  "test_connect_request_hostname R call = list_all (test_method R call ''hostname'')
     [(''127.0.0.1:80'', StringValue ''127.0.0.1''), (''[::1]:80'', StringValue ''::1''),
      (''example.com:80'', StringValue ''example.com'')]"

definition test_connect_request_endpoint where
  "test_connect_request_endpoint R call = list_all (test_method R call ''endpoint'')
     [(''127.0.0.1:80'', StringValue ''127.0.0.1:80''), (''[::1]:80'', StringValue ''[::1]:80''),
      (''example.com:80'', StringValue ''example.com:80'')]"

definition test_connect_request_host_is_ip where
  "test_connect_request_host_is_ip R call = list_all (test_method R call ''hostname_is_ip'')
     [(''127.0.0.1:80'', BoolValue True), (''[::1]:80'', BoolValue True), (''example.com:80'', BoolValue False)]"

section \<open>Scripts that run\<close>

text \<open>
  A script of this text computes \<open>f\<close> of its argument, in every context that offers the names
  it uses.
\<close>

locale runs_script = registry R items offered
  for R :: "('e, 'm, 'c, 's, 'd, 'rt, 'u) rune_lib" and items offered +
  fixes call :: "'rt \<Rightarrow> 'u \<Rightarrow> 'a \<Rightarrow> 'e + ('e + ('e + 'v))"
    and code :: string and names :: "module_item set" and f :: "'a \<Rightarrow> 'e + 'v"
  assumes starts: "\<exists>c. rn_default R = Inr c \<and> offered c \<inter> set (concat engine_modules) = {}"
    and computes: "names \<subseteq> offered c \<Longrightarrow>
      \<exists>src u rt. rn_source R (test_source code) = Inr src \<and> rn_build R c src = (None, Inr u) \<and>
        rn_runtime R c = Inr rt \<and> call rt u arg = Inr (Inr (f arg))"
begin

lemma runs_with_module:
  assumes "is \<in> set engine_modules" and "names \<subseteq> set is"
  shows "res_bind (new_module R is) (\<lambda>m. testing_run R call [m] code arg) = f arg"
proof -
  obtain c where c: "rn_default R = Inr c" "offered c \<inter> set (concat engine_modules) = {}" using starts by blast
  have "distinct is" using assms(1) engine_modules_distinct by (simp add: distinct_concat_iff)
  then obtain m where m: "new_module R is = Inr m" "items m = is" using new_module_ok by blast
  have "\<forall>i \<in> set (items m). has_type (set (items m) \<union> offered c) i"
    using assms(1) engine_modules_typed has_type_mono unfolding m(2) by (fastforce simp: list_all_iff)
  with install [of m c] obtain d where d: "rn_install R m c = Inr d" "offered d = offered c \<union> set is"
    using c(2) assms(1) m(2) by auto
  with computes [of d arg] assms(2) obtain src u rt where
    "rn_source R (test_source code) = Inr src" "rn_build R d src = (None, Inr u)"
    "rn_runtime R d = Inr rt" "call rt u arg = Inr (Inr (f arg))" by blast
  with c(1) m(1) d(1) show ?thesis by (simp add: testing_run_def)
qed

end

text \<open>The four scripts of the tests, each with the method it calls.\<close>

definition runs_methods ::
  "('e, 'm, 'c, 's, 'd, 'rt, 'u) rune_lib \<Rightarrow> ('m \<Rightarrow> module_item list) \<Rightarrow> ('c \<Rightarrow> module_item set) \<Rightarrow>
   ('rt \<Rightarrow> 'u \<Rightarrow> connect_request \<Rightarrow> 'e + ('e + ('e + test_value))) \<Rightarrow> bool" where
  "runs_methods R items offered call \<longleftrightarrow>
     (\<forall>(n, f) \<in> set request_methods.
        runs_script R items offered call (method_call n) {AssocItem ''ConnectRequest'' n} (\<lambda>r. Inr (f r)))"

lemma test_request_value:
  assumes "runs_methods R items offered call" and "(n, f) \<in> set request_methods"
  shows "test_request R call n e = Inr (f (connect_request_new e))"
proof -
  have r: "runs_script R items offered call (method_call n) {AssocItem ''ConnectRequest'' n} (\<lambda>r. Inr (f r))"
    using assms by (auto simp: runs_methods_def)
  have "{AssocItem ''ConnectRequest'' n} \<subseteq> set connect_items"
    using assms(2) by (auto simp: request_methods_def connect_items_def)
  from runs_script.runs_with_module [OF r _ this] show ?thesis
    by (simp add: test_request_def engine_modules_def Let_def)
qed

section \<open>The tests pass\<close>

lemma example_com: "parse_ip_addr ''example.com'' = None"
proof -
  let ?s = "''xample.com''"
  have stop: "stops 16 ?s" "stops 10 (CHR ''e'' # ?s)" by (simp_all add: to_digit_def)
  have v4: "read_ipv4_addr (CHR ''e'' # ?s) = None" using stop(2) by (rule read_ipv4_stop)
  have g: "read_number 16 (Some 4) True 65535 (CHR ''e'' # ?s) = Some (14, ?s)"
    by (simp add: read_number_def to_digit_def)
  have n: "read_groups 1 8 ?s = (([], False), ?s)" by (subst read_groups.simps) (simp add: read_separator_def)
  have "read_groups 0 8 (CHR ''e'' # ?s) = (([14], False), ?s)"
    using v4 g n by (subst read_groups.simps) simp
  then have "read_ipv6_addr (CHR ''e'' # ?s) = None" by (simp add: read_ipv6_addr_def)
  with v4 show ?thesis by (simp add: parse_ip_addr_def parse_with_def read_ip_addr_def)
qed

lemma show_test_parts: "show_radix 10 80 = ''80''" "show_ipv6 (Ipv6Addr 0 0 0 0 0 0 0 1) = ''::1''"
  by code_simp+

lemma test_endpoints:
  "endpoint_from_str ''127.0.0.1:80'' = Inr (Addr (SocketV4 (Ipv4Addr 127 0 0 1) 80))"
  "endpoint_from_str ''[::1]:80'' = Inr (Addr (socket_addr_new (V6 (Ipv6Addr 0 0 0 0 0 0 0 1)) 80))"
  "endpoint_from_str ''example.com:80'' = Inr (Domain ''example.com'' 80)"
proof -
  have c: "endpoint_canonical (Addr (socket_addr_new a p))" for a p by (simp add: endpoint_canonical_def)
  have d: "endpoint_canonical (Domain ''example.com'' 80)" by (simp add: endpoint_canonical_def example_com)
  note parts = show_socket_addr_def show_addresses show_test_parts
  show "endpoint_from_str ''127.0.0.1:80'' = Inr (Addr (SocketV4 (Ipv4Addr 127 0 0 1) 80))"
    using endpoint_roundtrip [OF c, of "V4 (Ipv4Addr 127 0 0 1)" 80] by (simp add: parts)
  show "endpoint_from_str ''[::1]:80'' = Inr (Addr (socket_addr_new (V6 (Ipv6Addr 0 0 0 0 0 0 0 1)) 80))"
    using endpoint_roundtrip [OF c, of "V6 (Ipv6Addr 0 0 0 0 0 0 0 1)" 80] by (simp add: parts)
  show "endpoint_from_str ''example.com:80'' = Inr (Domain ''example.com'' 80)"
    using endpoint_roundtrip [OF d] by (simp add: parts)
qed

text \<open>
  The repository's tests of \<^verbatim>\<open>ConnectRequest\<close> pass, for every implementation of the script
  language that runs their four scripts.
\<close>

theorem connect_request_tests_pass:
  assumes "runs_methods R items offered call"
  shows "test_connect_request_port R call \<and> test_connect_request_hostname R call \<and>
    test_connect_request_endpoint R call \<and> test_connect_request_host_is_ip R call"
proof -
  have r: "test_request R call n e = Inr (f (connect_request_new e))" if "(n, f) \<in> set request_methods" for n f e
    using test_request_value [OF assms that] .
  note port = r [of "''port''"] and hostname = r [of "''hostname''"] and endpoint = r [of "''endpoint''"]
    and is_ip = r [of "''hostname_is_ip''"]
  note parts = test_endpoints request_methods_def connect_request_new_def show_addresses show_test_parts show_socket_addr_def
  have "test_connect_request_port R call"
    by (simp add: test_connect_request_port_def test_method_def port parts cr_port_def)
  moreover have "test_connect_request_hostname R call"
    by (simp add: test_connect_request_hostname_def test_method_def hostname parts cr_hostname_def)
  moreover have "test_connect_request_endpoint R call"
    by (simp add: test_connect_request_endpoint_def test_method_def endpoint parts cr_endpoint_string_def)
  moreover have "test_connect_request_host_is_ip R call"
    by (simp add: test_connect_request_host_is_ip_def test_method_def is_ip parts cr_hostname_is_ip_def
        cr_hostname_as_ip_def example_com)
  ultimately show ?thesis by blast
qed

section \<open>A language for the four scripts\<close>

text \<open>A script is its text, and its call looks the text up among the scripts of the tests.\<close>

definition method_vm :: "unit \<Rightarrow> string \<Rightarrow> connect_request \<Rightarrow> unit + (unit + (unit + test_value))" where
  "method_vm rt u r =
     (case map_of (map (\<lambda>(n, f). (test_source (method_call n), f)) request_methods) u of
        None \<Rightarrow> Inl ()
      | Some f \<Rightarrow> Inr (Inr (Inr (f r))))"

lemma method_vm_runs:
  assumes "(n, f) \<in> set request_methods"
  shows "runs_script list_registry (\<lambda>m. m) set method_vm (method_call n) {AssocItem ''ConnectRequest'' n} (\<lambda>r. Inr (f r))"
proof (unfold_locales, goal_cases)
  case 1
  show ?case by (simp add: list_registry_def)
next
  case (2 c arg)
  have "inj (\<lambda>n. test_source (method_call n))" by (auto simp: inj_def test_source_def method_call_def)
  moreover have "map_of request_methods n = Some f" using assms by (auto simp: request_methods_def)
  ultimately have "map_of (map (\<lambda>(n, f). (test_source (method_call n), f)) request_methods) (test_source (method_call n)) = Some f"
    by (rule map_of_mapk_SomeI)
  then show ?case by (simp add: list_registry_def method_vm_def)
qed

interpretation port_script: runs_script list_registry "\<lambda>m. m" set method_vm "method_call ''port''"
  "{AssocItem ''ConnectRequest'' ''port''}" "\<lambda>r. Inr (U16Value (cr_port r))"
  by (rule method_vm_runs) (simp add: request_methods_def)

theorem connect_request_tests_pass_witness:
  "test_connect_request_port list_registry method_vm \<and> test_connect_request_host_is_ip list_registry method_vm"
proof -
  have "runs_methods list_registry (\<lambda>m. m) set method_vm"
    using method_vm_runs by (auto simp: runs_methods_def)
  from connect_request_tests_pass [OF this] show ?thesis by blast
qed

end
