(* ===== verification/Tun_Device.thy ===== *)
theory Tun_Device
  imports Std_Net
begin

text \<open>
  The TUN device, \<^verbatim>\<open>core/tun/device.rs\<close>: the configuration that is handed to the crate
  \<^verbatim>\<open>tun\<close>.  Its builder and the creation of the device are parameters, and so is the network
  of the crate \<^verbatim>\<open>ipnetwork\<close>, of which only the address and the mask are used.
\<close>

section \<open>Definitions\<close>

datatype layer = L2 | L3

record ('e, 'c, 'd) tun_lib =
  tun_default :: 'c
  tun_layer :: "layer \<Rightarrow> 'c \<Rightarrow> 'c"
  tun_address :: "ipv4_addr \<Rightarrow> 'c \<Rightarrow> 'c"
  tun_netmask :: "ipv4_addr \<Rightarrow> 'c \<Rightarrow> 'c"
  tun_up :: "'c \<Rightarrow> 'c"
  tun_create :: "'c \<Rightarrow> 'e + 'd"

record ipv4_network =
  net_ip :: ipv4_addr
  net_mask :: ipv4_addr

definition create_tun :: "('e, 'c, 'd) tun_lib \<Rightarrow> ipv4_network \<Rightarrow> 'e + 'd" where
  "create_tun T subnet =
     (let config = tun_up T (tun_netmask T (net_mask subnet) (tun_address T (net_ip subnet)
            (tun_layer T L3 (tun_default T))))
      in res_bind (tun_create T config) (\<lambda>device. Inr device))"

section \<open>What the device is configured with\<close>

text \<open>The contract of the builder: each call sets its own field.\<close>

locale tun_builder =
  fixes T :: "('e, 'c, 'd) tun_lib"
    and layer_of :: "'c \<Rightarrow> layer option"
    and address_of mask_of :: "'c \<Rightarrow> ipv4_addr option"
    and is_up :: "'c \<Rightarrow> bool"
  assumes layer_set: "layer_of (tun_layer T l c) = Some l"
    and address_set: "address_of (tun_address T a c) = Some a" "layer_of (tun_address T a c) = layer_of c"
    and mask_set: "mask_of (tun_netmask T a c) = Some a" "layer_of (tun_netmask T a c) = layer_of c"
      "address_of (tun_netmask T a c) = address_of c"
    and up_set: "is_up (tun_up T c)" "layer_of (tun_up T c) = layer_of c"
      "address_of (tun_up T c) = address_of c" "mask_of (tun_up T c) = mask_of c"
begin

text \<open>The device is made from a configuration of layer 3 that is up and has the network's address and mask.\<close>

lemma create_tun_config:
  "\<exists>c. create_tun T subnet = tun_create T c \<and> layer_of c = Some L3 \<and>
    address_of c = Some (net_ip subnet) \<and> mask_of c = Some (net_mask subnet) \<and> is_up c"
proof -
  let ?c = "tun_up T (tun_netmask T (net_mask subnet) (tun_address T (net_ip subnet)
      (tun_layer T L3 (tun_default T))))"
  have "create_tun T subnet = tun_create T ?c" by (cases "tun_create T ?c") (simp_all add: create_tun_def)
  then show ?thesis using layer_set address_set mask_set up_set by (intro exI [of _ ?c]) simp
qed

end

text \<open>A configuration as its four fields.\<close>

record tun_fields =
  f_layer :: "layer option"
  f_address :: "ipv4_addr option"
  f_mask :: "ipv4_addr option"
  f_up :: bool

definition fields_tun :: "(unit, tun_fields, tun_fields) tun_lib" where
  "fields_tun = \<lparr>tun_default = \<lparr>f_layer = None, f_address = None, f_mask = None, f_up = False\<rparr>,
     tun_layer = (\<lambda>l c. c\<lparr>f_layer := Some l\<rparr>), tun_address = (\<lambda>a c. c\<lparr>f_address := Some a\<rparr>),
     tun_netmask = (\<lambda>a c. c\<lparr>f_mask := Some a\<rparr>), tun_up = (\<lambda>c. c\<lparr>f_up := True\<rparr>), tun_create = Inr\<rparr>"

interpretation fields_tun: tun_builder fields_tun f_layer f_address f_mask f_up
  by unfold_locales (simp_all add: fields_tun_def)

end
