(* ===== verification/Resolver.thy ===== *)
theory Resolver
  imports Std_Net_Roundtrip
begin

text \<open>
  Name resolution: the \<^verbatim>\<open>Resolver\<close> trait of \<^verbatim>\<open>core/resolver/mod.rs\<close>, its two
  implementations \<^verbatim>\<open>core/resolver/system.rs\<close> and \<^verbatim>\<open>core/resolver/hickory.rs\<close>, and the view
  of a resolver that scripts get, \<^verbatim>\<open>ResolverWrapper\<close> of \<^verbatim>\<open>config/engine/resolver.rs\<close>.

  The operating system's lookups and the Hickory client are parameters (\<open>os_dns\<close>,
  \<open>hickory_client\<close>).  A trait object is the record of its methods; what every
  implementation promises about raw queries is the locale \<open>resolver_trait\<close>.
\<close>

section \<open>The trait\<close>

record ('e, 'm) resolver =
  lookup_ip :: "string \<Rightarrow> 'e + ip_addr list"
  lookup_ipv4 :: "string \<Rightarrow> 'e + ipv4_addr list"
  lookup_ipv6 :: "string \<Rightarrow> 'e + ipv6_addr list"
  support_raw :: bool
  lookup_raw :: "'m \<Rightarrow> 'e + 'm"

datatype ('j, 'o, 'c) resolver_error =
    RawUnsupported
  | JoinFailed 'j
  | OsError 'o
  | ClientError 'c
  | NoResult string
  | NoQuery

text \<open>The default \<^verbatim>\<open>lookup_raw\<close> of the trait.\<close>

definition lookup_raw_default :: "'m \<Rightarrow> ('j, 'o, 'c) resolver_error + 'm" where
  "lookup_raw_default message = Inl RawUnsupported"

section \<open>The system resolver\<close>

datatype addr_family = Inet | Inet6

text \<open>
  The blocking calls: the task may fail to join, the call may fail, and each entry of
  \<^verbatim>\<open>getaddrinfo\<close> may be an error of its own.
\<close>

record ('j, 'o) os_dns =
  os_lookup_host :: "string \<Rightarrow> 'j + ('o + ip_addr list)"
  os_getaddrinfo :: "string \<Rightarrow> addr_family \<Rightarrow> 'j + ('o + ('o + socket_addr) list)"

definition blocking :: "'j + ('o + 'a) \<Rightarrow> ('j, 'o, 'c) resolver_error + 'a" where
  "blocking r = (case r of
     Inl j \<Rightarrow> Inl (JoinFailed j)
   | Inr (Inl e) \<Rightarrow> Inl (OsError e)
   | Inr (Inr a) \<Rightarrow> Inr a)"

definition entry_ok :: "'o + 'a \<Rightarrow> 'a option" where
  "entry_ok r = (case r of Inl _ \<Rightarrow> None | Inr a \<Rightarrow> Some a)"

definition system_lookup ::
  "('j, 'o) os_dns \<Rightarrow> string \<Rightarrow> addr_family \<Rightarrow> ('j, 'o, 'c) resolver_error + ip_addr list" where
  "system_lookup os name family =
     res_bind (blocking (os_getaddrinfo os name family)) (\<lambda>entries.
     Inr (map socket_ip (List.map_filter entry_ok entries)))"

fun ip_v4 :: "ip_addr \<Rightarrow> ipv4_addr option" where
  "ip_v4 (V4 a) = Some a"
| "ip_v4 (V6 _) = None"

fun ip_v6 :: "ip_addr \<Rightarrow> ipv6_addr option" where
  "ip_v6 (V4 _) = None"
| "ip_v6 (V6 a) = Some a"

definition system_resolver :: "('j, 'o) os_dns \<Rightarrow> (('j, 'o, 'c) resolver_error, 'm) resolver" where
  "system_resolver os = \<lparr>
     lookup_ip = (\<lambda>name. blocking (os_lookup_host os name)),
     lookup_ipv4 = (\<lambda>name. res_bind (system_lookup os name Inet) (\<lambda>ips. Inr (List.map_filter ip_v4 ips))),
     lookup_ipv6 = (\<lambda>name. res_bind (system_lookup os name Inet6) (\<lambda>ips. Inr (List.map_filter ip_v6 ips))),
     support_raw = False,
     lookup_raw = lookup_raw_default\<rparr>"

section \<open>The Hickory resolver\<close>

record ('n, 'q) dns_query =
  q_name :: 'n
  q_type :: 'q

datatype message_type = Query | Response

record ('n, 'q, 'r) dns_message =
  m_type :: message_type
  m_queries :: "('n, 'q) dns_query list"
  m_answers :: "'r list"

record ('c, 'n, 'q, 'r) hickory_client =
  hc_lookup_ip :: "string \<Rightarrow> 'c + ip_addr list"
  hc_ipv4_lookup :: "string \<Rightarrow> 'c + ipv4_addr list"
  hc_ipv6_lookup :: "string \<Rightarrow> 'c + ipv6_addr list"
  hc_lookup :: "'n \<Rightarrow> 'q \<Rightarrow> 'c + 'r list"

text \<open>The configuration a client is built from: the name servers in order and the timeout.\<close>

datatype protocol = Udp

record name_server =
  ns_addr :: socket_addr
  ns_protocol :: protocol

record 's hickory_config =
  hk_servers :: "'s list"
  hk_timeout_ms :: nat

definition hickory_new :: "'s list \<Rightarrow> 's list \<Rightarrow> nat \<Rightarrow> 's hickory_config" where
  "hickory_new default_servers nameservers timeout =
     \<lparr>hk_servers = foldl (\<lambda>servers s. servers @ [s]) default_servers nameservers, hk_timeout_ms = timeout\<rparr>"

definition require_result :: "string \<Rightarrow> 'c + 'a list \<Rightarrow> ('j, 'o, 'c) resolver_error + 'a list" where
  "require_result name r = (case r of
     Inl e \<Rightarrow> Inl (ClientError e)
   | Inr l \<Rightarrow> if l = [] then Inl (NoResult name) else Inr l)"

definition hickory_lookup_raw ::
  "('c, 'n, 'q, 'r) hickory_client \<Rightarrow> ('n, 'q, 'r) dns_message \<Rightarrow>
   ('j, 'o, 'c) resolver_error + ('n, 'q, 'r) dns_message" where
  "hickory_lookup_raw client message =
     (case m_queries message of
        [] \<Rightarrow> Inl NoQuery
      | query # _ \<Rightarrow>
          (case hc_lookup client (q_name query) (q_type query) of
             Inl e \<Rightarrow> Inl (ClientError e)
           | Inr records \<Rightarrow> Inr (message\<lparr>m_answers := m_answers message @ records, m_type := Response\<rparr>)))"

definition hickory_resolver ::
  "('c, 'n, 'q, 'r) hickory_client \<Rightarrow> (('j, 'o, 'c) resolver_error, ('n, 'q, 'r) dns_message) resolver" where
  "hickory_resolver client = \<lparr>
     lookup_ip = (\<lambda>name. require_result name (hc_lookup_ip client name)),
     lookup_ipv4 = (\<lambda>name. require_result name (hc_ipv4_lookup client name)),
     lookup_ipv6 = (\<lambda>name. require_result name (hc_ipv6_lookup client name)),
     support_raw = True,
     lookup_raw = hickory_lookup_raw client\<rparr>"

section \<open>Resolvers in scripts\<close>

text \<open>A value of the script language: a string, or something else.\<close>

datatype 'x rune_value = RString string | ROther 'x

definition texts :: "('a \<Rightarrow> string) \<Rightarrow> 'e + 'a list \<Rightarrow> 'e + 'x rune_value list" where
  "texts show_it r = res_bind r (\<lambda>l. Inr (map (RString \<circ> show_it) l))"

definition script_lookup :: "('e, 'm) resolver \<Rightarrow> string \<Rightarrow> 'e + 'x rune_value list" where
  "script_lookup R hostname = texts show_ip (lookup_ip R hostname)"

definition script_lookup_ipv4 :: "('e, 'm) resolver \<Rightarrow> string \<Rightarrow> 'e + 'x rune_value list" where
  "script_lookup_ipv4 R hostname = texts show_ipv4 (lookup_ipv4 R hostname)"

definition script_lookup_ipv6 :: "('e, 'm) resolver \<Rightarrow> string \<Rightarrow> 'e + 'x rune_value list" where
  "script_lookup_ipv6 R hostname = texts show_ipv6 (lookup_ipv6 R hostname)"

datatype 'x udp_resolver_error = NotAString 'x | BadAddress string

fun parse_servers :: "'x rune_value list \<Rightarrow> 'x udp_resolver_error + name_server list" where
  "parse_servers [] = Inr []"
| "parse_servers (ROther x # vs) = Inl (NotAString x)"
| "parse_servers (RString s # vs) =
     res_bind (ok_or (BadAddress s) (parse_socket_addr s)) (\<lambda>addr.
     res_bind (parse_servers vs) (\<lambda>servers.
     Inr (\<lparr>ns_addr = addr, ns_protocol = Udp\<rparr> # servers)))"

text \<open>\<^verbatim>\<open>create_udp_resolver\<close>; \<open>build\<close> is the client made from the configuration.\<close>

definition create_udp_resolver ::
  "name_server list \<Rightarrow> (name_server hickory_config \<Rightarrow> ('c, 'n, 'q, 'r) hickory_client) \<Rightarrow>
   'x rune_value list \<Rightarrow> nat \<Rightarrow>
   'x udp_resolver_error + (('j, 'o, 'c) resolver_error, ('n, 'q, 'r) dns_message) resolver" where
  "create_udp_resolver default_servers build addrs timeout =
     res_bind (parse_servers addrs) (\<lambda>servers.
     Inr (hickory_resolver (build (hickory_new default_servers servers timeout))))"

definition create_system_resolver ::
  "('j, 'o) os_dns \<Rightarrow> 'e + (('j, 'o, 'c) resolver_error, 'm) resolver" where
  "create_system_resolver os = Inr (system_resolver os)"

section \<open>The interface\<close>

text \<open>
  What holds of every resolver: raw queries succeed only where they are supported, and a
  lookup by family agrees with itself on the family (by its type).
\<close>

locale resolver_trait =
  fixes R :: "('e, 'm) resolver"
  assumes raw_only_if_supported: "lookup_raw R m = Inr m' \<Longrightarrow> support_raw R"
begin

text \<open>The texts scripts get are read back as the addresses the resolver gave.\<close>

lemma script_lookup_texts:
  assumes "script_lookup R h = Inr vs"
  shows "\<exists>ips. lookup_ip R h = Inr ips \<and> vs = map (RString \<circ> show_ip) ips \<and>
    map (\<lambda>ip. parse_ip_addr (show_ip ip)) ips = map Some ips"
  using assms by (auto simp: script_lookup_def texts_def res_bind_eq_Inr parse_ip_show)

lemma script_family_texts:
  "script_lookup_ipv4 R h = Inr vs \<Longrightarrow>
     \<exists>ips. lookup_ipv4 R h = Inr ips \<and> vs = map (RString \<circ> show_ip) (map V4 ips)"
  "script_lookup_ipv6 R h = Inr vs \<Longrightarrow>
     \<exists>ips6. lookup_ipv6 R h = Inr ips6 \<and> vs = map (RString \<circ> show_ip) (map V6 ips6)"
  by (auto simp: script_lookup_ipv4_def script_lookup_ipv6_def texts_def res_bind_eq_Inr)

lemma raw_fails_if_unsupported: "\<not> support_raw R \<Longrightarrow> \<exists>e. lookup_raw R m = Inl e"
  using raw_only_if_supported by (cases "lookup_raw R m") auto

end

interpretation system: resolver_trait "system_resolver os"
  by unfold_locales (simp add: system_resolver_def lookup_raw_default_def)

interpretation hickory: resolver_trait "hickory_resolver client"
  by unfold_locales (simp add: hickory_resolver_def)

section \<open>The implementations\<close>

lemma hickory_servers: "hk_servers (hickory_new defaults servers t) = defaults @ servers"
proof -
  have "foldl (\<lambda>l s. l @ [s]) acc servers = acc @ servers" for acc
    by (induction servers arbitrary: acc) simp_all
  then show ?thesis by (simp add: hickory_new_def)
qed

lemma parse_servers_Inr:
  "parse_servers vs = Inr servers \<longleftrightarrow>
     (\<exists>ss. vs = map RString ss \<and> map parse_socket_addr ss = map (Some \<circ> ns_addr) servers \<and>
        (\<forall>s \<in> set servers. ns_protocol s = Udp))"
proof (induction vs arbitrary: servers)
  case (Cons v vs)
  show ?case
  proof (cases v)
    case (RString s)
    have "parse_servers (v # vs) = Inr servers \<longleftrightarrow>
        (\<exists>a rest. parse_socket_addr s = Some a \<and> parse_servers vs = Inr rest \<and>
           servers = \<lparr>ns_addr = a, ns_protocol = Udp\<rparr> # rest)"
      by (auto simp: RString res_bind_eq_Inr ok_or_def split: option.splits)
    also have "\<dots> \<longleftrightarrow> (\<exists>ss. v # vs = map RString ss \<and>
        map parse_socket_addr ss = map (Some \<circ> ns_addr) servers \<and> (\<forall>s \<in> set servers. ns_protocol s = Udp))"
    proof -
      have rec: "x = \<lparr>ns_addr = ns_addr x, ns_protocol = Udp\<rparr>" for x :: name_server
        by (cases x; cases "ns_protocol x") simp
      show ?thesis unfolding Cons.IH RString
        by (cases servers) (auto simp: Cons_eq_map_conv intro: rec)
    qed
    finally show ?thesis .
  qed auto
qed auto

end
