(* ===== verification/Racing.thy ===== *)
theory Racing
  imports Resolver Endpoint
begin

text \<open>
  Connections that race: \<^verbatim>\<open>core/connector/speed.rs\<close>, which starts several connectors after
  delays of their own, and \<^verbatim>\<open>core/quic/client.rs\<close> with \<^verbatim>\<open>core/connector/quic.rs\<close>, which tries
  all addresses of a server at once.  Both hand their futures to \<^verbatim>\<open>futures::select_ok\<close>,
  whose documented behaviour is the locale \<open>race\<close>.

  A future is when it is done and with what (\<open>finish\<close>), counted from the moment it is
  started; \<^verbatim>\<open>select_ok\<close> panics on no futures at all.
\<close>

section \<open>Definitions\<close>

datatype 'r finish = Never | At nat 'r

fun delayed :: "nat \<Rightarrow> 'r finish \<Rightarrow> 'r finish" where
  "delayed d Never = Never"
| "delayed d (At t r) = At (d + t) r"

text \<open>The call of \<^verbatim>\<open>select_ok\<close>: \<open>sel\<close> is its future on a non-empty list.\<close>

definition select_ok :: "(('e + 'a) finish list \<Rightarrow> ('e + 'a) finish) \<Rightarrow> ('e + 'a) finish list \<Rightarrow> ('e + 'a) finish outcome" where
  "select_ok sel fs = (if fs = [] then Panic else Normal (sel fs))"

text \<open>A connector with its delay: sleep, then connect.\<close>

definition speed_connect ::
  "(('e + 'io) finish list \<Rightarrow> ('e + 'io) finish) \<Rightarrow> (nat \<times> (endpoint \<Rightarrow> ('e + 'io) finish)) list \<Rightarrow> endpoint \<Rightarrow>
   ('e + 'io) finish outcome" where
  "speed_connect sel connectors e = select_ok sel (map (\<lambda>(d, c). delayed d (c e)) connectors)"

text \<open>
  The QUIC client: \<open>tls\<close> is the outcome of setting up the verifier, \<open>dial\<close> the handshake
  from a local address to a remote one for a host name.
\<close>

datatype ('r, 't, 'q) quic_error = IpServer socket_addr | LookupError 'r | TlsError 't | DialError 'q

fun unspecified :: "ip_addr \<Rightarrow> ip_addr" where
  "unspecified (V4 _) = V4 (Ipv4Addr 0 0 0 0)"
| "unspecified (V6 _) = V6 (Ipv6Addr 0 0 0 0 0 0 0 0)"

definition quic_attempt ::
  "(socket_addr \<Rightarrow> socket_addr \<Rightarrow> string \<Rightarrow> ('q + 'c) finish) \<Rightarrow> string \<Rightarrow> u16 \<Rightarrow> ip_addr \<Rightarrow>
   (('r, 't, 'q) quic_error + 'c) finish" where
  "quic_attempt dial host p addr =
     (case dial (socket_addr_new (unspecified addr) 0) (socket_addr_new addr p) host of
        Never \<Rightarrow> Never
      | At t (Inl e) \<Rightarrow> At t (Inl (DialError e))
      | At t (Inr c) \<Rightarrow> At t (Inr c))"

fun create_quic_connection ::
  "((('r, 't, 'q) quic_error + 'c) finish list \<Rightarrow> (('r, 't, 'q) quic_error + 'c) finish) \<Rightarrow>
   ('r, 'm) resolver \<Rightarrow> ('t + unit) \<Rightarrow> (socket_addr \<Rightarrow> socket_addr \<Rightarrow> string \<Rightarrow> ('q + 'c) finish) \<Rightarrow>
   endpoint \<Rightarrow> (('r, 't, 'q) quic_error + 'c) finish outcome" where
  "create_quic_connection sel R tls dial (Addr addr) = Normal (At 0 (Inl (IpServer addr)))"
| "create_quic_connection sel R tls dial (Domain host p) =
     (case lookup_ip R host of
        Inl e \<Rightarrow> Normal (At 0 (Inl (LookupError e)))
      | Inr addrs \<Rightarrow>
          (case tls of
             Inl e \<Rightarrow> Normal (At 0 (Inl (TlsError e)))
           | Inr _ \<Rightarrow> select_ok sel (map (quic_attempt dial host p) addrs)))"

text \<open>A stream of the connection: reads go to its receiving half, writes to its sending half.\<close>

record ('s, 'r) quic_stream =
  qs_send :: 's
  qs_recv :: 'r

definition quic_stream_new :: "'s \<Rightarrow> 'r \<Rightarrow> ('s, 'r) quic_stream" where
  "quic_stream_new send recv = \<lparr>qs_send = send, qs_recv = recv\<rparr>"

definition quic_connect :: "('c \<Rightarrow> 'e + ('s \<times> 'r)) \<Rightarrow> 'c \<Rightarrow> 'e + ('s, 'r) quic_stream" where
  "quic_connect open_bi connection =
     res_bind (open_bi connection) (\<lambda>(send, recv). Inr (quic_stream_new send recv))"

definition quic_poll_read ::
  "(nat \<Rightarrow> 'r \<Rightarrow> ('e + bytes) poll \<times> 'r) \<Rightarrow> nat \<Rightarrow> ('s, 'r) quic_stream \<Rightarrow>
   ('e + bytes) poll \<times> ('s, 'r) quic_stream" where
  "quic_poll_read recv_read n q = (case recv_read n (qs_recv q) of (x, r) \<Rightarrow> (x, q\<lparr>qs_recv := r\<rparr>))"

definition quic_poll_write ::
  "(bytes \<Rightarrow> 's \<Rightarrow> ('e + nat) poll \<times> 's) \<Rightarrow> bytes \<Rightarrow> ('s, 'r) quic_stream \<Rightarrow>
   ('e + nat) poll \<times> ('s, 'r) quic_stream" where
  "quic_poll_write send_write buf q = (case send_write buf (qs_send q) of (x, s) \<Rightarrow> (x, q\<lparr>qs_send := s\<rparr>))"

definition quic_poll_flush ::
  "('s \<Rightarrow> ('e + unit) poll \<times> 's) \<Rightarrow> ('s, 'r) quic_stream \<Rightarrow> ('e + unit) poll \<times> ('s, 'r) quic_stream" where
  "quic_poll_flush send_flush q = (case send_flush (qs_send q) of (x, s) \<Rightarrow> (x, q\<lparr>qs_send := s\<rparr>))"

definition quic_poll_shutdown ::
  "('s \<Rightarrow> ('e + unit) poll \<times> 's) \<Rightarrow> ('s, 'r) quic_stream \<Rightarrow> ('e + unit) poll \<times> ('s, 'r) quic_stream" where
  "quic_poll_shutdown send_shutdown q = (case send_shutdown (qs_send q) of (x, s) \<Rightarrow> (x, q\<lparr>qs_send := s\<rparr>))"

section \<open>The interface of the race\<close>

lemma finish_cases: "f = Never \<or> (\<exists>t e. f = At t (Inl e)) \<or> (\<exists>t a. f = At t (Inr a))"
  by (metis finish.exhaust sum.exhaust)

text \<open>
  The first success wins; without any, the failure that comes last, once all have failed.
\<close>

locale race =
  fixes sel :: "('e + 'a) finish list \<Rightarrow> ('e + 'a) finish"
  assumes first_success: "At t (Inr a) \<in> set fs \<Longrightarrow>
      \<exists>t' a'. sel fs = At t' (Inr a') \<and> At t' (Inr a') \<in> set fs \<and> (\<forall>u b. At u (Inr b) \<in> set fs \<longrightarrow> t' \<le> u)"
    and last_failure: "fs \<noteq> [] \<Longrightarrow> (\<And>t a. At t (Inr a) \<notin> set fs) \<Longrightarrow> Never \<notin> set fs \<Longrightarrow>
      \<exists>t e. sel fs = At t (Inl e) \<and> At t (Inl e) \<in> set fs \<and> (\<forall>u x. At u (Inl x) \<in> set fs \<longrightarrow> u \<le> t)"
    and still_waiting: "fs \<noteq> [] \<Longrightarrow> (\<And>t a. At t (Inr a) \<notin> set fs) \<Longrightarrow> Never \<in> set fs \<Longrightarrow> sel fs = Never"
begin

text \<open>A success is one of the futures' and no other success is earlier.\<close>

lemma success_of_one:
  assumes "fs \<noteq> []" and "sel fs = At t (Inr a)"
  shows "At t (Inr a) \<in> set fs \<and> (\<forall>u b. At u (Inr b) \<in> set fs \<longrightarrow> t \<le> u)"
proof (cases "\<exists>u b. At u (Inr b) \<in> set fs")
  case True
  with first_success assms(2) show ?thesis by fastforce
next
  case False
  with last_failure [OF assms(1)] still_waiting [OF assms(1)] assms(2) show ?thesis
    by (cases "Never \<in> set fs") auto
qed

lemma failure_of_all:
  assumes "fs \<noteq> []" and "sel fs = At t (Inl e)"
  shows "At t (Inl e) \<in> set fs \<and> (\<forall>f \<in> set fs. \<exists>u x. f = At u (Inl x) \<and> u \<le> t)"
proof -
  have no: "\<And>u b. At u (Inr b) \<notin> set fs" using first_success assms(2) by fastforce
  moreover from this have "Never \<notin> set fs" using still_waiting [OF assms(1)] assms(2) by auto
  ultimately obtain t' e' where "sel fs = At t' (Inl e')" "At t' (Inl e') \<in> set fs"
    "\<forall>u x. At u (Inl x) \<in> set fs \<longrightarrow> u \<le> t'" using last_failure [OF assms(1)] by blast
  moreover have "\<exists>u x. f = At u (Inl x)" if "f \<in> set fs" for f
    using that no \<open>Never \<notin> set fs\<close> finish_cases [of f] by metis
  ultimately show ?thesis using assms(2) by (metis finish.inject sum.inject(1))
qed

end

text \<open>An executable race: the earliest success, else the latest failure.\<close>

fun time_of :: "'r finish \<Rightarrow> nat" where
  "time_of Never = 0"
| "time_of (At t r) = t"

fun success :: "('e + 'a) finish \<Rightarrow> bool" where
  "success (At t (Inr a)) = True"
| "success _ = False"

definition pick :: "('a \<Rightarrow> 'a \<Rightarrow> bool) \<Rightarrow> 'a \<Rightarrow> 'a list \<Rightarrow> 'a" where
  "pick le x xs = foldl (\<lambda>m y. if le m y then m else y) x xs"

definition list_race :: "('e + 'a) finish list \<Rightarrow> ('e + 'a) finish" where
  "list_race fs = (case filter success fs of
     f # gs \<Rightarrow> pick (\<lambda>f g. time_of f \<le> time_of g) f gs
   | [] \<Rightarrow> if Never \<in> set fs then Never else pick (\<lambda>f g. time_of g \<le> time_of f) (hd fs) (tl fs))"

lemma pick_least:
  assumes "\<And>a b c. le a b \<Longrightarrow> le b c \<Longrightarrow> le a c" and "\<And>a b. le a b \<or> le b a"
  shows "pick le x xs \<in> set (x # xs) \<and> (\<forall>y \<in> set (x # xs). le (pick le x xs) y)"
proof (induction xs arbitrary: x)
  case Nil
  show ?case using assms(2) by (auto simp: pick_def)
next
  case (Cons y ys)
  let ?m = "if le x y then x else y"
  have "pick le x (y # ys) = pick le ?m ys" by (simp add: pick_def)
  moreover have m: "le ?m x" "le ?m y" "?m \<in> {x, y}" using assms(2) by auto
  moreover have in_ys: "pick le ?m ys \<in> set (?m # ys)" and least: "\<forall>z \<in> set (?m # ys). le (pick le ?m ys) z"
    using Cons.IH [of ?m] by blast+
  have "le (pick le ?m ys) z" if "z \<in> set (x # y # ys)" for z
    using that least m(1,2) assms(1) [of "pick le ?m ys" ?m z] by auto
  moreover have "pick le ?m ys \<in> set (x # y # ys)" using in_ys m(3) by auto
  ultimately show ?case by simp
qed

lemma success_iff: "success f \<longleftrightarrow> (\<exists>t a. f = At t (Inr a))"
  using finish_cases [of f] by auto

lemma list_race_success:
  assumes "At t (Inr a) \<in> set fs"
  shows "\<exists>t' a'. list_race fs = At t' (Inr a') \<and> At t' (Inr a') \<in> set fs \<and>
    (\<forall>u b. At u (Inr b) \<in> set fs \<longrightarrow> t' \<le> u)"
proof -
  have "At t (Inr a) \<in> set (filter success fs)" using assms by simp
  then obtain f gs where f: "filter success fs = f # gs" by (cases "filter success fs") auto
  let ?p = "pick (\<lambda>f g. time_of f \<le> time_of g) f gs"
  have p: "?p \<in> set (f # gs)" "\<forall>y \<in> set (f # gs). time_of ?p \<le> time_of y"
    using pick_least [of "\<lambda>f g. time_of f \<le> time_of g" f gs] by fastforce+
  moreover have fg: "set (f # gs) = {x \<in> set fs. success x}" using f by (metis set_filter)
  ultimately have "?p \<in> set fs" "success ?p" by auto
  then obtain t' a' where "?p = At t' (Inr a')" "At t' (Inr a') \<in> set fs" by (auto simp: success_iff)
  moreover have "t' \<le> u" if "At u (Inr b) \<in> set fs" for u b
  proof -
    have "At u (Inr b) \<in> set (f # gs)" using that fg by simp
    with p(2) calculation(1) show ?thesis by (metis time_of.simps(2))
  qed
  ultimately show ?thesis
    using f by (auto simp: list_race_def)
qed

lemma list_race_failure:
  assumes fs: "fs \<noteq> []" and no: "\<And>t a. At t (Inr a) \<notin> set fs" and never: "Never \<notin> set fs"
  shows "\<exists>t e. list_race fs = At t (Inl e) \<and> At t (Inl e) \<in> set fs \<and>
    (\<forall>u x. At u (Inl x) \<in> set fs \<longrightarrow> u \<le> t)"
proof -
  have "filter success fs = []" using no by (auto simp: filter_empty_conv success_iff)
  moreover obtain f gs where f: "fs = f # gs" using fs by (cases fs) auto
  let ?p = "pick (\<lambda>f g. time_of g \<le> time_of f) f gs"
  have p: "?p \<in> set fs" "\<forall>y \<in> set fs. time_of y \<le> time_of ?p"
    using pick_least [of "\<lambda>f g. time_of g \<le> time_of f" f gs] f by fastforce+
  moreover obtain t e where "?p = At t (Inl e)" using finish_cases [of ?p] p(1) no never by metis
  ultimately show ?thesis
    using never f by (fastforce simp: list_race_def)
qed

lemma list_race_never:
  assumes "\<And>t a. At t (Inr a) \<notin> set fs" and "Never \<in> set fs"
  shows "list_race fs = Never"
proof -
  have "filter success fs = []" using assms by (auto simp: filter_empty_conv success_iff)
  with assms(2) show ?thesis by (simp add: list_race_def)
qed

interpretation list_race: race list_race
  by (rule race.intro, erule list_race_success, rule list_race_failure, assumption, blast, assumption)
    (rule list_race_never)

section \<open>QUIC\<close>

text \<open>
  A lookup without addresses makes the QUIC connector panic; the Hickory resolver never
  gives one, the system resolver may.
\<close>

lemma quic_no_address_panics:
  "lookup_ip R host = Inr [] \<Longrightarrow> create_quic_connection sel R (Inr ()) dial (Domain host p) = Panic"
  by (simp add: select_ok_def)

lemma quic_hickory_no_panic: "create_quic_connection sel (hickory_resolver client) tls dial e \<noteq> Panic"
  by (cases e) (auto simp: select_ok_def hickory_resolver_def require_result_def split: sum.splits if_splits)

text \<open>A stream's writes leave its receiving half alone, and its reads the sending half.\<close>

lemma quic_halves:
  "quic_poll_read f n q = (x, q') \<Longrightarrow> qs_send q' = qs_send q"
  "quic_poll_write g buf q = (y, q') \<Longrightarrow> qs_recv q' = qs_recv q"
  "quic_poll_flush h q = (z, q') \<Longrightarrow> qs_recv q' = qs_recv q"
  "quic_poll_shutdown h q = (z, q') \<Longrightarrow> qs_recv q' = qs_recv q"
  by (auto simp: quic_poll_read_def quic_poll_write_def quic_poll_flush_def quic_poll_shutdown_def split: prod.splits)

section \<open>Properties\<close>

text \<open>
  Racing connectors, the one that is first done after its delay wins: a success of the
  race is the success of one connector at its delay plus its own time, no other connector's
  success would have come earlier, and the race succeeds whenever some connector does.
\<close>

theorem speed_fastest_wins:
  assumes "race sel" and "(d, c) \<in> set connectors" and "c e = At l (Inr io)"
  shows "\<exists>d' c' l' io'. (d', c') \<in> set connectors \<and> c' e = At l' (Inr io') \<and>
    speed_connect sel connectors e = Normal (At (d' + l') (Inr io')) \<and>
    (\<forall>d2 c2 l2 io2. (d2, c2) \<in> set connectors \<and> c2 e = At l2 (Inr io2) \<longrightarrow> d' + l' \<le> d2 + l2)"
proof -
  let ?fs = "map (\<lambda>(d, c). delayed d (c e)) connectors"
  have mem: "(d2, c2) \<in> set connectors \<Longrightarrow> c2 e = At l2 (Inr io2) \<Longrightarrow> At (d2 + l2) (Inr io2) \<in> set ?fs" for d2 c2 l2 io2
    by force
  from race.first_success [OF assms(1) mem [OF assms(2,3)]] obtain t a where
    t: "sel ?fs = At t (Inr a)" "At t (Inr a) \<in> set ?fs" "\<forall>u b. At u (Inr b) \<in> set ?fs \<longrightarrow> t \<le> u" by blast
  from t(2) obtain d' c' where c': "(d', c') \<in> set connectors" "delayed d' (c' e) = At t (Inr a)" by auto
  then obtain l' where "c' e = At l' (Inr a)" "t = d' + l'" by (cases "c' e") auto
  moreover have "speed_connect sel connectors e = Normal (At t (Inr a))"
    using t(1) assms(2) by (auto simp: speed_connect_def select_ok_def)
  moreover have "t \<le> d2 + l2" if "(d2, c2) \<in> set connectors" "c2 e = At l2 (Inr io2)" for d2 c2 l2 io2
    using t(3) mem [OF that] by blast
  ultimately show ?thesis using c'(1) by blast
qed

theorem speed_fastest_wins_witness:
  "\<exists>d' l' io'. speed_connect list_race [(0, \<lambda>_. At 300 (Inr ''slow'')), (100, \<lambda>_. At 50 (Inr ''fast'' :: unit + string))]
     (Domain ''x'' 80) = Normal (At (d' + l') (Inr io')) \<and> d' + l' \<le> 150"
proof -
  let ?cs = "[(0, \<lambda>_. At 300 (Inr ''slow'')), (100, \<lambda>_. At 50 (Inr ''fast'' :: unit + string))]
    :: (nat \<times> (endpoint \<Rightarrow> (unit + string) finish)) list"
  have "(100, \<lambda>_. At 50 (Inr ''fast'')) \<in> set ?cs" by simp
  from speed_fastest_wins [OF list_race.race_axioms this refl, of "Domain ''x'' 80"]
  obtain d' c' l' io' where r: "speed_connect list_race ?cs (Domain ''x'' 80) = Normal (At (d' + l') (Inr io'))"
    "\<forall>d2 c2 l2 io2. (d2, c2) \<in> set ?cs \<and> c2 (Domain ''x'' 80) = At l2 (Inr io2) \<longrightarrow> d' + l' \<le> d2 + l2" by blast
  have "d' + l' \<le> 100 + 50" using r(2) by (metis list.set_intros(1,2))
  with r(1) show ?thesis by auto
qed

end
