(* ===== verification/Happy_Eyeballs.thy ===== *)
theory Happy_Eyeballs
  imports Endpoint "HOL-Library.Multiset"
begin

text \<open>
  The direct TCP connector, \<^verbatim>\<open>core/connector/tcp.rs\<close>: the future that resolves a
  domain and dials its addresses one after the other, a new attempt whenever the last one
  failed or 250 ms have passed.

  One \<^verbatim>\<open>poll\<close> of the future is a function of its state and of what the futures it polls
  answer (\<open>he_env\<close>): the two DNS lookups, the attempts already running, the first poll of
  each newly dialled attempt, and the clock.  A poll returns the new state, the log of
  what it polled and dialled, and its result; a run is a sequence of polls that were
  pending.
\<close>

section \<open>Definitions\<close>

text \<open>What a poll finds: \<open>env_dial n ip\<close> is the first poll of its \<open>n\<close>-th new attempt.\<close>

record ('e, 's) he_env =
  env_v4 :: "('e + ipv4_addr list) poll"
  env_v6 :: "('e + ipv6_addr list) poll"
  env_conn :: "nat \<Rightarrow> ('e + 's) poll"
  env_dial :: "nat \<Rightarrow> ip_addr \<Rightarrow> ('e + 's) poll"
  env_now :: nat

text \<open>An attempt is terminated once it has been ready (\<^verbatim>\<open>FusedFuture\<close>).\<close>

record attempt =
  at_ip :: ip_addr
  at_terminated :: bool

record he_state =
  v4_terminated :: bool
  v6_terminated :: bool
  ips :: "ip_addr list"
  ip_count :: nat
  connections :: "attempt list"
  next_connection_timer :: nat
  he_host :: string
  he_port :: u16

datatype he_error = ResolveFailed string | ConnectFailed string

datatype he_event = PollV4 | PollV6 | PollConn nat | Dial ip_addr | PollTimer

definition he_new :: "string \<Rightarrow> u16 \<Rightarrow> nat \<Rightarrow> he_state" where
  "he_new host p now = \<lparr>v4_terminated = False, v6_terminated = False, ips = [], ip_count = 0,
     connections = [], next_connection_timer = now, he_host = host, he_port = p\<rparr>"

definition is_resolving :: "he_state \<Rightarrow> bool" where
  "is_resolving s = (\<not> (v4_terminated s \<and> v6_terminated s))"

definition connection_attempt_delay :: nat where
  "connection_attempt_delay = 250"

text \<open>\<^verbatim>\<open>Itertools::interleave\<close>: alternate, then the rest of the longer one.\<close>

function interleave :: "'a list \<Rightarrow> 'a list \<Rightarrow> 'a list" where
  "interleave [] ys = ys"
| "interleave (x # xs) ys = x # interleave ys xs"
  by pat_completeness auto

termination
  by (relation "measure (\<lambda>(xs, ys). length xs + length ys)") auto

text \<open>The poll of the two lookups; an error is ignored.\<close>

definition poll_v4 :: "('e, 's) he_env \<Rightarrow> he_state \<Rightarrow> he_state \<times> he_event list" where
  "poll_v4 env s =
     (if v4_terminated s then (s, [])
      else (case env_v4 env of
          Pending \<Rightarrow> s
        | Ready (Inl _) \<Rightarrow> s\<lparr>v4_terminated := True\<rparr>
        | Ready (Inr addrs) \<Rightarrow> s\<lparr>v4_terminated := True, ips := interleave (ips s) (map V4 addrs),
            ip_count := ip_count s + length addrs\<rparr>, [PollV4]))"

definition poll_v6 :: "('e, 's) he_env \<Rightarrow> he_state \<Rightarrow> he_state \<times> he_event list" where
  "poll_v6 env s =
     (if v6_terminated s then (s, [])
      else (case env_v6 env of
          Pending \<Rightarrow> s
        | Ready (Inl _) \<Rightarrow> s\<lparr>v6_terminated := True\<rparr>
        | Ready (Inr addrs) \<Rightarrow> s\<lparr>v6_terminated := True, ips := interleave (ips s) (map V6 addrs),
            ip_count := ip_count s + length addrs\<rparr>, [PollV6]))"

text \<open>
  The fold over the running attempts, from the \<open>i\<close>-th on, with the flags
  \<^verbatim>\<open>has_pending\<close>, \<^verbatim>\<open>has_error\<close> and the stream found so far.
\<close>

fun poll_connections ::
  "('e, 's) he_env \<Rightarrow> nat \<Rightarrow> bool \<times> bool \<times> 's option \<Rightarrow> attempt list \<Rightarrow>
   (bool \<times> bool \<times> 's option) \<times> attempt list \<times> he_event list" where
  "poll_connections env i st [] = (st, [], [])"
| "poll_connections env i (pending, err, stream) (c # cs) =
     (let (st, c', ev) =
        (if stream \<noteq> None then ((pending, err, stream), c, [])
         else if at_terminated c then ((pending, err, stream), c, [])
         else (case env_conn env i of
             Ready (Inr s) \<Rightarrow> ((pending, err, Some s), c\<lparr>at_terminated := True\<rparr>, [PollConn i])
           | Ready (Inl _) \<Rightarrow> ((pending, True, None), c\<lparr>at_terminated := True\<rparr>, [PollConn i])
           | Pending \<Rightarrow> ((True, err, None), c, [PollConn i])));
        (st', cs', evs) = poll_connections env (Suc i) st cs
      in (st', c' # cs', ev @ evs))"

text \<open>The loop over the remaining addresses.\<close>

datatype 's dialled = Connected 's | Started ip_addr | NoneLeft

fun dial_loop ::
  "('e, 's) he_env \<Rightarrow> nat \<Rightarrow> ip_addr list \<Rightarrow> 's dialled \<times> ip_addr list \<times> he_event list" where
  "dial_loop env n [] = (NoneLeft, [], [])"
| "dial_loop env n (addr # rest) =
     (case env_dial env n addr of
        Ready (Inr s) \<Rightarrow> (Connected s, rest, [Dial addr])
      | Ready (Inl _) \<Rightarrow> (case dial_loop env (Suc n) rest of (r, l, ev) \<Rightarrow> (r, l, Dial addr # ev))
      | Pending \<Rightarrow> (Started addr, rest, [Dial addr]))"

text \<open>Starting an attempt: the timer is set 250 ms ahead, polled and asserted to be pending.\<close>

definition start_attempt ::
  "('e, 's) he_env \<Rightarrow> ip_addr \<Rightarrow> he_state \<Rightarrow> he_state \<times> (he_error + 's) poll outcome" where
  "start_attempt env addr s =
     (let s' = s\<lparr>next_connection_timer := env_now env + connection_attempt_delay\<rparr>
      in if next_connection_timer s' \<le> env_now env then (s', Panic)
         else (s'\<lparr>connections := connections s' @ [\<lparr>at_ip = addr, at_terminated = False\<rparr>]\<rparr>,
               Normal Pending))"

definition dial_next ::
  "('e, 's) he_env \<Rightarrow> he_state \<Rightarrow> he_state \<times> he_event list \<times> (he_error + 's) poll outcome" where
  "dial_next env s =
     (case dial_loop env 0 (ips s) of (r, rest, ev) \<Rightarrow>
        let s' = s\<lparr>ips := rest\<rparr> in
        case r of
          Connected st \<Rightarrow> (s', ev, Normal (Ready (Inr st)))
        | Started addr \<Rightarrow> (case start_attempt env addr s' of (s'', res) \<Rightarrow> (s'', ev @ [PollTimer], res))
        | NoneLeft \<Rightarrow>
            (s', ev, Normal (if is_resolving s' then Pending else Ready (Inl (ConnectFailed (he_host s'))))))"

definition he_poll ::
  "('e, 's) he_env \<Rightarrow> he_state \<Rightarrow> he_state \<times> he_event list \<times> (he_error + 's) poll outcome" where
  "he_poll env s =
     (let (s1, ev1) = poll_v4 env s;
          (s2, ev2) = poll_v6 env s1
      in if \<not> is_resolving s2 \<and> ip_count s2 = 0
         then (s2, ev1 @ ev2, Normal (Ready (Inl (ResolveFailed (he_host s2)))))
         else
           (let ((has_pending, has_error, maybe_stream), cs, ev3) =
                  poll_connections env 0 (False, False, None) (connections s2);
                s3 = s2\<lparr>connections := cs\<rparr>
            in case maybe_stream of
                 Some st \<Rightarrow> (s3, ev1 @ ev2 @ ev3, Normal (Ready (Inr st)))
               | None \<Rightarrow>
                   if \<not> has_pending \<or> has_error
                   then (case dial_next env s3 of (s4, ev4, r) \<Rightarrow> (s4, ev1 @ ev2 @ ev3 @ ev4, r))
                   else if next_connection_timer s3 \<le> env_now env
                   then (case dial_next env s3 of (s4, ev4, r) \<Rightarrow>
                           (s4, ev1 @ ev2 @ ev3 @ PollTimer # ev4, r))
                   else (s3, ev1 @ ev2 @ ev3 @ [PollTimer], Normal Pending)))"


text \<open>
  \<^verbatim>\<open>connect\<close>: an address is dialled directly, a domain through the future above; the
  stream of the latter gets its keep-alive option (\<open>keepalive\<close>).
\<close>

datatype tcp_future = DirectFuture socket_addr | HappyFuture he_state

fun tcp_connect :: "endpoint \<Rightarrow> nat \<Rightarrow> tcp_future" where
  "tcp_connect (Addr addr) now = DirectFuture addr"
| "tcp_connect (Domain host p) now = HappyFuture (he_new host p now)"

datatype 'e tcp_error = DirectError 'e | HappyError he_error

fun tcp_poll ::
  "('s \<Rightarrow> 's) \<Rightarrow> (socket_addr \<Rightarrow> ('e + 's) poll) \<Rightarrow> ('e, 's) he_env \<Rightarrow> tcp_future \<Rightarrow>
   tcp_future \<times> ('e tcp_error + 's) poll outcome" where
  "tcp_poll keepalive direct env (DirectFuture addr) =
     (DirectFuture addr, Normal (case direct addr of
        Pending \<Rightarrow> Pending
      | Ready (Inl e) \<Rightarrow> Ready (Inl (DirectError e))
      | Ready (Inr st) \<Rightarrow> Ready (Inr st)))"
| "tcp_poll keepalive direct env (HappyFuture s) =
     (case he_poll env s of (s', _, r) \<Rightarrow>
        (HappyFuture s', case r of
           Panic \<Rightarrow> Panic
         | Normal Pending \<Rightarrow> Normal Pending
         | Normal (Ready (Inl e)) \<Rightarrow> Normal (Ready (Inl (HappyError e)))
         | Normal (Ready (Inr st)) \<Rightarrow> Normal (Ready (Inr (keepalive st)))))"

section \<open>The parts of a poll\<close>

lemma interleave_Nil [simp]: "interleave xs [] = xs"
  by (cases xs) simp_all

lemma mset_interleave [simp]: "mset (interleave xs ys) = mset xs + mset ys"
  by (induction xs ys rule: interleave.induct) simp_all

lemma length_interleave [simp]: "length (interleave xs ys) = length xs + length ys"
  by (induction xs ys rule: interleave.induct) simp_all

text \<open>The addresses a poll gets from the lookups.\<close>

definition new_v4 :: "('e, 's) he_env \<Rightarrow> he_state \<Rightarrow> ip_addr list" where
  "new_v4 env s = (if v4_terminated s then [] else
     case env_v4 env of Ready (Inr addrs) \<Rightarrow> map V4 addrs | _ \<Rightarrow> [])"

definition new_v6 :: "('e, 's) he_env \<Rightarrow> he_state \<Rightarrow> ip_addr list" where
  "new_v6 env s = (if v6_terminated s then [] else
     case env_v6 env of Ready (Inr addrs) \<Rightarrow> map V6 addrs | _ \<Rightarrow> [])"

text \<open>The state after the lookups have been polled.\<close>

definition resolved :: "('e, 's) he_env \<Rightarrow> he_state \<Rightarrow> he_state" where
  "resolved env s = s\<lparr>
     v4_terminated := v4_terminated s \<or> env_v4 env \<noteq> Pending,
     v6_terminated := v6_terminated s \<or> env_v6 env \<noteq> Pending,
     ips := interleave (interleave (ips s) (new_v4 env s)) (new_v6 env s),
     ip_count := ip_count s + length (new_v4 env s) + length (new_v6 env s)\<rparr>"

definition lookup_events :: "he_state \<Rightarrow> he_event list" where
  "lookup_events s = (if v4_terminated s then [] else [PollV4]) @ (if v6_terminated s then [] else [PollV6])"

lemma poll_lookups:
  "(case poll_v4 env s of (s1, ev1) \<Rightarrow> case poll_v6 env s1 of (s2, ev2) \<Rightarrow> (s2, ev1 @ ev2)) =
     (resolved env s, lookup_events s)"
  by (cases s) (auto simp: poll_v4_def poll_v6_def resolved_def lookup_events_def new_v4_def new_v6_def
      split: poll.split sum.split)

abbreviation polled ::
  "('e, 's) he_env \<Rightarrow> he_state \<Rightarrow> (bool \<times> bool \<times> 's option) \<times> attempt list \<times> he_event list" where
  "polled env s \<equiv> poll_connections env 0 (False, False, None) (connections s)"

text \<open>The four ways through a poll.\<close>

lemma he_poll_cases:
  assumes "he_poll env s = (s', ev, r)"
  obtains
    (no_address) "\<not> is_resolving (resolved env s)" "ip_count (resolved env s) = 0"
      "s' = resolved env s" "ev = lookup_events s" "r = Normal (Ready (Inl (ResolveFailed (he_host s))))"
  | (stream) b e st cs ev3 where "is_resolving (resolved env s) \<or> ip_count (resolved env s) \<noteq> 0"
      "polled env s = ((b, e, Some st), cs, ev3)" "s' = (resolved env s)\<lparr>connections := cs\<rparr>"
      "ev = lookup_events s @ ev3" "r = Normal (Ready (Inr st))"
  | (dial) b e cs ev3 t ev4 where "is_resolving (resolved env s) \<or> ip_count (resolved env s) \<noteq> 0"
      "polled env s = ((b, e, None), cs, ev3)" "\<not> b \<or> e \<or> next_connection_timer s \<le> env_now env"
      "dial_next env ((resolved env s)\<lparr>connections := cs\<rparr>) = (s', ev4, r)"
      "ev = lookup_events s @ ev3 @ t @ ev4" "t = (if \<not> b \<or> e then [] else [PollTimer])"
  | (wait) cs ev3 where "is_resolving (resolved env s) \<or> ip_count (resolved env s) \<noteq> 0"
      "polled env s = ((True, False, None), cs, ev3)" "env_now env < next_connection_timer s"
      "s' = (resolved env s)\<lparr>connections := cs\<rparr>"
      "ev = lookup_events s @ ev3 @ [PollTimer]" "r = Normal Pending"
proof -
  obtain s1 ev1 s2 ev2 where l: "poll_v4 env s = (s1, ev1)" "poll_v6 env s1 = (s2, ev2)" by fastforce
  then have s2: "s2 = resolved env s" "ev1 @ ev2 = lookup_events s" using poll_lookups [of env s] by auto
  have same: "connections s2 = connections s" "he_host s2 = he_host s"
    "next_connection_timer s2 = next_connection_timer s" by (simp_all add: s2 resolved_def)
  obtain b e m cs ev3 where p: "polled env s = ((b, e, m), cs, ev3)" by (metis prod.exhaust)
  obtain s4 ev4 r4 where d: "dial_next env (s2\<lparr>connections := cs\<rparr>) = (s4, ev4, r4)" by (metis prod.exhaust)
  note poll = assms [unfolded he_poll_def Let_def, simplified l prod.case same p]
  show ?thesis
  proof (cases "\<not> is_resolving s2 \<and> ip_count s2 = 0")
    case True
    with poll s2 same show ?thesis by (intro no_address) auto
  next
    case go: False
    show ?thesis
    proof (cases m)
      case (Some st)
      with poll s2 same go p show ?thesis by (intro stream [of b e st cs ev3]) auto
    next
      case m: None
      show ?thesis
      proof (cases "\<not> b \<or> e \<or> next_connection_timer s \<le> env_now env")
        case True
        with poll s2 same go p m d show ?thesis
          by (intro dial [of b e cs ev3 ev4 "if \<not> b \<or> e then [] else [PollTimer]"])
            (auto split: if_splits)
      next
        case False
        with poll s2 same go p m show ?thesis by (intro wait [of cs ev3]) (auto split: if_splits)
      qed
    qed
  qed
qed

text \<open>The fold over the attempts: what it polls and what it concludes.\<close>

definition live :: "attempt list \<Rightarrow> nat \<Rightarrow> bool" where
  "live cs j \<longleftrightarrow> j < length cs \<and> \<not> at_terminated (cs ! j)"

lemma live_Cons [simp]:
  "live (c # cs) 0 \<longleftrightarrow> \<not> at_terminated c" "live (c # cs) (Suc j) \<longleftrightarrow> live cs j" "\<not> live [] j"
  by (simp_all add: live_def)

lemma ex_live_Cons: "(\<exists>j. live (c # cs) j \<and> P j) \<longleftrightarrow> (\<not> at_terminated c \<and> P 0) \<or> (\<exists>j. live cs j \<and> P (Suc j))"
  by (metis live_Cons(1,2) not0_implies_Suc)

lemma all_live_Cons: "(\<forall>j. live (c # cs) j \<longrightarrow> P j) \<longleftrightarrow> (\<not> at_terminated c \<longrightarrow> P 0) \<and> (\<forall>j. live cs j \<longrightarrow> P (Suc j))"
  by (metis live_Cons(1,2) not0_implies_Suc)

lemma poll_connections_done:
  "poll_connections env i (b, e, Some st) cs = ((b, e, Some st), cs, [])"
  by (induction cs arbitrary: i) (auto simp: Let_def)

lemma poll_connections_ips:
  "poll_connections env i q cs = (q', cs', ev) \<Longrightarrow> map at_ip cs' = map at_ip cs \<and> Dial a \<notin> set ev"
proof (induction cs arbitrary: i q q' cs' ev)
  case (Cons c cs)
  obtain b e m where q: "q = (b, e, m)" by (cases q)
  from Cons.prems show ?case
    by (auto simp: q Let_def split: prod.splits if_splits poll.splits sum.splits dest!: Cons.IH)
qed simp

lemma poll_connections_None:
  "poll_connections env i (b, e, None) cs = ((b', e', None), cs', ev) \<Longrightarrow>
     (b' \<longleftrightarrow> b \<or> (\<exists>j. live cs j \<and> env_conn env (i + j) = Pending)) \<and>
     (e' \<longleftrightarrow> e \<or> (\<exists>j. live cs j \<and> (\<exists>x. env_conn env (i + j) = Ready (Inl x)))) \<and>
     (\<forall>j. live cs j \<longrightarrow> PollConn (i + j) \<in> set ev)"
proof (induction cs arbitrary: i b e cs' ev)
  case (Cons c cs)
  have step: "\<And>b e. poll_connections env (Suc i) (b, e, None) cs = ((b', e', None), cs'', ev') \<Longrightarrow>
     (b' \<longleftrightarrow> b \<or> (\<exists>j. live cs j \<and> env_conn env (i + Suc j) = Pending)) \<and>
     (e' \<longleftrightarrow> e \<or> (\<exists>j. live cs j \<and> (\<exists>x. env_conn env (i + Suc j) = Ready (Inl x)))) \<and>
     (\<forall>j. live cs j \<longrightarrow> PollConn (i + Suc j) \<in> set ev')" for cs'' ev'
    using Cons.IH [of "Suc i"] by simp
  note heads = ex_live_Cons [of c cs "\<lambda>j. env_conn env (i + j) = Pending"]
    ex_live_Cons [of c cs "\<lambda>j. \<exists>x. env_conn env (i + j) = Ready (Inl x)"]
    all_live_Cons [of c cs "\<lambda>j. PollConn (i + j) \<in> set ev"]
  show ?case
  proof (cases "at_terminated c")
    case True
    with Cons.prems step show ?thesis unfolding heads by (auto simp: Let_def split: prod.splits)
  next
    case False
    show ?thesis
    proof (cases "env_conn env i")
      case Pending
      with Cons.prems step False show ?thesis unfolding heads by (fastforce simp: Let_def split: prod.splits)
    next
      case (Ready x)
      with Cons.prems step False show ?thesis unfolding heads
        by (cases x) (fastforce simp: Let_def poll_connections_done split: prod.splits)+
    qed
  qed
qed simp

lemma poll_connections_Some:
  "poll_connections env i (b, e, None) cs = ((b', e', Some st), cs', ev) \<Longrightarrow>
     \<exists>k. live cs k \<and> env_conn env (i + k) = Ready (Inr st) \<and>
       (\<forall>j < k. live cs j \<longrightarrow> (\<forall>x. env_conn env (i + j) \<noteq> Ready (Inr x)))"
proof (induction cs arbitrary: i b e cs' ev)
  case (Cons c cs)
  show ?case
  proof (cases "\<not> at_terminated c \<and> (\<exists>x. env_conn env i = Ready (Inr x))")
    case True
    with Cons.prems show ?thesis
      by (intro exI [of _ 0]) (auto simp: Let_def poll_connections_done split: prod.splits)
  next
    case False
    then obtain b2 e2 cs2 ev2 where
      "poll_connections env (Suc i) (b2, e2, None) cs = ((b', e', Some st), cs2, ev2)"
      using Cons.prems by (auto simp: Let_def split: prod.splits if_splits poll.splits sum.splits)
    from Cons.IH [OF this] obtain k where k: "live cs k" "env_conn env (i + Suc k) = Ready (Inr st)"
      "\<forall>j < k. live cs j \<longrightarrow> (\<forall>x. env_conn env (i + Suc j) \<noteq> Ready (Inr x))" by auto
    have "live (c # cs) j \<longrightarrow> (\<forall>x. env_conn env (i + j) \<noteq> Ready (Inr x))" if "j < Suc k" for j
      using that k(3) False by (cases j) auto
    with k show ?thesis by (intro exI [of _ "Suc k"]) simp
  qed
qed simp

lemma poll_connections_stream:
  "poll_connections env i (b, e, None) cs = ((b', e', None), cs', ev) \<Longrightarrow> live cs j \<Longrightarrow>
   env_conn env (i + j) \<noteq> Ready (Inr st)"
proof (induction cs arbitrary: i b e cs' ev j)
  case (Cons c cs)
  have rest: "\<exists>b2 e2 cs2 ev2. poll_connections env (Suc i) (b2, e2, None) cs = ((b', e', None), cs2, ev2)"
    using Cons.prems(1)
    by (auto simp: Let_def poll_connections_done split: prod.splits if_splits poll.splits sum.splits)
  show ?case
  proof (cases j)
    case 0
    with Cons.prems show ?thesis
      by (auto simp: Let_def poll_connections_done split: prod.splits)
  next
    case (Suc m)
    with rest Cons.IH [of "Suc i"] Cons.prems(2) show ?thesis by auto
  qed
qed simp

text \<open>The loop over the addresses dials a prefix of them.\<close>

lemma dial_loop_prefix:
  "dial_loop env n l = (r, rest, ev) \<Longrightarrow>
   \<exists>tried. l = tried @ rest \<and> ev = map Dial tried \<and> (r = NoneLeft \<longrightarrow> rest = []) \<and>
     (\<forall>a. r = Started a \<longrightarrow> a \<in> set tried)"
proof (induction l arbitrary: n rest ev)
  case (Cons a l)
  show ?case
  proof (cases "\<exists>e. env_dial env n a = Ready (Inl e)")
    case True
    then obtain ev' where "dial_loop env (Suc n) l = (r, rest, ev')" "ev = Dial a # ev'"
      using Cons.prems by (auto split: prod.splits)
    with Cons.IH [OF this(1)] show ?thesis by (metis append_Cons list.map(2) list.set_intros(2))
  next
    case False
    then have "l = rest \<and> ev = [Dial a] \<and> r \<noteq> NoneLeft \<and> (\<forall>b. r = Started b \<longrightarrow> b = a)"
      using Cons.prems by (auto split: poll.splits sum.splits)
    then show ?thesis by (intro exI [of _ "[a]"]) auto
  qed
qed simp

fun dials :: "he_event list \<Rightarrow> ip_addr list" where
  "dials [] = []"
| "dials (Dial a # ev) = a # dials ev"
| "dials (_ # ev) = dials ev"

lemma dials_append [simp]: "dials (ev @ ev') = dials ev @ dials ev'"
  by (induction ev rule: dials.induct) simp_all

lemma dials_Dial [simp]: "dials (map Dial l) = l"
  by (induction l) simp_all

lemma dials_none: "(\<And>a. Dial a \<notin> set ev) \<Longrightarrow> dials ev = []"
  by (induction ev rule: dials.induct) auto

lemma dials_lookup [simp]: "dials (lookup_events s) = []"
  by (simp add: lookup_events_def)

section \<open>One poll\<close>

lemma start_attempt_eq:
  "start_attempt env a s = (s\<lparr>next_connection_timer := env_now env + 250,
     connections := connections s @ [\<lparr>at_ip = a, at_terminated = False\<rparr>]\<rparr>, Normal Pending)"
  by (simp add: start_attempt_def connection_attempt_delay_def Let_def)

text \<open>Dialling the next addresses: what is left, what was dialled, and the three results.\<close>

lemma dial_next_result:
  fixes env :: "('e, 's) he_env"
  assumes "dial_next env s = (s', ev, r)"
  shows "dials ev @ ips s' = ips s" and "r \<noteq> Panic"
    and "r = Normal Pending \<Longrightarrow> ips s' \<noteq> [] \<Longrightarrow> PollTimer \<in> set ev"
    and "r = Normal (Ready (Inl x)) \<Longrightarrow>
      ips s' = [] \<and> \<not> is_resolving s \<and> x = ConnectFailed (he_host s)"
    and "v4_terminated s' = v4_terminated s" and "v6_terminated s' = v6_terminated s"
    and "ip_count s' = ip_count s" and "he_host s' = he_host s"
    and "connections s' = connections s \<or>
      (\<exists>a \<in> set (dials ev). connections s' = connections s @ [\<lparr>at_ip = a, at_terminated = False\<rparr>] \<and>
         next_connection_timer s' = env_now env + 250)"
proof -
  obtain d rest dev where l: "dial_loop env 0 (ips s) = (d, rest, dev)" by (metis prod.exhaust)
  obtain tried where t: "ips s = tried @ rest" "dev = map Dial tried" "d = NoneLeft \<longrightarrow> rest = []"
    "\<forall>a. d = Started a \<longrightarrow> a \<in> set tried" using dial_loop_prefix [OF l] by blast
  have res: "(s', ev, r) = (case d of
      Connected st \<Rightarrow> (s\<lparr>ips := rest\<rparr>, dev, Normal (Ready (Inr st)))
    | Started a \<Rightarrow> (s\<lparr>ips := rest, next_connection_timer := env_now env + 250,
        connections := connections s @ [\<lparr>at_ip = a, at_terminated = False\<rparr>]\<rparr>, dev @ [PollTimer], Normal Pending)
    | NoneLeft \<Rightarrow> (s\<lparr>ips := rest\<rparr>, dev,
        Normal (if is_resolving s then Pending else Ready (Inl (ConnectFailed (he_host s))))))"
    unfolding assms [symmetric] dial_next_def l prod.case Let_def
    by (cases d) (simp_all add: start_attempt_eq is_resolving_def)
  show "dials ev @ ips s' = ips s" "r \<noteq> Panic" "v4_terminated s' = v4_terminated s"
    "v6_terminated s' = v6_terminated s" "ip_count s' = ip_count s" "he_host s' = he_host s"
    using res by (cases d; simp add: t(1,2))+
  show "r = Normal Pending \<Longrightarrow> ips s' \<noteq> [] \<Longrightarrow> PollTimer \<in> set ev"
    using res t(3) by (cases d) simp_all
  show "r = Normal (Ready (Inl x)) \<Longrightarrow>
      ips s' = [] \<and> \<not> is_resolving s \<and> x = ConnectFailed (he_host s)"
    using res t(3) by (cases d) (simp_all split: if_splits)
  show "connections s' = connections s \<or>
      (\<exists>a \<in> set (dials ev). connections s' = connections s @ [\<lparr>at_ip = a, at_terminated = False\<rparr>] \<and>
         next_connection_timer s' = env_now env + 250)"
    using res t(2,4) by (cases d) simp_all
qed

lemma resolved_fields [simp]:
  "connections (resolved env s) = connections s" "he_host (resolved env s) = he_host s"
  "next_connection_timer (resolved env s) = next_connection_timer s"
  "ips (resolved env s) = interleave (interleave (ips s) (new_v4 env s)) (new_v6 env s)"
  "ip_count (resolved env s) = ip_count s + length (new_v4 env s) + length (new_v6 env s)"
  "v4_terminated (resolved env s) \<longleftrightarrow> v4_terminated s \<or> env_v4 env \<noteq> Pending"
  "v6_terminated (resolved env s) \<longleftrightarrow> v6_terminated s \<or> env_v6 env \<noteq> Pending"
  by (simp_all add: resolved_def)

lemma is_resolving_update [simp]:
  "is_resolving (s\<lparr>connections := cs\<rparr>) = is_resolving s"
  by (simp add: is_resolving_def)

lemma he_poll_step:
  assumes "he_poll env s = (s', ev, r)"
  shows "mset (dials ev) + mset (ips s') = mset (ips s) + mset (new_v4 env s) + mset (new_v6 env s)"
    and "ip_count s' = ip_count s + length (new_v4 env s) + length (new_v6 env s)"
    and "v4_terminated s' \<longleftrightarrow> v4_terminated s \<or> env_v4 env \<noteq> Pending"
    and "v6_terminated s' \<longleftrightarrow> v6_terminated s \<or> env_v6 env \<noteq> Pending"
    and "he_host s' = he_host s" and "r \<noteq> Panic"
proof -
  from assms have "mset (dials ev) + mset (ips s') = mset (ips s) + mset (new_v4 env s) + mset (new_v6 env s) \<and>
    ip_count s' = ip_count s + length (new_v4 env s) + length (new_v6 env s) \<and>
    (v4_terminated s' \<longleftrightarrow> v4_terminated s \<or> env_v4 env \<noteq> Pending) \<and>
    (v6_terminated s' \<longleftrightarrow> v6_terminated s \<or> env_v6 env \<noteq> Pending) \<and> he_host s' = he_host s \<and> r \<noteq> Panic"
  proof (cases rule: he_poll_cases)
    case (stream b e st cs ev3)
    then have "dials ev3 = []" using poll_connections_ips by (intro dials_none) blast
    with stream show ?thesis by simp
  next
    case (dial b e cs ev3 t ev4)
    note d = dial_next_result [OF dial(4)]
    have "dials ev3 = []" using dial(2) poll_connections_ips by (intro dials_none) blast
    moreover have "dials t = []" using dial(6) by simp
    moreover have "mset (dials ev4) + mset (ips s') = mset (dials ev4 @ ips s')" by simp
    ultimately show ?thesis
      unfolding dial(5) using d by simp
  next
    case (wait cs ev3)
    then have "dials ev3 = []" using poll_connections_ips by (intro dials_none) blast
    with wait show ?thesis by simp
  qed simp
  then show "mset (dials ev) + mset (ips s') = mset (ips s) + mset (new_v4 env s) + mset (new_v6 env s)"
    and "ip_count s' = ip_count s + length (new_v4 env s) + length (new_v6 env s)"
    and "v4_terminated s' \<longleftrightarrow> v4_terminated s \<or> env_v4 env \<noteq> Pending"
    and "v6_terminated s' \<longleftrightarrow> v6_terminated s \<or> env_v6 env \<noteq> Pending"
    and "he_host s' = he_host s" and "r \<noteq> Panic" by blast+
qed

text \<open>The two errors of a poll.\<close>

lemma he_poll_error:
  assumes "he_poll env s = (s', ev, Normal (Ready (Inl x)))"
  shows "\<not> is_resolving s' \<and>
    (if ip_count s' = 0 then x = ResolveFailed (he_host s) else x = ConnectFailed (he_host s) \<and> ips s' = [])"
  using assms
proof (cases rule: he_poll_cases)
  case (dial b e cs ev3 t ev4)
  note d = dial_next_result [OF dial(4)]
  have "ips s' = []" "\<not> is_resolving ((resolved env s)\<lparr>connections := cs\<rparr>)" "x = ConnectFailed (he_host s)"
    using d(4) [OF refl] by simp_all
  with dial(1) d(5-7) show ?thesis by (auto simp: is_resolving_def)
qed simp_all

section \<open>Runs\<close>

text \<open>The states after a number of polls that were all pending, with the log of those polls.\<close>

inductive he_reach ::
  "he_state \<Rightarrow> ('e, 's) he_env list \<Rightarrow> he_state \<Rightarrow> he_event list \<Rightarrow> bool" for s0 where
  start: "he_reach s0 [] s0 []"
| poll: "he_reach s0 envs s evs \<Longrightarrow> he_poll env s = (s', ev, Normal Pending) \<Longrightarrow>
     he_reach s0 (envs @ [env]) s' (evs @ ev)"

text \<open>The answer of a lookup in a run: the first result that was not pending.\<close>

definition answer :: "('e + 'a list) poll list \<Rightarrow> 'a list" where
  "answer ps = (case dropWhile (\<lambda>p. p = Pending) ps of Ready (Inr addrs) # _ \<Rightarrow> addrs | _ \<Rightarrow> [])"

definition answered :: "('e + 'a list) poll list \<Rightarrow> bool" where
  "answered ps \<longleftrightarrow> (\<exists>p \<in> set ps. p \<noteq> Pending)"

definition addresses :: "('e, 's) he_env list \<Rightarrow> ip_addr list" where
  "addresses envs = map V4 (answer (map env_v4 envs)) @ map V6 (answer (map env_v6 envs))"

lemma answer_snoc:
  "answer (ps @ [p]) = (if answered ps then answer ps else case p of Ready (Inr addrs) \<Rightarrow> addrs | _ \<Rightarrow> [])"
proof (cases "answered ps")
  case True
  then have "dropWhile (\<lambda>p. p = Pending) (ps @ [p]) = dropWhile (\<lambda>p. p = Pending) ps @ [p]"
    "dropWhile (\<lambda>p. p = Pending) ps \<noteq> []"
    by (auto simp: answered_def dropWhile_append dropWhile_eq_Nil_conv)
  with True show ?thesis
    by (cases "dropWhile (\<lambda>p. p = Pending) ps") (simp_all add: answer_def split: poll.split sum.split)
next
  case False
  then show ?thesis
    by (auto simp: answered_def answer_def dropWhile_append dropWhile_eq_Nil_conv split: poll.split sum.split)
qed

lemma answered_snoc [simp]: "answered (ps @ [p]) \<longleftrightarrow> answered ps \<or> p \<noteq> Pending"
  by (auto simp: answered_def)

lemma answer_unanswered: "\<not> answered ps \<Longrightarrow> answer ps = []"
proof -
  assume "\<not> answered ps"
  then have "dropWhile (\<lambda>p. p = Pending) ps = []" by (simp add: answered_def dropWhile_eq_Nil_conv)
  then show ?thesis unfolding answer_def by (simp only: list.case)
qed

text \<open>The invariant of runs: the state follows from the answers of the lookups and the log.\<close>

definition he_inv :: "string \<Rightarrow> ('e, 's) he_env list \<Rightarrow> he_state \<Rightarrow> he_event list \<Rightarrow> bool" where
  "he_inv host envs s evs \<longleftrightarrow>
     mset (dials evs) + mset (ips s) = mset (addresses envs) \<and> ip_count s = length (addresses envs) \<and>
     v4_terminated s = answered (map env_v4 envs) \<and> v6_terminated s = answered (map env_v6 envs) \<and>
     he_host s = host"

lemma he_inv_poll:
  assumes "he_inv host envs s evs" and "he_poll env s = (s', ev, r)"
  shows "he_inv host (envs @ [env]) s' (evs @ ev)"
proof -
  note p = he_poll_step [OF assms(2)]
  have v4: "map V4 (answer (map env_v4 (envs @ [env]))) = map V4 (answer (map env_v4 envs)) @ new_v4 env s"
    using assms(1) answer_unanswered [of "map env_v4 envs"]
    by (auto simp: he_inv_def answer_snoc new_v4_def split: poll.split sum.split)
  have v6: "map V6 (answer (map env_v6 (envs @ [env]))) = map V6 (answer (map env_v6 envs)) @ new_v6 env s"
    using assms(1) answer_unanswered [of "map env_v6 envs"]
    by (auto simp: he_inv_def answer_snoc new_v6_def split: poll.split sum.split)
  have all: "mset (addresses (envs @ [env])) = mset (addresses envs) + mset (new_v4 env s) + mset (new_v6 env s)"
    unfolding addresses_def v4 v6 by simp
  then have "length (addresses (envs @ [env])) = length (addresses envs) + length (new_v4 env s) + length (new_v6 env s)"
    by (metis size_mset size_union)
  moreover have "mset (dials (evs @ ev)) + mset (ips s') = mset (addresses (envs @ [env]))"
    using p(1) all assms(1) unfolding he_inv_def by (metis add.assoc dials_append mset_append)
  ultimately show ?thesis using p(2-5) assms(1) by (simp add: he_inv_def)
qed

lemma he_reach_inv: "he_reach (he_new host p t) envs s evs \<Longrightarrow> he_inv host envs s evs"
proof (induction rule: he_reach.induct)
  case start
  show ?case by (simp add: he_inv_def he_new_def addresses_def answer_def answered_def)
qed (rule he_inv_poll)

text \<open>
  Pending polls that come in time: the executor polls at the latest when the timer expires.
\<close>

inductive he_prompt :: "he_state \<Rightarrow> ('e, 's) he_env list \<Rightarrow> he_state \<Rightarrow> bool" for s0 where
  start: "he_prompt s0 [] s0"
| poll: "he_prompt s0 envs s \<Longrightarrow> env_now env \<le> next_connection_timer s \<Longrightarrow>
     he_poll env s = (s', ev, Normal Pending) \<Longrightarrow> he_prompt s0 (envs @ [env]) s'"

text \<open>The time at which nothing is left to be dialled.\<close>

definition deadline :: "he_state \<Rightarrow> nat" where
  "deadline s = next_connection_timer s + 250 * length (ips s)"

text \<open>
  After the lookups, a pending poll either waits for the timer and changes nothing of it, or it
  has dialled at least one address and set the timer.
\<close>

lemma he_pending_progress:
  assumes "\<not> is_resolving s" and "he_poll env s = (s', ev, Normal Pending)"
  shows "\<not> is_resolving s' \<and>
    (env_now env < next_connection_timer s \<and> next_connection_timer s' = next_connection_timer s \<and> ips s' = ips s \<or>
     length (ips s') < length (ips s) \<and> next_connection_timer s' = env_now env + 250)"
proof -
  have none: "new_v4 env s = []" "new_v6 env s = []" "\<not> is_resolving (resolved env s)"
    using assms(1) by (simp_all add: new_v4_def new_v6_def is_resolving_def)
  have "\<not> is_resolving s'" using he_poll_step(3,4) [OF assms(2)] assms(1) by (simp add: is_resolving_def)
  moreover from assms(2) have "env_now env < next_connection_timer s \<and>
        next_connection_timer s' = next_connection_timer s \<and> ips s' = ips s \<or>
      length (ips s') < length (ips s) \<and> next_connection_timer s' = env_now env + 250"
  proof (cases rule: he_poll_cases)
    case (dial b e cs ev3 t ev4)
    let ?s = "(resolved env s)\<lparr>connections := cs\<rparr>"
    obtain d rest dev where l: "dial_loop env 0 (ips ?s) = (d, rest, dev)" by (metis prod.exhaust)
    obtain tried where t: "ips ?s = tried @ rest" "\<forall>a. d = Started a \<longrightarrow> a \<in> set tried"
      using dial_loop_prefix [OF l] by blast
    obtain a where a: "d = Started a"
      using dial(4) l none(3) by (cases d) (simp_all add: dial_next_def Let_def is_resolving_def)
    with t have "length rest < length (ips s)" using none by (cases tried) auto
    moreover have "ips s' = rest \<and> next_connection_timer s' = env_now env + 250"
      using dial(4) l a by (auto simp: dial_next_def Let_def start_attempt_eq)
    ultimately show ?thesis by simp
  qed (simp_all add: none)
  ultimately show ?thesis by blast
qed

lemma he_prompt_deadline:
  "he_prompt s0 envs s \<Longrightarrow> \<not> is_resolving s0 \<Longrightarrow>
   \<not> is_resolving s \<and> deadline s \<le> deadline s0 \<and> (\<forall>env \<in> set envs. env_now env < deadline s0)"
proof (induction rule: he_prompt.induct)
  case (poll envs s env s' ev)
  then have i: "\<not> is_resolving s" "deadline s \<le> deadline s0" "\<forall>env \<in> set envs. env_now env < deadline s0" by auto
  from he_pending_progress [OF i(1) poll.hyps(3)] i poll.hyps(2) show ?case
    by (auto simp: deadline_def)
qed simp

text \<open>An example: one IPv4 address, whose attempt stays pending.\<close>

definition slow_host :: "nat \<Rightarrow> (unit, unit) he_env" where
  "slow_host now = \<lparr>env_v4 = Ready (Inr [Ipv4Addr 192 0 2 1]), env_v6 = Ready (Inl ()),
     env_conn = (\<lambda>_. Pending), env_dial = (\<lambda>_ _. Pending), env_now = now\<rparr>"

definition slow_state :: he_state where
  "slow_state = \<lparr>v4_terminated = True, v6_terminated = True, ips = [], ip_count = 1,
     connections = [\<lparr>at_ip = V4 (Ipv4Addr 192 0 2 1), at_terminated = False\<rparr>],
     next_connection_timer = 250, he_host = ''x'', he_port = 80\<rparr>"

lemmas he_eval = he_poll_def poll_v4_def poll_v6_def dial_next_def start_attempt_def is_resolving_def
  connection_attempt_delay_def slow_host_def slow_state_def he_new_def live_def

lemma slow_first_poll:
  "he_poll (slow_host 0) (he_new ''x'' 80 0) =
     (slow_state, [PollV4, PollV6, Dial (V4 (Ipv4Addr 192 0 2 1)), PollTimer], Normal Pending)"
  by (simp add: he_eval)

lemma slow_live: "live (connections slow_state) j \<longleftrightarrow> j = 0"
  by (auto simp: he_eval)

lemma slow_reach: "he_reach (he_new ''x'' 80 0) [slow_host 0] slow_state
    [PollV4, PollV6, Dial (V4 (Ipv4Addr 192 0 2 1)), PollTimer]"
  using he_reach.poll [OF he_reach.start slow_first_poll] by simp

section \<open>Properties\<close>

text \<open>
  C23: every address the two lookups gave is dialled at most once and nothing else is
  dialled: after any run, what has been dialled and what is still waiting are together
  exactly the answers of the lookups.  No poll panics.
\<close>

theorem he_dials_answers_once:
  assumes "he_reach (he_new host p t) envs s evs" and "he_poll env s = (s', ev, r)"
  shows "mset (dials (evs @ ev)) + mset (ips s') = mset (addresses (envs @ [env])) \<and> r \<noteq> Panic"
  using he_inv_poll [OF he_reach_inv [OF assms(1)] assms(2)] he_poll_step(6) [OF assms(2)]
  by (simp add: he_inv_def)

theorem he_dials_answers_once_witness:
  "mset (dials [PollV4, PollV6, Dial (V4 (Ipv4Addr 192 0 2 1)), PollTimer]) + mset (ips slow_state) =
     mset (addresses [slow_host 0])"
  using he_dials_answers_once [OF he_reach.start slow_first_poll] by simp


lemma slow_second_poll:
  "\<exists>s' ev. he_poll (slow_host 250) slow_state = (s', ev, Normal (Ready (Inl (ConnectFailed ''x''))))"
  by (simp add: he_eval)


text \<open>
  The first running attempt that is found connected is the result of the poll,
  whatever the state of the other attempts, the lookups and the timer.
\<close>

theorem he_first_connected_wins:
  assumes "ip_count s \<noteq> 0" and "live (connections s) k" and "env_conn env k = Ready (Inr st)"
    and "\<And>j x. j < k \<Longrightarrow> live (connections s) j \<Longrightarrow> env_conn env j \<noteq> Ready (Inr x)"
  shows "snd (snd (he_poll env s)) = Normal (Ready (Inr st))"
proof -
  obtain b e m cs ev3 where p: "polled env s = ((b, e, m), cs, ev3)" by (metis prod.exhaust)
  have "m \<noteq> None"
  proof
    assume "m = None"
    note p [unfolded this]
    then show False using assms(2,3) poll_connections_stream by fastforce
  qed
  then obtain st' where "m = Some st'" by blast
  with p poll_connections_Some [of env 0 False False "connections s" b e st'] obtain k' where
    "live (connections s) k'" "env_conn env k' = Ready (Inr st')"
    "\<forall>j < k'. live (connections s) j \<longrightarrow> (\<forall>x. env_conn env j \<noteq> Ready (Inr x))" by auto
  with assms(2-4) have "st' = st" by (metis linorder_neqE_nat poll.inject sum.inject(2))
  obtain s' ev r where h: "he_poll env s = (s', ev, r)" by (metis prod.exhaust)
  from this p \<open>m = Some st'\<close> \<open>st' = st\<close> assms(1) show ?thesis
    by (cases rule: he_poll_cases) (simp_all add: h)
qed

theorem he_first_connected_wins_witness:
  "snd (snd (he_poll ((slow_host 100)\<lparr>env_conn := (\<lambda>_. Ready (Inr ()))\<rparr>) slow_state)) =
     Normal (Ready (Inr ()))"
  by (rule he_first_connected_wins [of _ 0]) (simp_all add: he_eval)

text \<open>
  C25: no wake-up is lost: when a poll is pending, every lookup that has not answered and
  every attempt that is still running has been polled in it, and so has the timer if an
  address is waiting to be dialled.
\<close>

theorem he_pending_registers_wakers:
  assumes "he_poll env s = (s', ev, Normal Pending)"
  shows "(v4_terminated s' \<or> PollV4 \<in> set ev) \<and> (v6_terminated s' \<or> PollV6 \<in> set ev) \<and>
    (\<forall>j. live (connections s) j \<longrightarrow> PollConn j \<in> set ev) \<and> (ips s' \<noteq> [] \<longrightarrow> PollTimer \<in> set ev)"
proof -
  have "(v4_terminated s' \<or> PollV4 \<in> set ev) \<and> (v6_terminated s' \<or> PollV6 \<in> set ev)"
    using assms he_poll_step(3,4) [OF assms]
    by (cases rule: he_poll_cases) (auto simp: lookup_events_def)
  moreover from assms have "(\<forall>j. live (connections s) j \<longrightarrow> PollConn j \<in> set ev) \<and>
      (ips s' \<noteq> [] \<longrightarrow> PollTimer \<in> set ev)"
  proof (cases rule: he_poll_cases)
    case (dial b e cs ev3 t ev4)
    with dial_next_result(3) [OF dial(4)] poll_connections_None [OF dial(2)] show ?thesis by simp
  next
    case (wait cs ev3)
    with poll_connections_None [OF wait(2)] show ?thesis by simp
  qed simp_all
  ultimately show ?thesis by blast
qed

theorem he_pending_registers_wakers_witness:
  "\<exists>s' ev. he_poll (slow_host 100) slow_state = (s', ev, Normal Pending) \<and> PollConn 0 \<in> set ev"
proof -
  obtain s' ev where "he_poll (slow_host 100) slow_state = (s', ev, Normal Pending)"
    by (simp add: he_eval)
  with he_pending_registers_wakers [OF this] show ?thesis by (auto simp: slow_live)
qed

text \<open>
  C26: attempts are paced: while some attempt is running and none has just failed, a poll
  dials nothing before the timer has expired, and a poll that starts an attempt sets the
  timer 250 ms ahead.
\<close>

theorem he_attempts_paced:
  assumes "he_poll env s = (s', ev, r)"
  shows "(dials ev \<noteq> [] \<longrightarrow>
      (\<forall>j. live (connections s) j \<longrightarrow> env_conn env j \<noteq> Pending) \<or>
      (\<exists>j e. live (connections s) j \<and> env_conn env j = Ready (Inl e)) \<or>
      next_connection_timer s \<le> env_now env) \<and>
    (length (connections s') = length (connections s) \<or>
      length (connections s') = Suc (length (connections s)) \<and>
      next_connection_timer s' = env_now env + 250)"
  using assms
proof (cases rule: he_poll_cases)
  case (stream b e st cs ev3)
  then have "dials ev3 = []" "length cs = length (connections s)"
    using poll_connections_ips [OF stream(2)] by (auto intro: dials_none dest: map_eq_imp_length_eq)
  with stream show ?thesis by simp
next
  case (dial b e cs ev3 t ev4)
  have "length cs = length (connections s)"
    using poll_connections_ips [OF dial(2)] by (auto dest: map_eq_imp_length_eq)
  with dial dial_next_result(9) [OF dial(4)] poll_connections_None [OF dial(2)] show ?thesis by auto
next
  case (wait cs ev3)
  then have "dials ev3 = []" "length cs = length (connections s)"
    using poll_connections_ips [OF wait(2)] by (auto intro: dials_none dest: map_eq_imp_length_eq)
  with wait show ?thesis by simp
qed simp

theorem he_attempts_paced_witness:
  "next_connection_timer slow_state = 0 + 250 \<and> length (connections slow_state) = 1"
  using he_attempts_paced [OF slow_first_poll] by (simp add: he_eval)

text \<open>
  C27: the future ends in time.  Once both lookups have answered, and as long as it is polled at
  the latest when its timer expires, it is pending only before a deadline: the expiry of the
  timer and 250 ms for each address not yet dialled.  A poll at the expiry of the timer ends it
  or dials an address, so it is polled that way at most once for each of them.
\<close>

theorem he_ends_in_time:
  fixes env :: "('e, 's) he_env"
  assumes "\<not> is_resolving s0" and "he_prompt s0 (envs :: ('e, 's) he_env list) s"
  shows "(\<forall>env \<in> set envs. env_now env < next_connection_timer s0 + 250 * length (ips s0)) \<and>
    (he_poll env s = (s', ev, r) \<and> next_connection_timer s \<le> env_now env \<longrightarrow>
      (\<exists>x. r = Normal (Ready x)) \<or> length (ips s') < length (ips s)) \<and>
    (he_poll env s = (s', ev, r) \<and> env_now env \<le> next_connection_timer s \<and>
      next_connection_timer s0 + 250 * length (ips s0) \<le> env_now env \<longrightarrow> (\<exists>x. r = Normal (Ready x)))"
proof -
  note run = he_prompt_deadline [OF assms(2,1)]
  have ready: "(\<exists>x. r = Normal (Ready x)) \<or> r = Normal Pending" if "he_poll env s = (s', ev, r)"
    using he_poll_step(6) [OF that] by (cases r rule: outcome.exhaust) (auto intro: poll.exhaust)
  have late: "r \<noteq> Normal Pending" if "he_poll env s = (s', ev, r)" "env_now env \<le> next_connection_timer s"
      "deadline s0 \<le> env_now env"
    using that he_prompt_deadline [OF he_prompt.poll [OF assms(2), of env s' ev] assms(1)] by fastforce
  have "length (ips s') < length (ips s)" if "he_poll env s = (s', ev, Normal Pending)"
      "next_connection_timer s \<le> env_now env"
    using he_pending_progress [OF _ that(1)] run that(2) by auto
  with run ready late show ?thesis unfolding deadline_def by blast
qed

theorem he_ends_in_time_witness:
  "\<not> is_resolving slow_state \<and> env_now (slow_host 100) < 250 \<and>
   (\<exists>x. snd (snd (he_poll (slow_host 250) slow_state)) = Normal (Ready x))"
proof -
  have r: "\<not> is_resolving slow_state" by (simp add: he_eval)
  obtain s' ev where p: "he_poll (slow_host 100) slow_state = (s', ev, Normal Pending)" by (simp add: he_eval)
  have "env_now (slow_host 100) \<le> next_connection_timer slow_state" by (simp add: he_eval)
  from he_prompt.poll [OF he_prompt.start this p] have h: "he_prompt slow_state [slow_host 100] s'" by simp
  have t: "next_connection_timer slow_state = 250" "ips slow_state = []" "env_now (slow_host n) = n" for n
    by (simp_all add: slow_state_def slow_host_def)
  obtain s2 ev2 q where p2: "he_poll (slow_host 250) slow_state = (s2, ev2, q)" by (metis prod.exhaust)
  have "\<exists>x. q = Normal (Ready x)"
    by (rule he_ends_in_time [OF r he_prompt.start, of "slow_host 250" s2 ev2 q, THEN conjunct2, THEN conjunct2, THEN mp]) (use p2 t in simp)
  moreover have "\<forall>env \<in> set [slow_host 100]. env_now env < next_connection_timer slow_state + 250 * length (ips slow_state)"
    by (rule he_ends_in_time [OF r h, THEN conjunct1])
  ultimately show ?thesis using r p2 t by simp
qed

text \<open>
  C28: the future gives up on attempts that are still running: once both lookups have
  answered and all addresses are in use, the expiry of the timer makes the poll fail,
  although a running attempt could still connect.  A host with a single address therefore
  has 250 ms to accept the connection.
\<close>

theorem he_abandons_running_attempts:
  assumes "ip_count s \<noteq> 0" and "\<not> is_resolving s" and "ips s = []"
    and "live (connections s) k"
    and "\<And>j. live (connections s) j \<Longrightarrow> env_conn env j = Pending"
    and "next_connection_timer s \<le> env_now env"
  shows "snd (snd (he_poll env s)) = Normal (Ready (Inl (ConnectFailed (he_host s))))"
proof -
  obtain s' ev r where h: "he_poll env s = (s', ev, r)" by (metis prod.exhaust)
  have none: "new_v4 env s = []" "new_v6 env s = []" "\<not> is_resolving (resolved env s)"
    using assms(2) by (simp_all add: new_v4_def new_v6_def is_resolving_def)
  from h show ?thesis
  proof (cases rule: he_poll_cases)
    case (stream b e st cs ev3)
    with poll_connections_Some [OF stream(2)] assms(5) show ?thesis by auto
  next
    case (dial b e cs ev3 t ev4)
    have "dial_next env ((resolved env s)\<lparr>connections := cs\<rparr>) =
        ((resolved env s)\<lparr>connections := cs, ips := []\<rparr>, [], Normal (Ready (Inl (ConnectFailed (he_host s)))))"
      using none assms(3) by (simp add: dial_next_def Let_def is_resolving_def)
    with dial(4) h show ?thesis by simp
  qed (use assms(1,6) in simp_all)
qed

theorem he_abandons_running_attempts_witness:
  "live (connections slow_state) 0 \<and>
   snd (snd (he_poll (slow_host 250) slow_state)) = Normal (Ready (Inl (ConnectFailed ''x'')))"
  using he_abandons_running_attempts [of slow_state 0 "slow_host 250"] by (auto simp: he_eval)

end
