(* ===== verification/Byte_Io.thy ===== *)
theory Byte_Io
  imports Dandelion_Prelude
begin

text \<open>
  Byte-stream programs.  The handshakes of dandelion talk to a peer only through
  \<^verbatim>\<open>read_exact\<close> and \<^verbatim>\<open>write_all\<close> of an \<^verbatim>\<open>impl Io\<close> (\<^verbatim>\<open>core/io.rs\<close>); they are modelled as
  trees of those calls (\<open>io_prog\<close>), with every early return of the source a leaf.

  A program is given three meanings: \<open>exec\<close> runs it on any implementation of the two
  calls, a parameter whose documented behaviour is the locale \<open>byte_io\<close>; \<open>run\<close> runs it
  on the bytes the peer will send and collects the bytes it writes; and \<open>duplex_step\<close>
  runs two programs against each other over two queues, interleaved in any order.
\<close>

section \<open>Programs\<close>

datatype ('e, 'a) io_prog =
    Return 'a
  | Fail 'e
  | ReadExact nat "bytes \<Rightarrow> ('e, 'a) io_prog"
  | WriteAll bytes "('e, 'a) io_prog"

primrec io_bind :: "('e, 'a) io_prog \<Rightarrow> ('a \<Rightarrow> ('e, 'b) io_prog) \<Rightarrow> ('e, 'b) io_prog" where
  "io_bind (Return a) f = f a"
| "io_bind (Fail e) f = Fail e"
| "io_bind (ReadExact n k) f = ReadExact n (\<lambda>bs. io_bind (k bs) f)"
| "io_bind (WriteAll bs p) f = WriteAll bs (io_bind p f)"

text \<open>A program as a part of one with other errors.\<close>

primrec io_map_error :: "('e \<Rightarrow> 'f) \<Rightarrow> ('e, 'a) io_prog \<Rightarrow> ('f, 'a) io_prog" where
  "io_map_error f (Return a) = Return a"
| "io_map_error f (Fail e) = Fail (f e)"
| "io_map_error f (ReadExact n k) = ReadExact n (\<lambda>bs. io_map_error f (k bs))"
| "io_map_error f (WriteAll bs p) = WriteAll bs (io_map_error f p)"

text \<open>How a program can fail: by a return of its own, or by an error of a call.\<close>

datatype ('e, 'i) failure = App 'e | Io 'i

lemma map_error_bind: "io_map_error f (io_bind p k) = io_bind (io_map_error f p) (\<lambda>a. io_map_error f (k a))"
  by (induction p) auto

lemma map_error_id [simp]: "io_map_error (\<lambda>e. e) p = p"
  by (induction p) auto

section \<open>Running on an implementation of the calls\<close>

record ('i, 'c) io_ops =
  read_exact :: "nat \<Rightarrow> 'c \<Rightarrow> ('i + bytes) \<times> 'c"
  write_all :: "bytes \<Rightarrow> 'c \<Rightarrow> ('i + unit) \<times> 'c"

primrec exec :: "('i, 'c) io_ops \<Rightarrow> ('e, 'a) io_prog \<Rightarrow> 'c \<Rightarrow> (('e, 'i) failure + 'a) \<times> 'c" where
  "exec ops (Return a) c = (Inr a, c)"
| "exec ops (Fail e) c = (Inl (App e), c)"
| "exec ops (ReadExact n k) c =
     (case read_exact ops n c of
        (Inl i, c') \<Rightarrow> (Inl (Io i), c')
      | (Inr bs, c') \<Rightarrow> exec ops (k bs) c')"
| "exec ops (WriteAll bs p) c =
     (case write_all ops bs c of
        (Inl i, c') \<Rightarrow> (Inl (Io i), c')
      | (Inr _, c') \<Rightarrow> exec ops p c')"

section \<open>Running on the peer's bytes\<close>

datatype eof = UnexpectedEof

primrec run :: "('e, 'a) io_prog \<Rightarrow> bytes \<Rightarrow> (('e, eof) failure + 'a) \<times> bytes \<times> bytes" where
  "run (Return a) i = (Inr a, i, [])"
| "run (Fail e) i = (Inl (App e), i, [])"
| "run (ReadExact n k) i =
     (if n \<le> length i then run (k (take n i)) (drop n i) else (Inl (Io UnexpectedEof), [], []))"
| "run (WriteAll bs p) i = (case run p i of (r, i', out) \<Rightarrow> (r, i', bs @ out))"

lemma run_bind:
  "run (io_bind p f) i =
     (case run p i of
        (Inr a, i', out) \<Rightarrow> (case run (f a) i' of (r, i'', out') \<Rightarrow> (r, i'', out @ out'))
      | (Inl e, i', out) \<Rightarrow> (Inl e, i', out))"
  by (induction p arbitrary: i) (auto split: prod.splits sum.splits)

lemma run_map_error:
  "run (io_map_error f p) i =
     (case run p i of
        (Inr a, i', out) \<Rightarrow> (Inr a, i', out)
      | (Inl (App e), i', out) \<Rightarrow> (Inl (App (f e)), i', out)
      | (Inl (Io x), i', out) \<Rightarrow> (Inl (Io x), i', out))"
  by (induction p arbitrary: i) (auto split: prod.splits sum.splits failure.splits)

lemma run_rest_suffix: "run p i = (Inr a, rest, out) \<Longrightarrow> \<exists>u. i = u @ rest"
proof (induction p arbitrary: i out)
  case (ReadExact n k)
  then have "n \<le> length i" and "run (k (take n i)) (drop n i) = (Inr a, rest, out)"
    by (auto split: if_splits)
  with ReadExact.IH [OF rangeI] obtain u where "drop n i = u @ rest" by blast
  then show ?case by (metis append_assoc append_take_drop_id)
qed (auto split: prod.splits)

text \<open>More input changes nothing but what is left over.\<close>

lemma run_extend: "run p i = (Inr a, rest, out) \<Longrightarrow> run p (i @ x) = (Inr a, rest @ x, out)"
proof (induction p arbitrary: i out)
  case (ReadExact n k)
  then have n: "n \<le> length i" and r: "run (k (take n i)) (drop n i) = (Inr a, rest, out)"
    by (auto split: if_splits)
  then show ?case using ReadExact.IH [OF rangeI r] by simp
qed (auto split: prod.splits)

section \<open>The interface of a byte channel\<close>

text \<open>
  What the calls promise: \<^verbatim>\<open>read_exact\<close> gives the next bytes when there are enough of
  them and an error otherwise; \<^verbatim>\<open>write_all\<close> writes all the bytes or fails.
  \<open>inp\<close> are the bytes still to arrive, \<open>out\<close> those written so far.
\<close>

locale byte_io =
  fixes ops :: "('i, 'c) io_ops"
    and inp :: "'c \<Rightarrow> bytes"
    and out :: "'c \<Rightarrow> bytes"
  assumes read_enough: "n \<le> length (inp c) \<Longrightarrow>
      \<exists>c'. read_exact ops n c = (Inr (take n (inp c)), c') \<and> inp c' = drop n (inp c) \<and> out c' = out c"
    and read_short: "length (inp c) < n \<Longrightarrow> \<exists>i c'. read_exact ops n c = (Inl i, c') \<and> out c' = out c"
    and write_result: "write_all ops bs c = (Inr u, c') \<Longrightarrow> inp c' = inp c \<and> out c' = out c @ bs"
begin

text \<open>A run that succeeds on the channel is a run on the bytes of the peer.\<close>

lemma exec_ok_run:
  "exec ops p c = (Inr a, c') \<Longrightarrow> \<exists>o'. run p (inp c) = (Inr a, inp c', o') \<and> out c' = out c @ o'"
proof (induction p arbitrary: c)
  case (ReadExact n k)
  show ?case
  proof (cases "n \<le> length (inp c)")
    case True
    then obtain d where d: "read_exact ops n c = (Inr (take n (inp c)), d)" "inp d = drop n (inp c)"
      "out d = out c" using read_enough by blast
    with ReadExact.prems have "exec ops (k (take n (inp c))) d = (Inr a, c')" by simp
    from ReadExact.IH [OF rangeI this] d True show ?thesis by simp
  next
    case False
    then have "length (inp c) < n" by simp
    from read_short [OF this] ReadExact.prems show ?thesis by auto
  qed
next
  case (WriteAll bs p)
  obtain u d where d: "write_all ops bs c = (Inr u, d)" "exec ops p d = (Inr a, c')"
    using WriteAll.prems by (auto split: prod.splits sum.splits)
  with WriteAll.IH [OF d(2)] write_result [OF d(1)] show ?case by (auto split: prod.splits)
qed auto

end

text \<open>A channel whose peer goes on reading: no write fails.\<close>

locale reliable_io = byte_io +
  assumes write_ok: "\<exists>c'. write_all ops bs c = (Inr (), c')"
begin

lemma run_ok_exec:
  "run p (inp c) = (Inr a, rest, o') \<Longrightarrow>
   \<exists>c'. exec ops p c = (Inr a, c') \<and> inp c' = rest \<and> out c' = out c @ o'"
proof (induction p arbitrary: c o')
  case (ReadExact n k)
  then have n: "n \<le> length (inp c)" and r: "run (k (take n (inp c))) (drop n (inp c)) = (Inr a, rest, o')"
    by (auto split: if_splits)
  from read_enough [OF n] obtain d where d: "read_exact ops n c = (Inr (take n (inp c)), d)"
    "inp d = drop n (inp c)" "out d = out c" by blast
  with r ReadExact.IH [OF rangeI, of "take n (inp c)" d o'] show ?case by simp
next
  case (WriteAll bs p)
  obtain d where d: "write_all ops bs c = (Inr (), d)" using write_ok by blast
  obtain o1 where o1: "run p (inp c) = (Inr a, rest, o1)" "o' = bs @ o1"
    using WriteAll.prems by (auto split: prod.splits)
  with WriteAll.IH [of d o1] d write_result [OF d] show ?case by auto
qed auto

lemma run_fail_exec:
  "run p (inp c) = (Inl (App e), rest, o') \<Longrightarrow>
   \<exists>c'. exec ops p c = (Inl (App e), c') \<and> out c' = out c @ o'"
proof (induction p arbitrary: c o')
  case (ReadExact n k)
  then have n: "n \<le> length (inp c)"
    and r: "run (k (take n (inp c))) (drop n (inp c)) = (Inl (App e), rest, o')"
    by (auto split: if_splits)
  from read_enough [OF n] obtain d where d: "read_exact ops n c = (Inr (take n (inp c)), d)"
    "inp d = drop n (inp c)" "out d = out c" by blast
  with r ReadExact.IH [OF rangeI, of "take n (inp c)" d o'] show ?case by simp
next
  case (WriteAll bs p)
  obtain d where d: "write_all ops bs c = (Inr (), d)" using write_ok by blast
  obtain o1 where o1: "run p (inp c) = (Inl (App e), rest, o1)" "o' = bs @ o1"
    using WriteAll.prems by (auto split: prod.splits)
  with WriteAll.IH [of d o1] d write_result [OF d] show ?case by auto
qed auto

end

text \<open>The channel that is its two byte lists.\<close>

definition script_io :: "(eof, bytes \<times> bytes) io_ops" where
  "script_io = \<lparr>
     read_exact = (\<lambda>n (i, o'). if n \<le> length i then (Inr (take n i), (drop n i, o'))
                               else (Inl UnexpectedEof, ([], o'))),
     write_all = (\<lambda>bs (i, o'). (Inr (), (i, o' @ bs)))\<rparr>"

interpretation script_io: reliable_io script_io fst snd
  by unfold_locales (auto simp: script_io_def split: prod.splits)

section \<open>Two programs against each other\<close>

text \<open>The two programs, the queue to the right one and the queue to the left one.\<close>

datatype ('e, 'a, 'f, 'b) duplex = Duplex "('e, 'a) io_prog" "('f, 'b) io_prog" bytes bytes

inductive duplex_step :: "('e, 'a, 'f, 'b) duplex \<Rightarrow> ('e, 'a, 'f, 'b) duplex \<Rightarrow> bool" where
  left_write: "duplex_step (Duplex (WriteAll bs p) q r l) (Duplex p q (r @ bs) l)"
| left_read: "n \<le> length l \<Longrightarrow>
     duplex_step (Duplex (ReadExact n k) q r l) (Duplex (k (take n l)) q r (drop n l))"
| right_write: "duplex_step (Duplex p (WriteAll bs q) r l) (Duplex p q r (l @ bs))"
| right_read: "n \<le> length r \<Longrightarrow>
     duplex_step (Duplex p (ReadExact n k) r l) (Duplex p (k (take n r)) (drop n r) l)"

inductive_cases duplex_stepE: "duplex_step (Duplex p q r l) t"
inductive_simps duplex_step_done: "duplex_step (Duplex (Return a) (Return b) r l) t"

text \<open>A number of steps.\<close>

inductive duplex_steps :: "nat \<Rightarrow> ('e, 'a, 'f, 'b) duplex \<Rightarrow> ('e, 'a, 'f, 'b) duplex \<Rightarrow> bool" where
  none: "duplex_steps 0 s s"
| more: "duplex_step s t \<Longrightarrow> duplex_steps n t u \<Longrightarrow> duplex_steps (Suc n) s u"

inductive_cases duplex_steps_0E: "duplex_steps 0 s t"
inductive_cases duplex_steps_SucE: "duplex_steps (Suc n) s t"

text \<open>
  The two programs are deterministic and each queue has one reader and one writer, so
  the order of the steps does not matter: steps have the diamond property, and a system
  that can finish in some order finishes in every order.
\<close>

lemma right_read_append:
  "n \<le> length r \<Longrightarrow>
   duplex_step (Duplex p (ReadExact n k) (r @ bs) l) (Duplex p (k (take n r)) (drop n r @ bs) l)"
  using duplex_step.right_read [of n "r @ bs"] by simp

lemma left_read_append:
  "n \<le> length l \<Longrightarrow>
   duplex_step (Duplex (ReadExact n k) q r (l @ bs)) (Duplex (k (take n l)) q r (drop n l @ bs))"
  using duplex_step.left_read [of n "l @ bs"] by simp

lemma duplex_diamond:
  assumes "duplex_step s t" and "duplex_step s u" and "t \<noteq> u"
  shows "\<exists>w. duplex_step t w \<and> duplex_step u w"
proof -
  obtain p q r l where s: "s = Duplex p q r l" by (cases s)
  from assms show ?thesis
    unfolding s
    by (elim duplex_stepE; simp)
      (blast intro: duplex_step.intros right_read_append left_read_append)+
qed

lemma duplex_strip:
  "duplex_steps n s f \<Longrightarrow> (\<And>t. \<not> duplex_step f t) \<Longrightarrow> duplex_step s t \<Longrightarrow>
   \<exists>m. n = Suc m \<and> duplex_steps m t f"
proof (induction arbitrary: t rule: duplex_steps.induct)
  case (more s t' n f)
  show ?case
  proof (cases "t = t'")
    case False
    with duplex_diamond [OF more.prems(2) more.hyps(1)] obtain w
      where w: "duplex_step t w" "duplex_step t' w" by blast
    from more.IH [OF more.prems(1) w(2)] obtain m where "n = Suc m" "duplex_steps m w f" by blast
    with w(1) show ?thesis by (auto intro: duplex_steps.more)
  qed (use more.hyps in auto)
qed simp

text \<open>
  If the system can reach a state without further steps, then every run is at most that
  long and goes on to that state: no order of steps deadlocks or ends elsewhere.
\<close>

lemma duplex_confluent:
  "duplex_steps m s t \<Longrightarrow> duplex_steps n s f \<Longrightarrow> (\<And>t. \<not> duplex_step f t) \<Longrightarrow>
   m \<le> n \<and> duplex_steps (n - m) t f"
proof (induction arbitrary: n rule: duplex_steps.induct)
  case (more s t m u)
  from duplex_strip [OF more.prems(1,2) more.hyps(1)] obtain n'
    where n': "n = Suc n'" "duplex_steps n' t f" by blast
  with more.IH [OF n'(2) more.prems(2)] show ?case by simp
qed simp

lemma duplex_steps_trans:
  "duplex_steps m s t \<Longrightarrow> duplex_steps n t u \<Longrightarrow> duplex_steps (m + n) s u"
  by (induction rule: duplex_steps.induct) (auto intro: duplex_steps.more)

end
