(* ===== verification/Socks5_Acceptor.thy ===== *)
theory Socks5_Acceptor
  imports Byte_Io Endpoint
begin

text \<open>
  The SOCKS5 listener's handshake, \<^verbatim>\<open>core/acceptor/socks5.rs\<close>: it reads the greeting,
  answers with the no-authentication method, reads the CONNECT request and returns the
  requested endpoint together with the future that sends the success reply.  The model
  is the program of reads and writes with the source's checks in their order.

  The theorems say which byte sequences are accepted, with which endpoint, and that
  nothing but the method selection is written before the caller runs the reply.
\<close>

section \<open>Definitions\<close>

datatype socks5_error =
    UnsupportedVersion u8
  | NoMethods
  | NoAuthNotOffered
  | UnsupportedCommand u8
  | InvalidDomain
  | UnsupportedAddressType u8
  | Unreachable

datatype ip_or_domain = Ip ip_addr | DomainName string

text \<open>The match on the address type; \<open>k\<close> is the rest of the handshake.\<close>

definition read_target ::
  "u8 \<Rightarrow> (ip_or_domain \<Rightarrow> (socks5_error, 'a) io_prog) \<Rightarrow> (socks5_error, 'a) io_prog" where
  "read_target request_type k =
     (if request_type = 1 then
        ReadExact 4 (\<lambda>buf. k (Ip (V4 (ipv4_of_octets buf))))
      else if request_type = 3 then
        ReadExact 1 (\<lambda>len. ReadExact (unat (len ! 0)) (\<lambda>buf.
          case from_utf8 buf of
            None \<Rightarrow> Fail InvalidDomain
          | Some domain \<Rightarrow> k (DomainName domain)))
      else if request_type = 4 then
        ReadExact 16 (\<lambda>buf. k (Ip (V6 (ipv6_of_octets buf))))
      else Fail (UnsupportedAddressType request_type))"

definition target_endpoint :: "ip_or_domain \<Rightarrow> u16 \<Rightarrow> endpoint" where
  "target_endpoint t p = (case t of
     DomainName d \<Rightarrow> new_from_domain d p
   | Ip ip \<Rightarrow> new_from_addr (socket_addr_new ip p))"

definition socks5_response :: "u8 \<Rightarrow> bytes option" where
  "socks5_response request_type =
     (if request_type = 1 \<or> request_type = 3 then Some [5, 0, 0, 1, 0, 0, 0, 0, 0, 0]
      else if request_type = 4 then
        Some [5, 0, 0, 4, 0, 0, 0, 0, 0, 0, 0, 0, 0, 0, 0, 0, 0, 0, 0, 0, 0, 0]
      else None)"

definition socks5_handshake ::
  "(socks5_error, endpoint \<times> (socks5_error, unit) io_prog) io_prog" where
  "socks5_handshake =
     ReadExact 2 (\<lambda>buf.
     if buf ! 0 \<noteq> 5 then Fail (UnsupportedVersion (buf ! 0))
     else if buf ! 1 = 0 then Fail NoMethods
     else ReadExact (unat (buf ! 1)) (\<lambda>methods.
     if 0 \<notin> set methods then Fail NoAuthNotOffered
     else WriteAll [5, 0] (
     ReadExact 4 (\<lambda>buf.
     if buf ! 0 \<noteq> 5 then Fail (UnsupportedVersion (buf ! 0))
     else if buf ! 1 \<noteq> 1 then Fail (UnsupportedCommand (buf ! 1))
     else read_target (buf ! 3) (\<lambda>target.
     ReadExact 2 (\<lambda>port.
     case socks5_response (buf ! 3) of
       None \<Rightarrow> Fail Unreachable
     | Some response \<Rightarrow>
         Return (target_endpoint target (u16_from_be_bytes (port ! 0) (port ! 1)),
                 WriteAll response (Return ()))))))))"

section \<open>The protocol\<close>

text \<open>The bytes of a greeting that offers methods, and of a CONNECT request for a target.\<close>

definition greeting :: "bytes \<Rightarrow> bytes" where
  "greeting methods = [5, of_nat (length methods)] @ methods"

definition greeting_ok :: "bytes \<Rightarrow> bool" where
  "greeting_ok methods \<longleftrightarrow> 0 \<in> set methods \<and> length methods < 256"

fun address_bytes :: "ip_or_domain \<Rightarrow> bytes" where
  "address_bytes (Ip (V4 a)) = 1 # ipv4_octets a"
| "address_bytes (DomainName d) = [3, of_nat (length d)] @ as_bytes d"
| "address_bytes (Ip (V6 a)) = 4 # ipv6_octets a"

definition target_ok :: "ip_or_domain \<Rightarrow> bool" where
  "target_ok t = (case t of DomainName d \<Rightarrow> rust_str d \<and> length d < 256 | Ip _ \<Rightarrow> True)"

definition request :: "u8 \<Rightarrow> ip_or_domain \<Rightarrow> u16 \<Rightarrow> bytes" where
  "request reserved t p = [5, 1, reserved] @ address_bytes t @ u16_to_be_bytes p"

definition address_type :: "ip_or_domain \<Rightarrow> u8" where
  "address_type t = hd (address_bytes t)"

section \<open>Reading a target\<close>

lemma unat_of_nat_u8 [simp]: "n < 256 \<Longrightarrow> unat (of_nat n :: u8) = n"
  by (simp add: unat_of_nat)

lemma list_of_length_2: "length xs = 2 \<Longrightarrow> xs = [xs ! 0, xs ! 1]"
  by (cases xs; cases "tl xs") (auto simp: numeral_2_eq_2)

lemma ipv4_octets_of_octets: "length bs = 4 \<Longrightarrow> ipv4_octets (ipv4_of_octets bs) = bs"
  by (auto simp: ipv4_of_octets_def numeral_eq_Suc length_Suc_conv)

lemma ipv6_octets_of_octets: "length bs = 16 \<Longrightarrow> ipv6_octets (ipv6_of_octets bs) = bs"
  by (auto simp: ipv6_of_octets_def ipv6_octets_def ipv6_of_segments_def u16_be_injective
      numeral_eq_Suc length_Suc_conv)

text \<open>A well-formed target is read in full and handed to the rest of the program.\<close>

lemma read_target_address:
  assumes "target_ok t"
  shows "run (read_target (address_type t) k) (tl (address_bytes t) @ i) = run (k t) i"
proof (cases t)
  case (Ip ip)
  then show ?thesis by (cases ip) (simp_all add: read_target_def address_type_def)
next
  case (DomainName d)
  with assms show ?thesis
    by (simp add: read_target_def address_type_def target_ok_def)
qed

text \<open>Conversely, whatever is read is the encoding of a well-formed target.\<close>

lemma read_target_sound:
  assumes "run (read_target ty k) i = (Inr a, rest, out)"
  obtains t i' where "target_ok t" and "ty = address_type t" and "i = tl (address_bytes t) @ i'"
    and "run (k t) i' = (Inr a, rest, out)"
proof -
  consider "ty = 1" | "ty = 3" | "ty = 4"
    using assms by (auto simp: read_target_def split: if_splits)
  then show ?thesis
  proof cases
    case 1
    then have "4 \<le> length i" "run (k (Ip (V4 (ipv4_of_octets (take 4 i))))) (drop 4 i) = (Inr a, rest, out)"
      using assms by (auto simp: read_target_def split: if_splits)
    with 1 show ?thesis
      by (intro that [of "Ip (V4 (ipv4_of_octets (take 4 i)))" "drop 4 i"])
        (simp_all add: target_ok_def address_type_def ipv4_octets_of_octets)
  next
    case 2
    then obtain n j where i: "i = n # j" and n: "unat n \<le> length j"
      using assms by (cases i) (auto simp: read_target_def split: if_splits)
    then obtain d where d: "from_utf8 (take (unat n) j) = Some d"
      "run (k (DomainName d)) (drop (unat n) j) = (Inr a, rest, out)"
      using assms 2 by (auto simp: read_target_def split: option.splits)
    from d(1) have u: "rust_str d" "take (unat n) j = as_bytes d" by (auto simp: from_utf8_Some)
    then have len: "length d = unat n" using n by (metis length_as_bytes length_take min.absorb2)
    moreover have "unat n < 256" using unsigned_less [of n, where ?'a = nat] by simp
    moreover have "as_bytes d @ drop (unat n) j = j"
      using append_take_drop_id [of "unat n" j] u(2) by simp
    ultimately show ?thesis
      using d(2) u(1) i 2
      by (intro that [of "DomainName d" "drop (unat n) j"]) (simp_all add: target_ok_def address_type_def)
  next
    case 3
    then have "16 \<le> length i" "run (k (Ip (V6 (ipv6_of_octets (take 16 i))))) (drop 16 i) = (Inr a, rest, out)"
      using assms by (auto simp: read_target_def split: if_splits)
    with 3 show ?thesis
      by (intro that [of "Ip (V6 (ipv6_of_octets (take 16 i)))" "drop 16 i"])
        (simp_all add: target_ok_def address_type_def ipv6_octets_of_octets)
  qed
qed

lemma socks5_response_address: "\<exists>r. socks5_response (address_type t) = Some r"
  by (cases t rule: address_bytes.cases) (simp_all add: socks5_response_def address_type_def)

section \<open>The handshake\<close>

text \<open>The part after the greeting.\<close>

definition socks5_request ::
  "(socks5_error, endpoint \<times> (socks5_error, unit) io_prog) io_prog" where
  "socks5_request =
     ReadExact 4 (\<lambda>buf.
     if buf ! 0 \<noteq> 5 then Fail (UnsupportedVersion (buf ! 0))
     else if buf ! 1 \<noteq> 1 then Fail (UnsupportedCommand (buf ! 1))
     else read_target (buf ! 3) (\<lambda>target.
     ReadExact 2 (\<lambda>port.
     case socks5_response (buf ! 3) of
       None \<Rightarrow> Fail Unreachable
     | Some response \<Rightarrow>
         Return (target_endpoint target (u16_from_be_bytes (port ! 0) (port ! 1)),
                 WriteAll response (Return ())))))"

definition socks5_reply :: "ip_or_domain \<Rightarrow> (socks5_error, unit) io_prog" where
  "socks5_reply t = WriteAll (the (socks5_response (address_type t))) (Return ())"

lemma handshake_request:
  "socks5_handshake = ReadExact 2 (\<lambda>buf.
     if buf ! 0 \<noteq> 5 then Fail (UnsupportedVersion (buf ! 0))
     else if buf ! 1 = 0 then Fail NoMethods
     else ReadExact (unat (buf ! 1)) (\<lambda>methods.
     if 0 \<notin> set methods then Fail NoAuthNotOffered
     else WriteAll [5, 0] socks5_request))"
  unfolding socks5_handshake_def socks5_request_def by (rule refl)

lemma port_bytes_read [simp]:
  "u16_from_be_bytes (u16_to_be_bytes p ! 0) (u16_to_be_bytes p ! Suc 0) = p"
  using u16_be_roundtrip [of p] by (simp add: u16_to_be_bytes_def)

lemma length_u16_to_be_bytes [simp]: "length (u16_to_be_bytes p) = 2"
  by (simp add: u16_to_be_bytes_def)

lemma address_bytes_split: "address_bytes t = address_type t # tl (address_bytes t)"
  by (cases t rule: address_bytes.cases) (simp_all add: address_type_def)

lemma request_accepted:
  assumes "target_ok t"
  shows "run socks5_request (request rsv t p @ rest) = (Inr (target_endpoint t p, socks5_reply t), rest, [])"
proof -
  obtain r where r: "socks5_response (address_type t) = Some r" using socks5_response_address by blast
  have "request rsv t p @ rest =
      [5, 1, rsv, address_type t] @ tl (address_bytes t) @ u16_to_be_bytes p @ rest"
    by (subst request_def, subst address_bytes_split) simp
  then show ?thesis
    using r by (simp add: socks5_request_def socks5_reply_def read_target_address [OF assms])
qed

lemma greeting_positive: "greeting_ok ms \<Longrightarrow> of_nat (length ms) \<noteq> (0 :: u8)"
  by (cases ms) (auto simp: greeting_ok_def unat_eq_zero [symmetric] simp del: of_nat_Suc)

lemma greeting_run:
  assumes "greeting_ok ms"
  shows "run socks5_handshake (greeting ms @ i) =
    (case run socks5_request i of (r, rest, out) \<Rightarrow> (r, rest, [5, 0] @ out))"
  using assms greeting_positive [OF assms]
  by (simp add: handshake_request greeting_def greeting_ok_def)

lemma handshake_accepts:
  assumes "greeting_ok ms" and "target_ok t"
  shows "run socks5_handshake (greeting ms @ request rsv t p @ rest) =
    (Inr (target_endpoint t p, socks5_reply t), rest, [5, 0])"
  using assms by (simp add: greeting_run request_accepted)

lemma request_sound:
  assumes "run socks5_request i = (Inr (e, fut), rest, out)"
  shows "\<exists>rsv t p. target_ok t \<and> i = request rsv t p @ rest \<and> e = target_endpoint t p \<and>
    fut = socks5_reply t \<and> out = []"
proof -
  let ?k = "\<lambda>target. ReadExact 2 (\<lambda>port. case socks5_response (i ! 3) of
       None \<Rightarrow> Fail Unreachable
     | Some response \<Rightarrow> Return (target_endpoint target (u16_from_be_bytes (port ! 0) (port ! 1)),
         WriteAll response (Return ())))"
  have i: "4 \<le> length i" "i ! 0 = 5" "i ! 1 = 1"
    and r: "run (read_target (i ! 3) ?k) (drop 4 i) = (Inr (e, fut), rest, out)"
    using assms by (auto simp: socks5_request_def split: if_splits)
  from r obtain t j where t: "target_ok t" "i ! 3 = address_type t" "drop 4 i = tl (address_bytes t) @ j"
    and k: "run (?k t) j = (Inr (e, fut), rest, out)"
    by (rule read_target_sound)
  let ?p = "u16_from_be_bytes (j ! 0) (j ! 1)"
  have j: "2 \<le> length j" using k by (auto split: if_splits)
  have res: "e = target_endpoint t ?p" "fut = socks5_reply t" "rest = drop 2 j" "out = []"
    using k j t(2) socks5_response_address [of t] by (auto simp: socks5_reply_def)
  have "take 2 j = u16_to_be_bytes ?p"
    using list_of_length_2 [of "take 2 j"] j by (simp add: u16_be_injective)
  then have "j = u16_to_be_bytes ?p @ rest" using res(3) by (metis append_take_drop_id)
  moreover have "take 4 i = [5, 1, i ! 2, address_type t]"
    using i t(2) by (intro nth_equalityI) (auto simp: numeral_eq_Suc less_Suc_eq)
  then have "i = [5, 1, i ! 2] @ address_bytes t @ j"
    using t(3) append_take_drop_id [of 4 i] by (subst address_bytes_split) simp
  ultimately show ?thesis using t(1) res unfolding request_def by (metis append_assoc)
qed

text \<open>Reading the request writes nothing, and no address type is without a reply.\<close>

lemma request_silent:
  assumes "run socks5_request i = (r, rest, out)"
  shows "out = [] \<and> r \<noteq> Inl (App Unreachable)"
  using assms
  by (auto simp: socks5_request_def read_target_def socks5_response_def
      split: if_splits option.splits)

text \<open>What the handshake wrote, and what it must have read before.\<close>

lemma handshake_written:
  assumes "run socks5_handshake i = (r, rest, out)"
  shows "(out = [] \<and> \<not> is_ok r \<and> r \<noteq> Inl (App Unreachable)) \<or>
    (\<exists>ms j. greeting_ok ms \<and> i = greeting ms @ j \<and>
       (\<exists>out'. run socks5_request j = (r, rest, out') \<and> out = [5, 0] @ out'))"
proof (cases "2 \<le> length i \<and> i ! 0 = 5 \<and> i ! 1 \<noteq> 0 \<and> unat (i ! 1) \<le> length i - 2 \<and>
    0 \<in> set (take (unat (i ! 1)) (drop 2 i))")
  case False
  then show ?thesis using assms by (auto simp: handshake_request split: if_splits)
next
  case True
  let ?ms = "take (unat (i ! 1)) (drop 2 i)"
  have "unat (i ! 1) < 256" using unsigned_less [of "i ! 1", where ?'a = nat] by simp
  then have ok: "greeting_ok ?ms" using True by (auto simp: greeting_ok_def)
  have "take 2 i = [5, i ! 1]" using True list_of_length_2 [of "take 2 i"] by simp
  moreover have "i = take 2 i @ ?ms @ drop (unat (i ! 1)) (drop 2 i)" by (metis append_take_drop_id)
  ultimately have "i = greeting ?ms @ drop (unat (i ! 1)) (drop 2 i)"
    using True by (simp add: greeting_def)
  moreover obtain out' where "run socks5_request (drop (unat (i ! 1)) (drop 2 i)) = (r, rest, out')"
    "out = [5, 0] @ out'"
    using assms greeting_run [OF ok, of "drop (unat (i ! 1)) (drop 2 i)"] calculation
    by (auto split: prod.splits)
  ultimately show ?thesis using ok by blast
qed

lemma handshake_sound:
  assumes "run socks5_handshake i = (Inr (e, fut), rest, out)"
  shows "\<exists>ms rsv t p. greeting_ok ms \<and> target_ok t \<and> i = greeting ms @ request rsv t p @ rest \<and>
    e = target_endpoint t p \<and> fut = socks5_reply t \<and> out = [5, 0]"
proof -
  obtain ms j out' where h: "greeting_ok ms" "i = greeting ms @ j"
    "run socks5_request j = (Inr (e, fut), rest, out')" "out = [5, 0] @ out'"
    using handshake_written [OF assms] by auto
  from request_sound [OF h(3)] h show ?thesis by auto
qed

section \<open>Properties\<close>

text \<open>
  C17: on any channel, the handshake succeeds only on a well-formed greeting that offers
  no-authentication followed by a CONNECT request; the endpoint is exactly the requested
  one, exactly those bytes have been consumed, and only the method selection has been
  written (the reply is left to the returned future).
\<close>

theorem socks5_handshake_sound:
  assumes "byte_io ops inp out" and "exec ops socks5_handshake c = (Inr (e, fut), c')"
  shows "\<exists>ms rsv t p. greeting_ok ms \<and> target_ok t \<and>
    inp c = greeting ms @ request rsv t p @ inp c' \<and> e = target_endpoint t p \<and>
    fut = socks5_reply t \<and> out c' = out c @ [5, 0]"
proof -
  obtain o' where r: "run socks5_handshake (inp c) = (Inr (e, fut), inp c', o')"
    "out c' = out c @ o'"
    using byte_io.exec_ok_run [OF assms] by blast
  with handshake_sound [OF r(1)] show ?thesis by auto
qed


definition example_hello :: bytes where
  "example_hello = [5, 2, 0, 1, 5, 1, 0, 1, 127, 0, 0, 1, 0, 80, 42]"

lemma example_hello_parts:
  "example_hello = greeting [0, 1] @ request 0 (Ip (V4 (Ipv4Addr 127 0 0 1))) 80 @ [42]"
  by (simp add: example_hello_def greeting_def request_def u16_to_be_bytes_def)


theorem socks5_handshake_sound_witness:
  "\<exists>e fut c'. exec script_io socks5_handshake (example_hello, []) = (Inr (e, fut), c') \<and>
     (\<exists>ms rsv t p. greeting_ok ms \<and> target_ok t \<and>
        example_hello = greeting ms @ request rsv t p @ fst c' \<and> e = target_endpoint t p \<and>
        snd c' = [5, 0])"
proof -
  have "run socks5_handshake (fst (example_hello, [])) =
      (Inr (target_endpoint (Ip (V4 (Ipv4Addr 127 0 0 1))) 80,
        socks5_reply (Ip (V4 (Ipv4Addr 127 0 0 1)))), [42], [5, 0])"
    unfolding example_hello_parts fst_conv
    by (rule handshake_accepts) (simp_all add: greeting_ok_def target_ok_def)
  from script_io.run_ok_exec [OF this] obtain e fut c'
    where ex: "exec script_io socks5_handshake (example_hello, []) = (Inr (e, fut), c')" by blast
  from socks5_handshake_sound [OF script_io.byte_io_axioms ex] ex show ?thesis by auto
qed

text \<open>
  Whatever the peer sends, the \<^verbatim>\<open>unreachable!\<close> branch of the reply table is not
  reached, and nothing is written unless a greeting offering no-authentication has been
  read.
\<close>

theorem socks5_handshake_safe:
  "fst (run socks5_handshake i) \<noteq> Inl (App Unreachable) \<and>
   (snd (snd (run socks5_handshake i)) = [] \<or>
    (\<exists>ms j. greeting_ok ms \<and> i = greeting ms @ j \<and> snd (snd (run socks5_handshake i)) = [5, 0]))"
proof -
  obtain r rest out where h: "run socks5_handshake i = (r, rest, out)"
    by (cases "run socks5_handshake i") auto
  show ?thesis
    using handshake_written [OF h] h by (auto dest!: request_silent)
qed

end
