(* ===== verification/Socks5_Connector.thy ===== *)
theory Socks5_Connector
  imports Byte_Io Endpoint
begin

text \<open>
  The outbound SOCKS5 connector, \<^verbatim>\<open>core/connector/socks5.rs\<close>: it offers
  no-authentication, sends a CONNECT request that always carries the host as a domain
  name (the text of the address for an IP endpoint), and reads the reply up to the first
  byte of the tunnelled stream.
\<close>

section \<open>Definitions\<close>

datatype socks5_connect_error =
    BadVersion u8
  | BadAuthMethod u8
  | DomainTooLong
  | Rejected u8
  | BadReserved
  | BadAddressType u8

text \<open>The rest of the reply: the bound address, whose length depends on its type.\<close>

definition read_bound_address :: "u8 \<Rightarrow> (socks5_connect_error, unit) io_prog" where
  "read_bound_address ty =
     (if ty = 1 then ReadExact 6 (\<lambda>_. Return ())
      else if ty = 3 then ReadExact 1 (\<lambda>len. ReadExact (unat (len ! 0) + 2) (\<lambda>_. Return ()))
      else if ty = 4 then ReadExact 18 (\<lambda>_. Return ())
      else Fail (BadAddressType ty))"

definition socks5_connect :: "endpoint \<Rightarrow> (socks5_connect_error, unit) io_prog" where
  "socks5_connect endpoint =
     WriteAll [5, 1, 0] (
     ReadExact 2 (\<lambda>buf.
     if buf ! 0 \<noteq> 5 then Fail (BadVersion (buf ! 0))
     else if buf ! 1 \<noteq> 0 then Fail (BadAuthMethod (buf ! 1))
     else if length (hostname endpoint) > 255 then Fail DomainTooLong
     else WriteAll [5, 1, 0, 3, of_nat (length (hostname endpoint))] (
     WriteAll (as_bytes (hostname endpoint)) (
     WriteAll (u16_to_be_bytes (port endpoint)) (
     ReadExact 4 (\<lambda>buf.
     if buf ! 0 \<noteq> 5 then Fail (BadVersion (buf ! 0))
     else if buf ! 1 \<noteq> 0 then Fail (Rejected (buf ! 1))
     else if buf ! 2 \<noteq> 0 then Fail BadReserved
     else read_bound_address (buf ! 3)))))))"

section \<open>What is sent and what is read\<close>

text \<open>The bytes of the CONNECT request.\<close>

definition connect_request_bytes :: "endpoint \<Rightarrow> bytes" where
  "connect_request_bytes e =
     [5, 1, 0, 3, of_nat (length (hostname e))] @ as_bytes (hostname e) @ u16_to_be_bytes (port e)"

text \<open>The replies that report success, by the type of the bound address.\<close>

inductive success_reply :: "bytes \<Rightarrow> bool" where
  v4: "length a = 6 \<Longrightarrow> success_reply ([5, 0, 0, 1] @ a)"
| name: "length a = unat n + 2 \<Longrightarrow> success_reply ([5, 0, 0, 3, n] @ a)"
| v6: "length a = 18 \<Longrightarrow> success_reply ([5, 0, 0, 4] @ a)"

lemma bound_address_ok:
  assumes "run (read_bound_address ty) i = (Inr (), rest, out)"
  shows "out = [] \<and> (\<exists>a. i = a @ rest \<and> success_reply ([5, 0, 0, ty] @ a))"
proof -
  consider "ty = 1" | "ty = 3" | "ty = 4"
    using assms by (auto simp: read_bound_address_def split: if_splits)
  then show ?thesis
  proof cases
    case 1
    then have "6 \<le> length i" "rest = drop 6 i" "out = []"
      using assms by (auto simp: read_bound_address_def split: if_splits)
    then show ?thesis
      using 1 success_reply.v4 [of "take 6 i"] by (intro conjI exI [of _ "take 6 i"]) simp_all
  next
    case 2
    then obtain n j where i: "i = n # j" by (cases i) (use assms in \<open>auto simp: read_bound_address_def\<close>)
    then have "unat n + 2 \<le> length j" "rest = drop (unat n + 2) j" "out = []"
      using assms 2 by (auto simp: read_bound_address_def split: if_splits)
    then show ?thesis
      using 2 i success_reply.name [of "take (unat n + 2) j" n]
      by (intro conjI exI [of _ "n # take (unat n + 2) j"]) simp_all
  next
    case 3
    then have "18 \<le> length i" "rest = drop 18 i" "out = []"
      using assms by (auto simp: read_bound_address_def split: if_splits)
    then show ?thesis
      using 3 success_reply.v6 [of "take 18 i"] by (intro conjI exI [of _ "take 18 i"]) simp_all
  qed
qed

lemma bound_address_reads:
  "success_reply ([5, 0, 0, ty] @ a) \<Longrightarrow> run (read_bound_address ty) (a @ rest) = (Inr (), rest, [])"
  by (erule success_reply.cases) (auto simp: read_bound_address_def)

lemma list_take4:
  "4 \<le> length (i :: 'a list) \<Longrightarrow> i = [i ! 0, i ! 1, i ! 2, i ! 3] @ drop 4 i"
  by (auto simp: numeral_eq_Suc Suc_le_length_iff)

lemma success_reply_shape: "success_reply r \<Longrightarrow> \<exists>ty a. r = [5, 0, 0, ty] @ a"
  by (erule success_reply.cases) auto

lemma connect_accepts:
  assumes "length (hostname e) \<le> 255" and "success_reply reply"
  shows "run (socks5_connect e) ([5, 0] @ reply @ rest) =
    (Inr (), rest, [5, 1, 0] @ connect_request_bytes e)"
proof -
  obtain ty a where r: "reply = [5, 0, 0, ty] @ a" using success_reply_shape [OF assms(2)] by blast
  have "run (read_bound_address ty) (a @ rest) = (Inr (), rest, [])"
    using assms(2) unfolding r by (rule bound_address_reads)
  then show ?thesis using assms(1) by (simp add: socks5_connect_def connect_request_bytes_def r)
qed

lemma connect_sound:
  assumes "run (socks5_connect e) i = (Inr (), rest, out)"
  shows "length (hostname e) \<le> 255 \<and> out = [5, 1, 0] @ connect_request_bytes e \<and>
    (\<exists>reply. i = [5, 0] @ reply @ rest \<and> success_reply reply)"
proof -
  obtain i2 where i: "i = [5, 0] @ i2" and len: "length (hostname e) \<le> 255"
    using assms
    by (cases i; cases "tl i") (auto simp: socks5_connect_def split: if_splits prod.splits)
  then have 4: "4 \<le> length i2" "i2 ! 0 = 5" "i2 ! 1 = 0" "i2 ! 2 = 0"
    and out: "\<exists>o'. out = [5, 1, 0] @ connect_request_bytes e @ o' \<and>
      run (read_bound_address (i2 ! 3)) (drop 4 i2) = (Inr (), rest, o')"
    using assms
    by (auto simp: socks5_connect_def connect_request_bytes_def split: if_splits prod.splits)
  then obtain o' where o': "out = [5, 1, 0] @ connect_request_bytes e @ o'"
    "run (read_bound_address (i2 ! 3)) (drop 4 i2) = (Inr (), rest, o')" by blast
  from bound_address_ok [OF o'(2)] obtain a where
    a: "o' = []" "drop 4 i2 = a @ rest" "success_reply ([5, 0, 0, i2 ! 3] @ a)" by blast
  have "i2 = ([5, 0, 0, i2 ! 3] @ a) @ rest" using list_take4 [OF 4(1)] 4 a(2) by simp
  then have "i = [5, 0] @ ([5, 0, 0, i2 ! 3] @ a) @ rest" using i by simp
  with a(3) have "\<exists>reply. i = [5, 0] @ reply @ rest \<and> success_reply reply" by blast
  then show ?thesis using a(1) o'(1) len by simp
qed

section \<open>Properties\<close>

text \<open>
  C21: on any channel, the connector reports success only after the peer selected
  no-authentication and sent a success reply, it has sent exactly the greeting and the
  CONNECT request for the endpoint, and it has read the reply to its last byte and
  nothing of the tunnelled stream behind it.
\<close>

theorem socks5_connect_sound:
  assumes "byte_io ops inp out" and "exec ops (socks5_connect e) c = (Inr (), c')"
  shows "length (hostname e) \<le> 255 \<and> out c' = out c @ [5, 1, 0] @ connect_request_bytes e \<and>
    (\<exists>reply. inp c = [5, 0] @ reply @ inp c' \<and> success_reply reply)"
proof -
  obtain o' where r: "run (socks5_connect e) (inp c) = (Inr (), inp c', o')" "out c' = out c @ o'"
    using byte_io.exec_ok_run [OF assms] by blast
  with connect_sound [OF r(1)] show ?thesis by auto
qed

theorem socks5_connect_sound_witness:
  "\<exists>c'. exec script_io (socks5_connect (Domain ''ab'' 80))
      ([5, 0, 5, 0, 0, 1, 0, 0, 0, 0, 0, 0, 9], []) = (Inr (), c') \<and>
    snd c' = [5, 1, 0] @ connect_request_bytes (Domain ''ab'' 80)"
proof -
  have "success_reply ([5, 0, 0, 1] @ [0, 0, 0, 0, 0, 0])" by (rule success_reply.v4) simp
  from connect_accepts [OF _ this, of "Domain ''ab'' 80" "[9]"]
  have "run (socks5_connect (Domain ''ab'' 80)) (fst ([5, 0, 5, 0, 0, 1, 0, 0, 0, 0, 0, 0, 9], [])) =
      (Inr (), [9], [5, 1, 0] @ connect_request_bytes (Domain ''ab'' 80))" by simp
  from script_io.run_ok_exec [OF this] obtain c' where
    "exec script_io (socks5_connect (Domain ''ab'' 80))
      ([5, 0, 5, 0, 0, 1, 0, 0, 0, 0, 0, 0, 9], []) = (Inr (), c')" by blast
  with socks5_connect_sound [OF script_io.byte_io_axioms this] show ?thesis by simp
qed

text \<open>
  A host longer than 255 bytes is refused with an error once the peer has selected
  no-authentication, and no request is sent for it.
\<close>

theorem socks5_connect_long_host:
  assumes "reliable_io ops inp out" and "255 < length (hostname e)" and "inp c = [5, 0] @ rest"
  shows "\<exists>c'. exec ops (socks5_connect e) c = (Inl (App DomainTooLong), c') \<and> out c' = out c @ [5, 1, 0]"
proof -
  have "run (socks5_connect e) (inp c) = (Inl (App DomainTooLong), rest, [5, 1, 0])"
    using assms(2,3) by (simp add: socks5_connect_def)
  then show ?thesis by (rule reliable_io.run_fail_exec [OF assms(1)])
qed

theorem socks5_connect_long_host_witness:
  "\<exists>c'. exec script_io (socks5_connect (Domain (replicate 256 (CHR ''a'')) 80)) ([5, 0], []) =
     (Inl (App DomainTooLong), c') \<and> snd c' = [5, 1, 0]"
  using socks5_connect_long_host [OF script_io.reliable_io_axioms,
      of "Domain (replicate 256 (CHR ''a'')) 80" "([5, 0], [])" "[]"] by simp

end
