(* ===== verification/Socks5_Tunnel.thy ===== *)
theory Socks5_Tunnel
  imports Socks5_Acceptor Socks5_Connector
begin

text \<open>
  The two SOCKS5 ends of dandelion against each other: a dandelion whose route is a
  SOCKS5 connector talking to a dandelion whose acceptor is SOCKS5.  Both run as the
  programs of their components over two byte queues, interleaved in any order.
\<close>

section \<open>Definitions\<close>

text \<open>The acceptor's side: the handshake, then the reply once the route is connected.\<close>

definition socks5_server :: "(socks5_error, endpoint) io_prog" where
  "socks5_server = io_bind socks5_handshake (\<lambda>(e, fut). io_bind fut (\<lambda>_. Return e))"

abbreviation socks5_tunnel ::
  "endpoint \<Rightarrow> (socks5_connect_error, unit, socks5_error, endpoint) duplex" where
  "socks5_tunnel e \<equiv> Duplex (socks5_connect e) socks5_server [] []"

section \<open>Runs of two programs\<close>

text \<open>
  A program that runs alone on the bytes of its queue, as the first part of a larger one,
  runs the same way inside the pair.
\<close>

lemma run_left:
  "run p l = (Inr a, l', out) \<Longrightarrow>
   \<exists>n. duplex_steps n (Duplex (io_bind p k) q r l) (Duplex (k a) q (r @ out) l')"
proof (induction p arbitrary: r l out)
  case (Return x)
  then show ?case by (auto intro: duplex_steps.none)
next
  case (ReadExact n f)
  then have n: "n \<le> length l" and f: "run (f (take n l)) (drop n l) = (Inr a, l', out)"
    by (auto split: if_splits)
  from ReadExact.IH [OF rangeI f] duplex_step.left_read [OF n] show ?case
    by (metis duplex_steps.more io_bind.simps(3))
next
  case (WriteAll bs p)
  then obtain o1 where o1: "run p l = (Inr a, l', o1)" "out = bs @ o1" by (auto split: prod.splits)
  from WriteAll.IH [OF o1(1), of "r @ bs"] obtain n where
    "duplex_steps n (Duplex (io_bind p k) q (r @ bs) l) (Duplex (k a) q (r @ out) l')"
    by (auto simp: o1(2))
  then show ?case by (auto intro: duplex_steps.more duplex_step.left_write)
qed simp

lemma run_right:
  "run q r = (Inr b, r', out) \<Longrightarrow>
   \<exists>n. duplex_steps n (Duplex p (io_bind q k) r l) (Duplex p (k b) r' (l @ out))"
proof (induction q arbitrary: r l out)
  case (Return x)
  then show ?case by (auto intro: duplex_steps.none)
next
  case (ReadExact n f)
  then have n: "n \<le> length r" and f: "run (f (take n r)) (drop n r) = (Inr b, r', out)"
    by (auto split: if_splits)
  from ReadExact.IH [OF rangeI f] duplex_step.right_read [OF n] show ?case
    by (metis duplex_steps.more io_bind.simps(3))
next
  case (WriteAll bs q)
  then obtain o1 where o1: "run q r = (Inr b, r', o1)" "out = bs @ o1" by (auto split: prod.splits)
  from WriteAll.IH [OF o1(1), of "l @ bs"] obtain n where
    "duplex_steps n (Duplex p (io_bind q k) r (l @ bs)) (Duplex p (k b) r' (l @ out))"
    by (auto simp: o1(2))
  then show ?case by (auto intro: duplex_steps.more duplex_step.right_write)
qed simp

section \<open>The parts of the two programs\<close>

definition connect_greets :: "(socks5_connect_error, unit) io_prog" where
  "connect_greets = WriteAll [5, 1, 0] (Return ())"

definition connect_requests :: "endpoint \<Rightarrow> (socks5_connect_error, unit) io_prog" where
  "connect_requests e =
     ReadExact 2 (\<lambda>buf.
     if buf ! 0 \<noteq> 5 then Fail (BadVersion (buf ! 0))
     else if buf ! 1 \<noteq> 0 then Fail (BadAuthMethod (buf ! 1))
     else if length (hostname e) > 255 then Fail DomainTooLong
     else WriteAll [5, 1, 0, 3, of_nat (length (hostname e))] (
     WriteAll (as_bytes (hostname e)) (
     WriteAll (u16_to_be_bytes (port e)) (Return ()))))"

definition connect_reads :: "(socks5_connect_error, unit) io_prog" where
  "connect_reads =
     ReadExact 4 (\<lambda>buf.
     if buf ! 0 \<noteq> 5 then Fail (BadVersion (buf ! 0))
     else if buf ! 1 \<noteq> 0 then Fail (Rejected (buf ! 1))
     else if buf ! 2 \<noteq> 0 then Fail BadReserved
     else read_bound_address (buf ! 3))"

lemma socks5_connect_parts:
  "socks5_connect e = io_bind connect_greets (\<lambda>_. io_bind (connect_requests e) (\<lambda>_. connect_reads))"
  unfolding socks5_connect_def connect_greets_def connect_requests_def connect_reads_def
  by (auto intro!: ext)

definition server_greets :: "(socks5_error, unit) io_prog" where
  "server_greets =
     ReadExact 2 (\<lambda>buf.
     if buf ! 0 \<noteq> 5 then Fail (UnsupportedVersion (buf ! 0))
     else if buf ! 1 = 0 then Fail NoMethods
     else ReadExact (unat (buf ! 1)) (\<lambda>methods.
     if 0 \<notin> set methods then Fail NoAuthNotOffered
     else WriteAll [5, 0] (Return ())))"

definition server_answers :: "(socks5_error, endpoint) io_prog" where
  "server_answers = io_bind socks5_request (\<lambda>(e, fut). io_bind fut (\<lambda>_. Return e))"

lemma socks5_server_parts: "socks5_server = io_bind server_greets (\<lambda>_. server_answers)"
  unfolding socks5_server_def handshake_request server_greets_def server_answers_def
  by (auto intro!: ext)

lemma io_bind_Return [simp]: "io_bind p Return = p"
  by (induction p) auto

definition host_ok :: "endpoint \<Rightarrow> bool" where
  "host_ok e \<longleftrightarrow> rust_str (hostname e) \<and> length (hostname e) \<le> 255"

lemma server_answers_run:
  assumes "host_ok e"
  shows "run server_answers (connect_request_bytes e) =
    (Inr (Domain (hostname e) (port e)), [], [5, 0, 0, 1, 0, 0, 0, 0, 0, 0])"
proof -
  let ?t = "DomainName (hostname e)"
  have "target_ok ?t" using assms by (simp add: target_ok_def host_ok_def)
  from request_accepted [OF this, of 0 "port e" "[]"] show ?thesis
    by (simp add: server_answers_def run_bind request_def connect_request_bytes_def
        target_endpoint_def new_from_domain_def socks5_reply_def address_type_def socks5_response_def)
qed

lemma io_bind_assoc: "io_bind (io_bind p f) g = io_bind p (\<lambda>a. io_bind (f a) g)"
  by (induction p) auto

text \<open>
  The handshake as the first part of two longer programs: both ends get past it, and leave
  nothing of it in the queues.
\<close>

lemma tunnel_passes:
  assumes "host_ok e"
  shows "\<exists>n. duplex_steps n
    (Duplex (io_bind (io_map_error f (socks5_connect e)) k) (io_bind (io_map_error g socks5_server) k') [] [])
    (Duplex (k ()) (k' (Domain (hostname e) (port e))) [] [])"
proof -
  let ?reads = "io_bind (io_map_error f connect_reads) k"
  let ?client = "io_bind (io_map_error f (connect_requests e)) (\<lambda>_. ?reads)"
  let ?answers = "io_bind (io_map_error g server_answers) k'"
  let ?done = "k' (Domain (hostname e) (port e))"
  let ?reply = "[5, 0, 0, 1, 0, 0, 0, 0, 0, 0] :: bytes"
  note parts = socks5_connect_parts socks5_server_parts io_bind_assoc map_error_bind
  have r1: "run (io_map_error f connect_greets) [] = (Inr (), [], [5, 1, 0])" by (simp add: run_map_error connect_greets_def)
  have r2: "run (io_map_error g server_greets) [5, 1, 0] = (Inr (), [], [5, 0])" by (simp add: run_map_error server_greets_def)
  have r3: "run (io_map_error f (connect_requests e)) [5, 0] = (Inr (), [], connect_request_bytes e)"
    using assms by (simp add: run_map_error connect_requests_def connect_request_bytes_def host_ok_def)
  have r4: "run (io_map_error g server_answers) (connect_request_bytes e) = (Inr (Domain (hostname e) (port e)), [], ?reply)"
    by (simp add: run_map_error server_answers_run [OF assms])
  have r5: "run (io_map_error f connect_reads) ?reply = (Inr (), [], [])"
    by (simp add: run_map_error connect_reads_def read_bound_address_def)
  obtain n1 where 1: "duplex_steps n1
      (Duplex (io_bind (io_map_error f (socks5_connect e)) k) (io_bind (io_map_error g socks5_server) k') [] [])
      (Duplex ?client (io_bind (io_map_error g socks5_server) k') [5, 1, 0] [])"
    using run_left [OF r1, of "\<lambda>_. ?client" "io_bind (io_map_error g socks5_server) k'" "[]"] by (auto simp: parts)
  obtain n2 where 2: "duplex_steps n2 (Duplex ?client (io_bind (io_map_error g socks5_server) k') [5, 1, 0] [])
      (Duplex ?client ?answers [] [5, 0])"
    using run_right [OF r2, of ?client "\<lambda>_. ?answers" "[]"] by (auto simp: parts)
  obtain n3 where 3: "duplex_steps n3 (Duplex ?client ?answers [] [5, 0])
      (Duplex ?reads ?answers (connect_request_bytes e) [])"
    using run_left [OF r3, of "\<lambda>_. ?reads" ?answers "[]"] by auto
  obtain n4 where 4: "duplex_steps n4 (Duplex ?reads ?answers (connect_request_bytes e) [])
      (Duplex ?reads ?done [] ?reply)"
    using run_right [OF r4, of ?reads k' "[]"] by auto
  obtain n5 where 5: "duplex_steps n5 (Duplex ?reads ?done [] ?reply) (Duplex (k ()) ?done [] [])"
    using run_left [OF r5, of k ?done "[]"] by auto
  note duplex_steps_trans [OF duplex_steps_trans [OF duplex_steps_trans [OF duplex_steps_trans
        [OF 1 2] 3] 4] 5]
  then show ?thesis by (rule exI)
qed

lemma tunnel_passes_map:
  assumes "host_ok e"
  shows "\<exists>n. duplex_steps n
    (Duplex (io_bind (io_map_error f (socks5_connect e)) k) (io_bind socks5_server k') [] [])
    (Duplex (k ()) (k' (Domain (hostname e) (port e))) [] [])"
  using tunnel_passes [OF assms, of f k "\<lambda>e. e" k'] by simp

lemma tunnel_finishes:
  assumes "host_ok e"
  shows "\<exists>n. duplex_steps n (socks5_tunnel e)
    (Duplex (Return ()) (Return (Domain (hostname e) (port e))) [] [])"
  using tunnel_passes_map [OF assms, of "\<lambda>e. e" Return Return] by simp

text \<open>A pair that can finish without a step left over finishes in every order.\<close>

lemma every_order_finishes:
  assumes "duplex_steps n s (Duplex (Return a) (Return b) r l)" and "duplex_steps m s t"
  shows "m \<le> n \<and> duplex_steps (n - m) t (Duplex (Return a) (Return b) r l) \<and>
    ((\<nexists>u. duplex_step t u) \<longrightarrow> t = Duplex (Return a) (Return b) r l)"
proof -
  let ?f = "Duplex (Return a) (Return b) r l"
  have d: "m \<le> n" "duplex_steps (n - m) t ?f"
    using duplex_confluent [OF assms(2,1)] by (auto simp: duplex_step_done)
  have "t = ?f" if "\<nexists>u. duplex_step t u"
    using d(2) that by (cases rule: duplex_steps.cases) auto
  with d show ?thesis by blast
qed

section \<open>Properties\<close>

text \<open>
  Whatever the order in which the two ends run, a dandelion that connects through
  another dandelion's SOCKS5 acceptor neither deadlocks nor fails: every run can be
  continued to, and can only end in, the state where the client's handshake is done, the
  acceptor has the client's host and port, and no byte of the handshake is left in either
  direction.  The acceptor always sees the host as a domain, an IP endpoint as its text.
\<close>

theorem socks5_tunnel_connects:
  assumes "rust_str (hostname e)" and "length (hostname e) \<le> 255"
  defines "final \<equiv> Duplex (Return ()) (Return (Domain (hostname e) (port e))) [] []"
  shows "\<exists>n. \<forall>m t. duplex_steps m (socks5_tunnel e) t \<longrightarrow>
    m \<le> n \<and> duplex_steps (n - m) t final \<and> ((\<nexists>u. duplex_step t u) \<longrightarrow> t = final)"
proof -
  obtain n where n: "duplex_steps n (socks5_tunnel e) final"
    using tunnel_finishes [of e] assms by (auto simp: host_ok_def)
  show ?thesis using every_order_finishes [OF n [unfolded final_def]] unfolding final_def by blast
qed

theorem socks5_tunnel_connects_witness:
  "\<exists>n. \<forall>m t. duplex_steps m (socks5_tunnel (Domain ''ab'' 80)) t \<longrightarrow>
    m \<le> n \<and> duplex_steps (n - m) t (Duplex (Return ()) (Return (Domain ''ab'' 80)) [] [])"
proof -
  have "rust_str ''ab''" by (simp add: rust_str_def as_bytes_def char_byte_def)
  then show ?thesis using socks5_tunnel_connects [of "Domain ''ab'' 80"] by auto
qed

end
