(* ===== verification/Http_Connector.thy ===== *)
theory Http_Connector
  imports Endpoint
begin

text \<open>
  The outbound HTTP CONNECT connector, \<^verbatim>\<open>core/connector/http.rs\<close>: it sends a CONNECT
  request for the endpoint and reads until the response header is complete.

  The header parser (\<^verbatim>\<open>httparse\<close>) is a parameter: a function from the bytes read so far
  to a parse error, to \<^const>\<open>None\<close> when the response is not complete, or to its status
  code.  The peer is the sequence of results of \<^verbatim>\<open>read_buf\<close>, in which no bytes mean the end
  of the stream; a run that has used all of them is still waiting.
\<close>

section \<open>Definitions\<close>

type_synonym 'p response_parser = "bytes \<Rightarrow> 'p + nat option"

datatype ('p, 'i) http_connect_error =
    SendFailed 'i string
  | ReadError 'i
  | ParseError 'p
  | ErrorResponse string string
  | NotUtf8

text \<open>The text of the request, with carriage return and line feed.\<close>

definition crlf :: string where
  "crlf = [char_of (13 :: nat), char_of (10 :: nat)]"

definition connect_request_text :: "endpoint \<Rightarrow> string" where
  "connect_request_text e =
     ''CONNECT '' @ endpoint_to_string e @ '' HTTP/1.1'' @ crlf @ ''Host: '' @ endpoint_to_string e @ crlf @ crlf"

text \<open>
  The read loop: \<^const>\<open>None\<close> while it waits, otherwise the result and the reads left for
  the caller.
\<close>

fun read_response ::
  "'p response_parser \<Rightarrow> endpoint \<Rightarrow> ('i + bytes) list \<Rightarrow> bytes \<Rightarrow>
   ((('p, 'i) http_connect_error + unit) \<times> ('i + bytes) list) option" where
  "read_response parse e [] buf = None"
| "read_response parse e (Inl i # rs) buf = Some (Inl (ReadError i), rs)"
| "read_response parse e (Inr bs # rs) buf =
     (if bs = [] then Some (Inr (), rs)
      else (case parse (buf @ bs) of
          Inl p \<Rightarrow> Some (Inl (ParseError p), rs)
        | Inr (Some code) \<Rightarrow>
            if code = 200 then Some (Inr (), rs)
            else (case from_utf8 (buf @ bs) of
                None \<Rightarrow> Some (Inl NotUtf8, rs)
              | Some t \<Rightarrow> Some (Inl (ErrorResponse (endpoint_to_string e) t), rs))
        | Inr None \<Rightarrow> read_response parse e rs (buf @ bs)))"

text \<open>The connector: the bytes it writes, then the result of the loop.\<close>

definition http_connect ::
  "'p response_parser \<Rightarrow> endpoint \<Rightarrow> ('i + unit) \<Rightarrow> ('i + bytes) list \<Rightarrow>
   bytes \<times> ((('p, 'i) http_connect_error + unit) \<times> ('i + bytes) list) option" where
  "http_connect parse e written reads =
     (as_bytes (connect_request_text e),
      case written of
        Inl i \<Rightarrow> Some (Inl (SendFailed i (endpoint_to_string e)), reads)
      | Inr _ \<Rightarrow> read_response parse e reads [])"

section \<open>The read loop\<close>

text \<open>While the response is incomplete the loop goes on with what it has read.\<close>

lemma read_response_partial:
  assumes "\<And>bs. bs \<in> set chunks \<Longrightarrow> bs \<noteq> []"
    and "\<And>pre suf. chunks = pre @ suf \<Longrightarrow> pre \<noteq> [] \<Longrightarrow> parse (buf @ concat pre) = Inr None"
  shows "read_response parse e (map Inr chunks @ rs) buf = read_response parse e rs (buf @ concat chunks)"
  using assms
proof (induction chunks arbitrary: buf)
  case (Cons c cs)
  have "c \<noteq> []" using Cons.prems(1) by simp
  moreover have "parse (buf @ c) = Inr None" using Cons.prems(2) [of "[c]" cs] by simp
  moreover have "read_response parse e (map Inr cs @ rs) (buf @ c) =
      read_response parse e rs ((buf @ c) @ concat cs)"
  proof (rule Cons.IH)
    fix pre suf assume "cs = pre @ suf" "pre \<noteq> []"
    then show "parse ((buf @ c) @ concat pre) = Inr None" using Cons.prems(2) [of "c # pre" suf] by simp
  qed (use Cons.prems(1) in simp)
  ultimately show ?case by simp
qed simp

text \<open>A response that is complete as a whole and at no shorter prefix.\<close>

definition response_of :: "'p response_parser \<Rightarrow> bytes \<Rightarrow> nat \<Rightarrow> bool" where
  "response_of parse h code \<longleftrightarrow> h \<noteq> [] \<and> parse h = Inr (Some code) \<and>
     (\<forall>n < length h. parse (take n h) = Inr None)"

text \<open>Whatever the segmentation of a prefix of a response, the loop waits for the rest.\<close>

lemma read_response_segments:
  assumes "response_of parse h code" and "h = concat chunks @ rest" and "rest \<noteq> []"
    and "[] \<notin> set chunks"
  shows "read_response parse e (map Inr chunks @ rs) [] = read_response parse e rs (concat chunks)"
proof -
  have "parse ([] @ concat pre) = Inr None" if "chunks = pre @ suf" for pre suf
  proof -
    have "concat pre = take (length (concat pre)) h" using assms(2) that by simp
    moreover have "length (concat pre) < length h" using assms(2,3) that by simp
    ultimately show ?thesis using assms(1) unfolding response_of_def by (metis append_Nil)
  qed
  with read_response_partial [of chunks parse "[]" e rs] assms(4) show ?thesis by auto
qed

section \<open>Properties\<close>

text \<open>
  C33: a response is understood however it is cut into reads: if the reads up to some point
  are, together, a response that is complete only at its end, then the connector succeeds
  there when the code is 200, fails with the text of the response when it is not (and the
  text is UTF-8), and leaves every later read to the caller.
\<close>

theorem http_connect_any_segmentation:
  assumes "response_of parse (concat chunks) code" and "[] \<notin> set chunks"
  shows "http_connect parse e (Inr ()) (map Inr chunks @ rs) =
    (as_bytes (connect_request_text e),
     Some (if code = 200 then Inr ()
           else (case from_utf8 (concat chunks) of
               None \<Rightarrow> Inl NotUtf8
             | Some t \<Rightarrow> Inl (ErrorResponse (endpoint_to_string e) t)), rs))"
proof -
  have "chunks \<noteq> []" using assms(1) by (auto simp: response_of_def)
  then obtain cs c where chunks: "chunks = cs @ [c]" by (cases chunks rule: rev_cases) auto
  have "read_response parse e (map Inr cs @ Inr c # rs) [] = read_response parse e (Inr c # rs) (concat cs)"
    by (rule read_response_segments [OF assms(1)]) (use assms(2) chunks in auto)
  with assms chunks show ?thesis
    by (auto simp: http_connect_def response_of_def split: option.split)
qed

text \<open>A parser for the examples: the response is its first four bytes, the fourth tells the code.\<close>

definition four_bytes :: "unit response_parser" where
  "four_bytes b = (if length b < 4 then Inr None else if b ! 3 = 0 then Inr (Some 200) else Inr (Some 500))"

theorem http_connect_any_segmentation_witness:
  "snd (http_connect four_bytes (Domain ''x'' 80) (Inr ()) ([Inr [1], Inr [2, 3, 0], Inr [9]] :: (unit + bytes) list)) =
     Some (Inr (), [Inr [9]])"
proof -
  have "response_of four_bytes (concat [[1], [2, 3, 0]]) 200"
    by (auto simp: response_of_def four_bytes_def)
  from http_connect_any_segmentation [OF this, of "Domain ''x'' 80" "[Inr [9]] :: (unit + bytes) list"]
  show ?thesis by simp
qed

text \<open>
  C34: a peer that closes the stream before its response is complete, even before its first
  byte, is taken for a peer that accepted the connection.
\<close>

theorem http_connect_eof_accepted:
  assumes "\<And>n. n \<le> length (concat chunks) \<Longrightarrow> parse (take n (concat chunks)) = Inr None"
    and "[] \<notin> set chunks"
  shows "snd (http_connect parse e (Inr ()) (map Inr chunks @ Inr [] # rs)) = Some (Inr (), rs)"
proof -
  have "parse ([] @ concat pre) = Inr None" if "chunks = pre @ suf" for pre suf
    using assms(1) [of "length (concat pre)"] that by simp
  with assms(2) read_response_partial [of chunks parse "[]" e "Inr [] # rs"] show ?thesis
    by (auto simp: http_connect_def)
qed

theorem http_connect_eof_accepted_witness:
  "snd (http_connect four_bytes (Domain ''x'' 80) (Inr ()) ([Inr [1], Inr []] :: (unit + bytes) list)) = Some (Inr (), [])"
  using http_connect_eof_accepted [of "[[1]]" four_bytes "Domain ''x'' 80" "[] :: (unit + bytes) list"]
  by (simp add: four_bytes_def)

text \<open>
  Bytes of the tunnelled stream that arrive in the same read as the end of the
  response are lost: however the response is cut into reads, the caller sees only the
  reads after the one that completed it.
\<close>

theorem http_connect_drops_early_data:
  assumes "response_of parse h 200" and "parse (h @ early) = Inr (Some 200)"
    and "concat cs @ c = h @ early" and "length (concat cs) < length h" and "[] \<notin> set cs"
  shows "snd (http_connect parse e (Inr ()) (map Inr cs @ Inr c # rs)) = Some (Inr (), rs)"
proof -
  obtain rest where h: "h = concat cs @ rest"
    using assms(3,4) by (auto simp: append_eq_append_conv2)
  then have "rest \<noteq> []" using assms(4) by auto
  from read_response_segments [OF assms(1) h this assms(5)]
  have "read_response parse e (map Inr cs @ Inr c # rs) [] = read_response parse e (Inr c # rs) (concat cs)" .
  moreover have "c \<noteq> []" using assms(3,4) by auto
  ultimately show ?thesis using assms(2,3) by (simp add: http_connect_def)
qed

theorem http_connect_drops_early_data_witness:
  "snd (http_connect four_bytes (Domain ''x'' 80) (Inr ()) ([Inr [1, 2], Inr [3, 0, 42], Inr [43]] :: (unit + bytes) list)) =
     Some (Inr (), [Inr [43]])"
proof -
  have "response_of four_bytes [1, 2, 3, 0] 200" by (auto simp: response_of_def four_bytes_def)
  from http_connect_drops_early_data [OF this, of "[42]" "[[1, 2]]" "[3, 0, 42]" "Domain ''x'' 80" "[Inr [43]]"]
  show ?thesis by (simp add: four_bytes_def)
qed

end
