(* ===== verification/Http_Types.thy ===== *)
theory Http_Types
  imports Dandelion_Prelude
begin

text \<open>
  The interface of the HTTP library (the crates \<^verbatim>\<open>http\<close> and \<^verbatim>\<open>hyper\<close>) that the simplex
  server, the simplex client and the HTTP acceptor use: header maps, header values and
  URIs.  They are parameters of the models, records of operations with the documented
  laws as locales; an association list with case-insensitive names is an instance.
\<close>

section \<open>Definitions\<close>

text \<open>Header names are compared without regard to the case of ASCII letters.\<close>

definition lower :: "char \<Rightarrow> char" where
  "lower c = (let n = of_char c :: nat in if 65 \<le> n \<and> n \<le> 90 then char_of (n + 32) else c)"

definition same_name :: "string \<Rightarrow> string \<Rightarrow> bool" where
  "same_name a b \<longleftrightarrow> map lower a = map lower b"

lemma same_name_refl [simp]: "same_name a a"
  by (simp add: same_name_def)

lemma same_name_sym: "same_name a b \<longleftrightarrow> same_name b a"
  by (auto simp: same_name_def)

lemma same_name_trans: "same_name a b \<Longrightarrow> same_name b c \<Longrightarrow> same_name a c"
  by (simp add: same_name_def)

record ('h, 'v) header_ops =
  h_get :: "string \<Rightarrow> 'h \<Rightarrow> 'v option"
  h_contains :: "string \<Rightarrow> 'h \<Rightarrow> bool"
  h_insert :: "string \<Rightarrow> 'v \<Rightarrow> 'h \<Rightarrow> 'h"
  h_remove :: "string \<Rightarrow> 'h \<Rightarrow> 'v option \<times> 'h"
  h_or_insert :: "string \<Rightarrow> 'v \<Rightarrow> 'h \<Rightarrow> 'h"
  name_ok :: "string \<Rightarrow> bool"
  v_parse :: "string \<Rightarrow> 'v option"
  v_to_str :: "'v \<Rightarrow> string option"
  v_as_bytes :: "'v \<Rightarrow> bytes"

text \<open>The parts of a URI that the sources read.\<close>

record 'u uri_ops =
  uri_path :: "'u \<Rightarrow> string"
  uri_host :: "'u \<Rightarrow> string option"
  uri_path_and_query :: "'u \<Rightarrow> string option"
  uri_to_string :: "'u \<Rightarrow> string"
  uri_parse :: "string \<Rightarrow> 'u option"

record ('u, 'h) request =
  rq_connect :: bool
  rq_uri :: 'u
  rq_headers :: 'h

section \<open>The interface\<close>

locale header_map =
  fixes H :: "('h, 'v) header_ops"
  assumes get_same: "same_name m n \<Longrightarrow> h_get H m h = h_get H n h"
    and get_insert: "name_ok H n \<Longrightarrow>
      h_get H m (h_insert H n v h) = (if same_name m n then Some v else h_get H m h)"
    and remove_get: "fst (h_remove H n h) = h_get H n h"
    and get_remove: "h_get H m (snd (h_remove H n h)) = (if same_name m n then None else h_get H m h)"
    and contains_get: "h_contains H n h \<longleftrightarrow> h_get H n h \<noteq> None"
    and get_or_insert: "name_ok H n \<Longrightarrow> h_get H m (h_or_insert H n v h) =
      (if same_name m n \<and> h_get H n h = None then Some v else h_get H m h)"
    and to_str_parse: "v_parse H s = Some v \<Longrightarrow> v_to_str H v = Some s"
begin

text \<open>A header that is inserted is read back with its text, under any spelling of its name.\<close>

lemma get_insert_text:
  assumes "name_ok H n" and "v_parse H s = Some v" and "same_name m n"
  shows "Option.bind (h_get H m (h_insert H n v h)) (v_to_str H) = Some s"
  using assms by (simp add: get_insert to_str_parse)

end

section \<open>Association lists as header maps\<close>

definition visible :: "char \<Rightarrow> bool" where
  "visible c \<longleftrightarrow> (let n = of_char c :: nat in 32 \<le> n \<and> n < 127)"

definition list_get :: "string \<Rightarrow> (string \<times> string) list \<Rightarrow> string option" where
  "list_get n h = map_of h (map lower n)"

definition list_remove :: "string \<Rightarrow> (string \<times> string) list \<Rightarrow> (string \<times> string) list" where
  "list_remove n h = filter (\<lambda>(k, _). k \<noteq> map lower n) h"

definition list_headers :: "((string \<times> string) list, string) header_ops" where
  "list_headers = \<lparr>
     h_get = list_get,
     h_contains = (\<lambda>n h. list_get n h \<noteq> None),
     h_insert = (\<lambda>n v h. (map lower n, v) # list_remove n h),
     h_remove = (\<lambda>n h. (list_get n h, list_remove n h)),
     h_or_insert = (\<lambda>n v h. if list_get n h = None then (map lower n, v) # h else h),
     name_ok = (\<lambda>n. n \<noteq> []),
     v_parse = (\<lambda>s. if list_all visible s then Some s else None),
     v_to_str = (\<lambda>v. if list_all visible v then Some v else None),
     v_as_bytes = as_bytes\<rparr>"

lemma map_of_list_remove:
  "map_of (list_remove n h) k = (if k = map lower n then None else map_of h k)"
  by (induction h) (auto simp: list_remove_def)

interpretation list_headers: header_map list_headers
  by unfold_locales
    (auto simp: list_headers_def list_get_def map_of_list_remove same_name_def split: if_splits)

end
