(* ===== verification/Simplex_Handshake.thy ===== *)
theory Simplex_Handshake
  imports Http_Types Endpoint
begin

text \<open>
  The simplex handshake: the server of \<^verbatim>\<open>core/simplex/server.rs\<close>, which answers every
  request that is not a valid simplex request with a page that tells nothing, the client
  of \<^verbatim>\<open>core/simplex/client.rs\<close>, and their \<^verbatim>\<open>Config\<close>.

  The server's connection is a step relation: the requests arrive in order, the handler
  checks each, hands the endpoint of the first valid one to the caller of \<^verbatim>\<open>handshake\<close>,
  and waits with the upgrade response until the caller runs the future it was given.
  \<^verbatim>\<open>is_upgrade_request\<close> and the accept key of the WebSocket library are parameters.
\<close>

section \<open>Definitions\<close>

definition endpoint_header_key :: string where
  "endpoint_header_key = ''Simplex-Endpoint''"

record simplex_config =
  sc_host :: string
  sc_path :: string
  sc_secret_header :: "string \<times> string"

datatype simplex_error =
    WrongPath string
  | WrongSecret
  | NotAnUpgrade
  | NoValidEndpoint
  | MissingKey
  | MissingVersion

text \<open>The libraries the server uses.\<close>

record ('u, 'h, 'v) http_lib =
  lib_uri :: "'u uri_ops"
  lib_headers :: "('h, 'v) header_ops"
  lib_is_upgrade :: "('u, 'h) request \<Rightarrow> bool"
  lib_accept_key :: "bytes \<Rightarrow> string"

abbreviation header_text :: "('u, 'h, 'v) http_lib \<Rightarrow> string \<Rightarrow> ('u, 'h) request \<Rightarrow> string option" where
  "header_text L n r \<equiv> Option.bind (h_get (lib_headers L) n (rq_headers r)) (v_to_str (lib_headers L))"

text \<open>The checks of the handler, up to the endpoint it will hand over.\<close>

definition check_request ::
  "('u, 'h, 'v) http_lib \<Rightarrow> simplex_config \<Rightarrow> ('u, 'h) request \<Rightarrow> simplex_error + endpoint" where
  "check_request L config r =
     (if uri_path (lib_uri L) (rq_uri r) \<noteq> sc_path config
      then Inl (WrongPath (uri_path (lib_uri L) (rq_uri r)))
      else if header_text L (fst (sc_secret_header config)) r \<noteq> Some (snd (sc_secret_header config))
      then Inl WrongSecret
      else if \<not> lib_is_upgrade L r then Inl NotAnUpgrade
      else ok_or NoValidEndpoint (Option.bind (header_text L endpoint_header_key r) (\<lambda>ep.
        case endpoint_from_str ep of Inl _ \<Rightarrow> None | Inr e \<Rightarrow> Some e)))"

text \<open>The responses: the page with the current time, or the upgrade with its accept key.\<close>

datatype response = TimePage string | Switching string

definition upgrade_response ::
  "('u, 'h, 'v) http_lib \<Rightarrow> ('u, 'h) request \<Rightarrow> simplex_error + response" where
  "upgrade_response L r =
     (case h_get (lib_headers L) ''Sec-WebSocket-Key'' (rq_headers r) of
        None \<Rightarrow> Inl MissingKey
      | Some key \<Rightarrow>
          if map_option (v_as_bytes (lib_headers L))
               (h_get (lib_headers L) ''Sec-WebSocket-Version'' (rq_headers r)) \<noteq> Some (as_bytes ''13'')
          then Inl MissingVersion
          else Inr (Switching (lib_accept_key L (v_as_bytes (lib_headers L) key))))"

text \<open>\<^verbatim>\<open>hide_error_handler\<close>: an error becomes the page.\<close>

definition hide_error :: "string \<Rightarrow> simplex_error + response \<Rightarrow> response" where
  "hide_error now r = (case r of Inr resp \<Rightarrow> resp | Inl _ \<Rightarrow> TimePage (''Now is '' @ now))"

text \<open>
  The connection: requests to come, where the handler stands, the endpoint that was handed
  over, whether the caller has run its future, and the responses so far.  The handler is
  between requests (with the upgrade signal still there or taken), or it has handed the
  endpoint over and waits for the caller, or the connection is upgraded, or it panicked.
\<close>

datatype ('u, 'h) phase =
    Serving bool
  | AwaitDone "('u, 'h) request"
  | Upgraded
  | Crashed

datatype ('u, 'h) conn = Conn "('u, 'h) request list" "('u, 'h) phase" "endpoint option" bool "response list"

definition conn_new :: "('u, 'h) request list \<Rightarrow> ('u, 'h) conn" where
  "conn_new rs = Conn rs (Serving True) None False []"

text \<open>
  One request: the checks, then \<^verbatim>\<open>signal.take().expect(...)\<close>, which panics when the signal
  is gone.
\<close>

definition handle ::
  "('u, 'h, 'v) http_lib \<Rightarrow> simplex_config \<Rightarrow> string \<Rightarrow> ('u, 'h) request \<Rightarrow> bool \<Rightarrow>
   ('u, 'h) phase \<times> endpoint option \<times> response list" where
  "handle L config now r signal =
     (case check_request L config r of
        Inl e \<Rightarrow> (Serving signal, None, [hide_error now (Inl e)])
      | Inr ep \<Rightarrow> if signal then (AwaitDone r, Some ep, []) else (Crashed, None, []))"

text \<open>After the caller has run its future: the upgrade response, or the page if it fails.\<close>

definition respond ::
  "('u, 'h, 'v) http_lib \<Rightarrow> string \<Rightarrow> ('u, 'h) request \<Rightarrow> ('u, 'h) phase \<times> response" where
  "respond L now r =
     (case upgrade_response L r of
        Inr resp \<Rightarrow> (Upgraded, hide_error now (Inr resp))
      | Inl e \<Rightarrow> (Serving False, hide_error now (Inl e)))"

inductive conn_step ::
  "('u, 'h, 'v) http_lib \<Rightarrow> simplex_config \<Rightarrow> ('u, 'h) conn \<Rightarrow> ('u, 'h) conn \<Rightarrow> bool" for L config where
  serve: "handle L config now r signal = (ph, ep, resp) \<Longrightarrow>
    conn_step L config (Conn (r # rs) (Serving signal) ep0 done' out)
      (Conn rs ph (if ep = None then ep0 else ep) done' (out @ resp))"
| run_future: "conn_step L config (Conn rs ph (Some ep) False out) (Conn rs ph (Some ep) True out)"
| finish: "respond L now r = (ph, resp) \<Longrightarrow>
    conn_step L config (Conn rs (AwaitDone r) ep True out) (Conn rs ph ep True (out @ [resp]))"

abbreviation conn_reach ::
  "('u, 'h, 'v) http_lib \<Rightarrow> simplex_config \<Rightarrow> ('u, 'h) conn \<Rightarrow> ('u, 'h) conn \<Rightarrow> bool" where
  "conn_reach L config \<equiv> reach (conn_step L config)"

lemmas conn_reach_start = reach.start [where step_rel = "conn_step L config" for L config]
lemmas conn_reach_step = reach.step [where step_rel = "conn_step L config" for L config]
lemmas conn_reach_one = reach_step [where step_rel = "conn_step L config" for L config]
lemmas conn_reach_trans = reach_trans [where step_rel = "conn_step L config" for L config]

text \<open>
  The client: the URI (\<open>build\<close>) and the request made of it (\<open>into_request\<close>) come from the
  WebSocket library; the client adds the secret and the endpoint.
\<close>

datatype 'e client_error = UriError 'e | RequestError 'e | BadHeaderName string | BadHeaderValue string

definition client_request ::
  "('u, 'h, 'v) http_lib \<Rightarrow> (string \<Rightarrow> string \<Rightarrow> 'e + 'u) \<Rightarrow> ('u \<Rightarrow> 'e + ('u, 'h) request) \<Rightarrow>
   endpoint \<Rightarrow> simplex_config \<Rightarrow> 'e client_error + ('u, 'h) request" where
  "client_request L build into_request e config =
     (case build (sc_host config) (sc_path config) of
        Inl err \<Rightarrow> Inl (UriError err)
      | Inr uri \<Rightarrow>
          (case into_request uri of
             Inl err \<Rightarrow> Inl (RequestError err)
           | Inr r \<Rightarrow>
               let (n, s) = sc_secret_header config; H = lib_headers L in
               if \<not> name_ok H n then Inl (BadHeaderName n)
               else res_bind (ok_or (BadHeaderValue s) (v_parse H s)) (\<lambda>v.
                 let r' = r\<lparr>rq_headers := h_insert H n v (rq_headers r)\<rparr> in
                 res_bind (ok_or (BadHeaderValue (endpoint_to_string e)) (v_parse H (endpoint_to_string e))) (\<lambda>ev.
                 Inr (r'\<lparr>rq_headers := h_insert H endpoint_header_key ev (rq_headers r')\<rparr>)))))"

section \<open>The server\<close>

lemma check_request_ok:
  "check_request L config r = Inr ep \<longleftrightarrow>
     uri_path (lib_uri L) (rq_uri r) = sc_path config \<and>
     header_text L (fst (sc_secret_header config)) r = Some (snd (sc_secret_header config)) \<and>
     lib_is_upgrade L r \<and>
     (\<exists>t. header_text L endpoint_header_key r = Some t \<and> endpoint_from_str t = Inr ep)"
  by (auto simp: check_request_def ok_or_def split: if_splits option.splits sum.splits
      Option.bind_splits)

fun conn_inv :: "('u, 'h, 'v) http_lib \<Rightarrow> simplex_config \<Rightarrow> ('u, 'h) request set \<Rightarrow> ('u, 'h) conn \<Rightarrow> bool" where
  "conn_inv L config R (Conn rs ph ep done' out) \<longleftrightarrow>
     set rs \<subseteq> R \<and>
     (\<forall>e. ep = Some e \<longrightarrow> (\<exists>r \<in> R. check_request L config r = Inr e)) \<and>
     (done' \<longrightarrow> ep \<noteq> None) \<and>
     (ph = Serving True \<longrightarrow> ep = None) \<and>
     (\<forall>resp \<in> set out. (\<exists>t. resp = TimePage t) \<or> done' \<and> ph = Upgraded) \<and>
     (ph = Upgraded \<longrightarrow> done') \<and>
     (ph \<in> {Upgraded, Crashed} \<union> range AwaitDone \<longrightarrow> (\<exists>r \<in> R. \<exists>e. check_request L config r = Inr e))"

lemma conn_inv_step: "conn_step L config c c' \<Longrightarrow> conn_inv L config R c \<Longrightarrow> conn_inv L config R c'"
proof (induction rule: conn_step.induct)
  case (serve now r signal ph ep resp rs ep0 done' out)
  show ?case
  proof (cases "check_request L config r")
    case (Inl e)
    with serve show ?thesis by (auto simp: handle_def hide_error_def)
  next
    case (Inr e)
    with serve show ?thesis by (cases signal) (auto simp: handle_def)
  qed
next
  case (run_future rs ph ep out)
  then show ?case by auto
next
  case (finish now r ph resp rs ep out)
  then show ?case by (auto simp: respond_def hide_error_def split: sum.splits)
qed

interpretation conn_inv: step_invariant "conn_step L config" "conn_inv L config allrs"
  by unfold_locales (rule conn_inv_step)

lemma conn_inv_reach: "conn_reach L config (conn_new rs) c \<Longrightarrow> conn_inv L config (set rs) c"
  by (erule conn_inv.inv_reach) (auto simp: conn_new_def)

section \<open>The client against the server\<close>

text \<open>
  What the libraries promise: the path of a URI built from a plain path is that path, the
  request made of a URI keeps it and asks for an upgrade with key and version, and whether
  a request asks for an upgrade depends on its \<^verbatim>\<open>Connection\<close> and \<^verbatim>\<open>Upgrade\<close> headers.
\<close>

definition plain_path :: "string \<Rightarrow> bool" where
  "plain_path p \<longleftrightarrow> (\<exists>t. p = CHR ''/'' # t) \<and> CHR ''?'' \<notin> set p \<and> CHR ''#'' \<notin> set p"

definition reserved_name :: "string \<Rightarrow> bool" where
  "reserved_name n \<longleftrightarrow> list_ex (same_name n)
     [''Connection'', ''Upgrade'', ''Sec-WebSocket-Key'', ''Sec-WebSocket-Version'', endpoint_header_key]"

locale websocket_http = header_map "lib_headers L" for L :: "('u, 'h, 'v) http_lib" +
  fixes build :: "string \<Rightarrow> string \<Rightarrow> 'e + 'u"
    and into_request :: "'u \<Rightarrow> 'e + ('u, 'h) request"
  assumes build_path: "build host path = Inr u \<Longrightarrow> plain_path path \<Longrightarrow> uri_path (lib_uri L) u = path"
    and request_uri: "into_request u = Inr r \<Longrightarrow> rq_uri r = u"
    and request_upgrade: "into_request u = Inr r \<Longrightarrow> lib_is_upgrade L r"
    and request_key: "into_request u = Inr r \<Longrightarrow>
      h_get (lib_headers L) ''Sec-WebSocket-Key'' (rq_headers r) \<noteq> None"
    and request_version: "into_request u = Inr r \<Longrightarrow>
      map_option (v_as_bytes (lib_headers L)) (h_get (lib_headers L) ''Sec-WebSocket-Version'' (rq_headers r)) =
        Some (as_bytes ''13'')"
    and upgrade_headers: "h_get (lib_headers L) ''Connection'' (rq_headers r) = h_get (lib_headers L) ''Connection'' (rq_headers r') \<Longrightarrow>
      h_get (lib_headers L) ''Upgrade'' (rq_headers r) = h_get (lib_headers L) ''Upgrade'' (rq_headers r') \<Longrightarrow>
      lib_is_upgrade L r = lib_is_upgrade L r'"
    and endpoint_name_ok: "name_ok (lib_headers L) endpoint_header_key"
begin

lemma client_request_parts:
  assumes "client_request L build into_request e config = Inr r"
  obtains u r0 v ev where "build (sc_host config) (sc_path config) = Inr u" and "into_request u = Inr r0"
    and "name_ok (lib_headers L) (fst (sc_secret_header config))"
    and "v_parse (lib_headers L) (snd (sc_secret_header config)) = Some v"
    and "v_parse (lib_headers L) (endpoint_to_string e) = Some ev"
    and "r = r0\<lparr>rq_headers := h_insert (lib_headers L) endpoint_header_key ev
      (h_insert (lib_headers L) (fst (sc_secret_header config)) v (rq_headers r0))\<rparr>"
  using assms
  by (auto simp: client_request_def Let_def ok_or_def res_bind_eq_Inr
      split: sum.splits prod.splits if_splits option.splits)

lemma client_accepted:
  assumes "client_request L build into_request e config = Inr r" and "endpoint_canonical e"
    and "plain_path (sc_path config)" and "\<not> reserved_name (fst (sc_secret_header config))"
  shows "check_request L config r = Inr e \<and> (\<exists>key. upgrade_response L r = Inr (Switching key))"
proof -
  let ?H = "lib_headers L" and ?n = "fst (sc_secret_header config)"
  from assms(1) obtain u r0 v ev where
    u: "build (sc_host config) (sc_path config) = Inr u" and r0: "into_request u = Inr r0"
    and n: "name_ok ?H ?n" and v: "v_parse ?H (snd (sc_secret_header config)) = Some v"
    and ev: "v_parse ?H (endpoint_to_string e) = Some ev"
    and r: "r = r0\<lparr>rq_headers := h_insert ?H endpoint_header_key ev (h_insert ?H ?n v (rq_headers r0))\<rparr>"
    by (rule client_request_parts)
  have get: "h_get ?H m (rq_headers r) = (if same_name m endpoint_header_key then Some ev
      else if same_name m ?n then Some v else h_get ?H m (rq_headers r0))" for m
    by (simp add: r get_insert [OF endpoint_name_ok] get_insert [OF n])
  have other: "h_get ?H m (rq_headers r) = h_get ?H m (rq_headers r0)"
    if "m \<in> {''Connection'', ''Upgrade'', ''Sec-WebSocket-Key'', ''Sec-WebSocket-Version''}" for m
  proof -
    have "\<not> same_name m ?n" using that assms(4) same_name_sym [of ?n m] by (auto simp: reserved_name_def)
    moreover have "\<not> same_name m endpoint_header_key"
      using that by (auto simp: same_name_def endpoint_header_key_def)
    ultimately show ?thesis by (simp add: get)
  qed
  have "\<not> same_name ?n endpoint_header_key" using assms(4) by (simp add: reserved_name_def)
  then have "header_text L ?n r = Some (snd (sc_secret_header config))"
    by (simp add: get to_str_parse [OF v])
  moreover have "header_text L endpoint_header_key r = Some (endpoint_to_string e)"
    by (simp add: get to_str_parse [OF ev])
  moreover have "lib_is_upgrade L r"
    using request_upgrade [OF r0] upgrade_headers [of r r0] other by simp
  moreover have "uri_path (lib_uri L) (rq_uri r) = sc_path config"
    using build_path [OF u assms(3)] request_uri [OF r0] by (simp add: r)
  ultimately have "check_request L config r = Inr e"
    using endpoint_roundtrip [OF assms(2)] by (simp add: check_request_ok)
  moreover have "\<exists>key. upgrade_response L r = Inr (Switching key)"
    using request_key [OF r0] request_version [OF r0] other by (auto simp: upgrade_response_def)
  ultimately show ?thesis ..
qed

end

text \<open>A library of lists: a URI is its path, an upgrade request has its two headers.\<close>

definition list_http :: "(string, (string \<times> string) list, string) http_lib" where
  "list_http = \<lparr>
     lib_uri = \<lparr>uri_path = (\<lambda>u. u), uri_host = (\<lambda>_. None), uri_path_and_query = Some,
       uri_to_string = (\<lambda>u. u), uri_parse = Some\<rparr>,
     lib_headers = list_headers,
     lib_is_upgrade = (\<lambda>r. list_get ''Connection'' (rq_headers r) = Some ''Upgrade'' \<and>
       list_get ''Upgrade'' (rq_headers r) = Some ''websocket''),
     lib_accept_key = (\<lambda>k. ''accept'')\<rparr>"

definition upgrade_header_list :: "(string \<times> string) list" where
  "upgrade_header_list =
     [(map lower ''Connection'', ''Upgrade''), (map lower ''Upgrade'', ''websocket''),
      (map lower ''Sec-WebSocket-Key'', ''x''), (map lower ''Sec-WebSocket-Version'', ''13'')]"

definition list_request :: "string \<Rightarrow> unit + (string, (string \<times> string) list) request" where
  "list_request u = Inr \<lparr>rq_connect = False, rq_uri = u, rq_headers = upgrade_header_list\<rparr>"

lemma upgrade_header_list_get:
  "list_get ''Connection'' upgrade_header_list = Some ''Upgrade''"
  "list_get ''Upgrade'' upgrade_header_list = Some ''websocket''"
  "list_get ''Sec-WebSocket-Key'' upgrade_header_list = Some ''x''"
  "list_get ''Sec-WebSocket-Version'' upgrade_header_list = Some ''13''"
  by code_simp+

lemma list_http_simps [simp]:
  "lib_headers list_http = list_headers"
  "uri_path (lib_uri list_http) u = u"
  "lib_is_upgrade list_http r \<longleftrightarrow> list_get ''Connection'' (rq_headers r) = Some ''Upgrade'' \<and>
     list_get ''Upgrade'' (rq_headers r) = Some ''websocket''"
  "h_get list_headers = list_get" "v_as_bytes list_headers = as_bytes"
  "name_ok list_headers n \<longleftrightarrow> n \<noteq> []"
  by (simp_all add: list_http_def list_headers_def)

interpretation list_http: websocket_http list_http "\<lambda>host path. Inr path" list_request
proof (intro websocket_http.intro websocket_http_axioms.intro)
  show "header_map (lib_headers list_http)" using list_headers.header_map_axioms by simp
qed (auto simp: list_request_def upgrade_header_list_get endpoint_header_key_def)

section \<open>Bytes read beyond the handshake\<close>

text \<open>
  \<^verbatim>\<open>ChainReadBufAndIo\<close>: the bytes the HTTP connection has read too far are read first.  A
  read of up to \<open>n\<close> bytes is a function of the reader's state.
\<close>

type_synonym ('e, 'c) reader_fn = "nat \<Rightarrow> 'c \<Rightarrow> ('e + bytes) poll \<times> 'c"

definition chain_poll_read :: "('e, 'c) reader_fn \<Rightarrow> ('e, bytes \<times> 'c) reader_fn" where
  "chain_poll_read io_read n = (\<lambda>(read_buf, io).
     if read_buf \<noteq> [] then
       (let len = min (length read_buf) n in (Ready (Inr (take len read_buf)), (drop len read_buf, io)))
     else (case io_read n io of (r, io') \<Rightarrow> (r, (read_buf, io'))))"

text \<open>Writing, flushing and shutting down go to the stream alone.\<close>

definition chain_poll_write ::
  "(bytes \<Rightarrow> 'c \<Rightarrow> ('e + nat) poll \<times> 'c) \<Rightarrow> bytes \<Rightarrow> bytes \<times> 'c \<Rightarrow> ('e + nat) poll \<times> bytes \<times> 'c" where
  "chain_poll_write io_write buf = (\<lambda>(read_buf, io). case io_write buf io of (r, io') \<Rightarrow> (r, (read_buf, io')))"

definition chain_poll_flush ::
  "('c \<Rightarrow> ('e + unit) poll \<times> 'c) \<Rightarrow> bytes \<times> 'c \<Rightarrow> ('e + unit) poll \<times> bytes \<times> 'c" where
  "chain_poll_flush io_flush = (\<lambda>(read_buf, io). case io_flush io of (r, io') \<Rightarrow> (r, (read_buf, io')))"

definition chain_poll_shutdown ::
  "('c \<Rightarrow> ('e + unit) poll \<times> 'c) \<Rightarrow> bytes \<times> 'c \<Rightarrow> ('e + unit) poll \<times> bytes \<times> 'c" where
  "chain_poll_shutdown io_shutdown = (\<lambda>(read_buf, io). case io_shutdown io of (r, io') \<Rightarrow> (r, (read_buf, io')))"

text \<open>A reader of a byte sequence: what it returns comes off the front, none of it twice.\<close>

locale byte_reader =
  fixes read :: "('e, 'c) reader_fn"
    and content :: "'c \<Rightarrow> bytes"
  assumes read_ready: "read n c = (Ready (Inr bs), c') \<Longrightarrow> content c = bs @ content c' \<and> length bs \<le> n"
    and read_pending: "read n c = (Pending, c') \<Longrightarrow> content c' = content c"

text \<open>Chaining gives a reader of the buffered bytes followed by the rest.\<close>

lemma chain_byte_reader:
  assumes "byte_reader io_read content"
  shows "byte_reader (chain_poll_read io_read) (\<lambda>(read_buf, io). read_buf @ content io)"
proof -
  note laws = byte_reader.read_ready [OF assms] byte_reader.read_pending [OF assms]
  show ?thesis
    by unfold_locales
      (auto simp: chain_poll_read_def Let_def split: if_splits prod.splits dest: laws)
qed

text \<open>If writing to the stream takes nothing from what is to be read, neither does it through the chain.\<close>

lemma chain_write_keeps_content:
  assumes "\<And>buf io r io'. io_write buf io = (r, io') \<Longrightarrow> content io' = content io"
    and "chain_poll_write io_write buf (read_buf, io) = (r, (read_buf', io'))"
  shows "read_buf' @ content io' = read_buf @ content io"
  using assms by (auto simp: chain_poll_write_def split: prod.splits)

definition list_read :: "(unit, bytes) reader_fn" where
  "list_read n c = (Ready (Inr (take n c)), drop n c)"

interpretation list_read: byte_reader list_read "\<lambda>c. c"
  by unfold_locales (auto simp: list_read_def)

interpretation chained: byte_reader "chain_poll_read list_read" "\<lambda>(read_buf, io). read_buf @ io"
  using chain_byte_reader [OF list_read.byte_reader_axioms] .

section \<open>Examples\<close>

definition example_config :: simplex_config where
  "example_config = \<lparr>sc_host = ''h'', sc_path = ''/p'', sc_secret_header = (''S'', ''k'')\<rparr>"

text \<open>A valid request with the two headers of the upgrade, or also with key and version.\<close>

definition keyless_request :: "(string, (string \<times> string) list) request" where
  "keyless_request = \<lparr>rq_connect = False, rq_uri = ''/p'', rq_headers =
     [(map lower ''Connection'', ''Upgrade''), (map lower ''Upgrade'', ''websocket''),
      (map lower ''S'', ''k''), (map lower endpoint_header_key, ''x:80'')]\<rparr>"

lemma keyless_headers:
  "list_get ''Connection'' (rq_headers keyless_request) = Some ''Upgrade''"
  "list_get ''Upgrade'' (rq_headers keyless_request) = Some ''websocket''"
  "list_get ''S'' (rq_headers keyless_request) = Some ''k''"
  "list_get endpoint_header_key (rq_headers keyless_request) = Some ''x:80''"
  "list_get ''Sec-WebSocket-Key'' (rq_headers keyless_request) = None"
  "rq_uri keyless_request = ''/p''" "v_to_str list_headers ''k'' = Some ''k''"
  "v_to_str list_headers ''x:80'' = Some ''x:80''"
  by code_simp+

lemma example_text: "endpoint_to_string (Domain ''x'' 80) = ''x:80''"
  by code_simp

lemma example_endpoint: "endpoint_canonical (Domain ''x'' 80)" "endpoint_from_str ''x:80'' = Inr (Domain ''x'' 80)"
proof -
  have "parse_ip_addr ''x'' = None" by (rule parse_ip_none) (simp_all add: to_digit_def)
  then show c: "endpoint_canonical (Domain ''x'' 80)" by (simp add: endpoint_canonical_def)
  from example_text endpoint_roundtrip [OF c] show "endpoint_from_str ''x:80'' = Inr (Domain ''x'' 80)" by simp
qed

lemma keyless_checked: "check_request list_http example_config keyless_request = Inr (Domain ''x'' 80)"
  unfolding check_request_ok by (simp add: example_config_def keyless_headers example_endpoint(2))

lemma example_client_request:
  "\<exists>r. client_request list_http (\<lambda>host path. Inr path) list_request (Domain ''x'' 80) example_config = Inr r"
proof -
  note example_text
  moreover have "v_parse list_headers ''k'' = Some ''k''" "v_parse list_headers ''x:80'' = Some ''x:80''"
    by code_simp+
  ultimately show ?thesis by (simp add: client_request_def example_config_def list_request_def)
qed

lemma example_config_ok:
  "plain_path (sc_path example_config)" "\<not> reserved_name (fst (sc_secret_header example_config))"
  by (simp add: plain_path_def example_config_def) code_simp

section \<open>Properties\<close>

text \<open>
  C35: an endpoint is handed to the caller only for a request to the configured path that
  carries the secret header with the configured value and asks for an upgrade, and it is
  the endpoint in that request's endpoint header.
\<close>

theorem simplex_only_authenticated:
  assumes "conn_reach L config (conn_new rs) (Conn rs' ph (Some ep) done' out)"
  shows "\<exists>r \<in> set rs. uri_path (lib_uri L) (rq_uri r) = sc_path config \<and>
     header_text L (fst (sc_secret_header config)) r = Some (snd (sc_secret_header config)) \<and>
     lib_is_upgrade L r \<and>
     (\<exists>t. header_text L endpoint_header_key r = Some t \<and> endpoint_from_str t = Inr ep)"
  using conn_inv_reach [OF assms] by (simp add: check_request_ok)

lemma keyless_reach:
  "conn_reach list_http example_config (conn_new (keyless_request # rs))
     (Conn rs (AwaitDone keyless_request) (Some (Domain ''x'' 80)) False [])"
proof -
  have "handle list_http example_config now keyless_request True =
      (AwaitDone keyless_request, Some (Domain ''x'' 80), [])" for now
    by (simp add: handle_def keyless_checked)
  from conn_reach_step [OF conn_reach_start [of _ _ "conn_new _"], unfolded conn_new_def,
      OF conn_step.serve [OF this]] show ?thesis by (simp add: conn_new_def)
qed

theorem simplex_only_authenticated_witness:
  "\<exists>r \<in> {keyless_request}. rq_uri r = ''/p'' \<and> header_text list_http ''S'' r = Some ''k''"
  using simplex_only_authenticated [OF keyless_reach [of "[]"]] by (simp add: example_config_def)



text \<open>
  The client's request passes the server's checks with the same configuration and
  hands over the client's endpoint, and the server answers it with the upgrade: for an
  endpoint whose text parses back, a plain path, and a secret header whose name is none of
  those the handshake uses itself.
\<close>

theorem simplex_client_accepted:
  assumes "websocket_http L build into_request"
    and "client_request L build into_request e config = Inr r" and "endpoint_canonical e"
    and "plain_path (sc_path config)" and "\<not> reserved_name (fst (sc_secret_header config))"
  shows "check_request L config r = Inr e \<and> (\<exists>key. upgrade_response L r = Inr (Switching key))"
  using websocket_http.client_accepted [OF assms] .

theorem simplex_client_accepted_witness:
  "\<exists>r. client_request list_http (\<lambda>host path. Inr path) list_request (Domain ''x'' 80) example_config = Inr r \<and>
     check_request list_http example_config r = Inr (Domain ''x'' 80)"
  using example_client_request example_config_ok
    simplex_client_accepted [OF list_http.websocket_http_axioms _ example_endpoint(1)] by blast

text \<open>
  A connection can panic: after a valid request whose upgrade response fails (it has no
  WebSocket key or version), the next valid request on the same connection finds the
  upgrade signal gone.
\<close>

theorem simplex_second_upgrade_panics:
  assumes "check_request L config r1 = Inr e1" and "upgrade_response L r1 = Inl err"
    and "check_request L config r2 = Inr e2"
  shows "\<exists>t. conn_reach L config (conn_new [r1, r2]) (Conn [] Crashed (Some e1) True [TimePage t])"
proof -
  have h1: "handle L config [] r1 True = (AwaitDone r1, Some e1, [])"
    and h2: "handle L config [] r2 False = (Crashed, None, [])"
    and rsp: "respond L [] r1 = (Serving False, TimePage ''Now is '')"
    using assms by (simp_all add: handle_def respond_def hide_error_def)
  have "conn_reach L config (conn_new [r1, r2]) (Conn [r2] (AwaitDone r1) (Some e1) False [])"
    using conn_reach_step [OF conn_reach_start [of _ _ "conn_new _"], unfolded conn_new_def,
        OF conn_step.serve [OF h1]] by (simp add: conn_new_def)
  then have "conn_reach L config (conn_new [r1, r2]) (Conn [r2] (AwaitDone r1) (Some e1) True [])"
    by (rule conn_reach_step) (rule conn_step.run_future)
  then have "conn_reach L config (conn_new [r1, r2]) (Conn [r2] (Serving False) (Some e1) True [TimePage ''Now is ''])"
    using conn_reach_step [OF _ conn_step.finish [OF rsp]] by fastforce
  then show ?thesis using conn_reach_step [OF _ conn_step.serve [OF h2]] by fastforce
qed

theorem simplex_second_upgrade_panics_witness:
  "\<exists>t. conn_reach list_http example_config (conn_new [keyless_request, keyless_request])
     (Conn [] Crashed (Some (Domain ''x'' 80)) True [TimePage t])"
  using simplex_second_upgrade_panics [OF keyless_checked _ keyless_checked]
  by (simp add: upgrade_response_def keyless_headers)

text \<open>
  No byte of the upgraded stream is lost or reordered by the HTTP connection having
  read too far: the chained reader delivers the buffered bytes and then those of the
  stream, and does not touch the stream before the buffer is empty.
\<close>

theorem simplex_keeps_early_bytes:
  assumes "byte_reader io_read content"
    and "chain_poll_read io_read n (read_buf, io) = (Ready (Inr bs), (read_buf', io'))"
  shows "read_buf @ content io = bs @ read_buf' @ content io' \<and> length bs \<le> n \<and>
    (read_buf \<noteq> [] \<longrightarrow> io' = io)"
  using byte_reader.read_ready [OF chain_byte_reader [OF assms(1)] assms(2)] assms(2)
  by (auto simp: chain_poll_read_def Let_def split: if_splits)

theorem simplex_keeps_early_bytes_witness:
  "chain_poll_read list_read 2 ([1, 2, 3], [4]) = (Ready (Inr [1, 2]), ([3], [4])) \<and>
   [1, 2, 3] @ [4] = [1, 2] @ [3] @ [4 :: u8]"
proof -
  have "chain_poll_read list_read 2 ([1, 2, 3], [4]) = (Ready (Inr [1, 2]), ([3], [4]))"
    by (simp add: chain_poll_read_def)
  with simplex_keeps_early_bytes [OF list_read.byte_reader_axioms this] show ?thesis by simp
qed

end
