(* ===== verification/Simplex_Io.thy ===== *)
theory Simplex_Io
  imports Dandelion_Prelude
begin

text \<open>
  The byte stream over a WebSocket, \<^verbatim>\<open>core/simplex/io.rs\<close>: writes become binary messages,
  reads drain the messages that arrive, and a text message \<^verbatim>\<open>EOF\<close> closes one direction so
  that the other can go on.

  The WebSocket (\<^verbatim>\<open>tokio_tungstenite\<close>) is a parameter: its calls are the fields of
  \<open>ws_ops\<close>, its documented behaviour the locale \<open>ws_channel\<close>, which speaks of the messages
  that are still to arrive and of those that were accepted for sending.
\<close>

section \<open>Definitions\<close>

text \<open>A message; \<open>Other\<close> are the control messages, whose content the source does not name.\<close>

datatype 'm message = Text string | Binary bytes | Other 'm

definition eof_message :: "'m message" where
  "eof_message = Text ''EOF''"

record ('m, 'e, 'w) ws_ops =
  ws_poll_ready :: "'w \<Rightarrow> ('e + unit) poll \<times> 'w"
  ws_start_send :: "'m message \<Rightarrow> 'w \<Rightarrow> ('e + unit) \<times> 'w"
  ws_poll_flush :: "'w \<Rightarrow> ('e + unit) poll \<times> 'w"
  ws_poll_close :: "'w \<Rightarrow> ('e + unit) poll \<times> 'w"
  ws_poll_next :: "'w \<Rightarrow> ('e + 'm message) option poll \<times> 'w"
  into_data :: "'m message \<Rightarrow> bytes"

text \<open>
  The waker is whether one is registered; \<open>wakes\<close> counts the registered wakers that were
  woken.
\<close>

record 'w ws_io =
  ws_stream :: 'w
  read_closed :: bool
  write_closed :: bool
  waker :: bool
  chunk :: "bytes option"
  wakes :: nat

definition ws_io_new :: "'w \<Rightarrow> 'w ws_io" where
  "ws_io_new w = \<lparr>ws_stream = w, read_closed = False, write_closed = False, waker = False,
     chunk = None, wakes = 0\<rparr>"

definition is_eof :: "'m message \<Rightarrow> bool" where
  "is_eof m \<longleftrightarrow> m = eof_message"

text \<open>\<^verbatim>\<open>AtomicWaker::wake\<close>: take the registered waker, if any, and wake it.\<close>

definition wake :: "'w ws_io \<Rightarrow> 'w ws_io" where
  "wake s = s\<lparr>waker := False, wakes := wakes s + (if waker s then 1 else 0)\<rparr>"

definition poll_write ::
  "('m, 'e, 'w) ws_ops \<Rightarrow> bytes \<Rightarrow> 'w ws_io \<Rightarrow> ('e + nat) poll \<times> 'w ws_io" where
  "poll_write W buf s =
     (case ws_poll_ready W (ws_stream s) of
        (Pending, w) \<Rightarrow> (Pending, s\<lparr>ws_stream := w\<rparr>)
      | (Ready (Inl e), w) \<Rightarrow> (Ready (Inl e), s\<lparr>ws_stream := w\<rparr>)
      | (Ready (Inr _), w) \<Rightarrow>
          (case ws_start_send W (Binary buf) w of
             (Inl e, w') \<Rightarrow> (Ready (Inl e), s\<lparr>ws_stream := w'\<rparr>)
           | (Inr _, w') \<Rightarrow> (Ready (Inr (length buf)), s\<lparr>ws_stream := w'\<rparr>)))"

definition poll_flush :: "('m, 'e, 'w) ws_ops \<Rightarrow> 'w ws_io \<Rightarrow> ('e + unit) poll \<times> 'w ws_io" where
  "poll_flush W s = (case ws_poll_flush W (ws_stream s) of (r, w) \<Rightarrow> (r, s\<lparr>ws_stream := w\<rparr>))"

text \<open>The second half of \<^verbatim>\<open>poll_shutdown\<close>: close once the peer has closed, else wait.\<close>

definition shutdown_wait :: "('m, 'e, 'w) ws_ops \<Rightarrow> 'w ws_io \<Rightarrow> ('e + unit) poll \<times> 'w ws_io" where
  "shutdown_wait W s =
     (if read_closed s
      then (case ws_poll_close W (ws_stream s) of (r, w) \<Rightarrow> (r, s\<lparr>ws_stream := w\<rparr>))
      else (Pending, s\<lparr>waker := True\<rparr>))"

definition poll_shutdown :: "('m, 'e, 'w) ws_ops \<Rightarrow> 'w ws_io \<Rightarrow> ('e + unit) poll \<times> 'w ws_io" where
  "poll_shutdown W s =
     (if \<not> write_closed s then
        (case ws_poll_ready W (ws_stream s) of
           (Pending, w) \<Rightarrow> (Pending, s\<lparr>ws_stream := w\<rparr>)
         | (Ready (Inl e), w) \<Rightarrow> (Ready (Inl e), s\<lparr>ws_stream := w\<rparr>)
         | (Ready (Inr _), w) \<Rightarrow>
             (case ws_start_send W eof_message w of
                (Inl e, w') \<Rightarrow> (Ready (Inl e), s\<lparr>ws_stream := w'\<rparr>)
              | (Inr _, w') \<Rightarrow> shutdown_wait W (s\<lparr>ws_stream := w', write_closed := True\<rparr>)))
      else shutdown_wait W s)"

text \<open>The peer's end of data: remember it, and wake a shutdown that waits for it.\<close>

definition close_read :: "'w ws_io \<Rightarrow> 'w ws_io" where
  "close_read s = (let s' = s\<lparr>read_closed := True\<rparr> in if write_closed s' then wake s' else s')"

definition poll_fill_buf :: "('m, 'e, 'w) ws_ops \<Rightarrow> 'w ws_io \<Rightarrow> ('e + bytes) poll \<times> 'w ws_io" where
  "poll_fill_buf W s =
     (case chunk s of
        None \<Rightarrow>
          (case ws_poll_next W (ws_stream s) of
             (Pending, w) \<Rightarrow> (Pending, s\<lparr>ws_stream := w\<rparr>)
           | (Ready (Some (Inr m)), w) \<Rightarrow>
               (let s' = s\<lparr>ws_stream := w\<rparr> in
                if is_eof m then (Ready (Inr []), close_read s')
                else (Ready (Inr (into_data W m)), s'\<lparr>chunk := Some (into_data W m)\<rparr>))
           | (Ready (Some (Inl e)), w) \<Rightarrow> (Ready (Inl e), s\<lparr>ws_stream := w\<rparr>)
           | (Ready None, w) \<Rightarrow>
               (let s' = s\<lparr>ws_stream := w\<rparr> in
                (Ready (Inr []), if \<not> read_closed s' then close_read s' else s')))
      | Some c \<Rightarrow> (Ready (Inr c), s))"

text \<open>\<^verbatim>\<open>consume\<close>: panics without a chunk (\<^verbatim>\<open>expect\<close>) or beyond its end (\<^verbatim>\<open>advance\<close>).\<close>

definition consume :: "nat \<Rightarrow> 'w ws_io \<Rightarrow> 'w ws_io outcome" where
  "consume amt s =
     (if amt > 0 then
        (case chunk s of
           None \<Rightarrow> Panic
         | Some c \<Rightarrow>
             if length c < amt then Panic
             else Normal (s\<lparr>chunk := if drop amt c = [] then None else Some (drop amt c)\<rparr>))
      else Normal s)"

text \<open>A read into a buffer with \<open>n\<close> free bytes; the result is the bytes put into it.\<close>

definition poll_read ::
  "('m, 'e, 'w) ws_ops \<Rightarrow> nat \<Rightarrow> 'w ws_io \<Rightarrow> (('e + bytes) poll \<times> 'w ws_io) outcome" where
  "poll_read W n s =
     (if n = 0 then Normal (Ready (Inr []), s)
      else (case poll_fill_buf W s of
          (Ready (Inr inner), s') \<Rightarrow>
            (let len = min (length inner) n in
             case consume len s' of
               Panic \<Rightarrow> Panic
             | Normal s'' \<Rightarrow> Normal (Ready (Inr (take len inner)), s''))
        | (Ready (Inl e), s') \<Rightarrow> Normal (Ready (Inl e), s')
        | (Pending, s') \<Rightarrow> Normal (Pending, s')))"

section \<open>Histories\<close>

text \<open>What the calls on a stream did, in any order of the reading and the writing side.\<close>

datatype io_event = Wrote bytes | SentEof | Got bytes | ReadFailed | Idle

inductive io_step :: "('m, 'e, 'w) ws_ops \<Rightarrow> 'w ws_io \<Rightarrow> io_event \<Rightarrow> 'w ws_io \<Rightarrow> bool" for W where
  writes: "poll_write W buf s = (r, s') \<Longrightarrow>
    io_step W s (case r of Ready (Inr _) \<Rightarrow> Wrote buf | _ \<Rightarrow> Idle) s'"
| flushes: "poll_flush W s = (r, s') \<Longrightarrow> io_step W s Idle s'"
| shuts: "poll_shutdown W s = (r, s') \<Longrightarrow>
    io_step W s (if write_closed s' \<and> \<not> write_closed s then SentEof else Idle) s'"
| reads: "0 < n \<Longrightarrow> poll_read W n s = Normal (r, s') \<Longrightarrow>
    io_step W s (case r of Pending \<Rightarrow> Idle | Ready (Inl _) \<Rightarrow> ReadFailed | Ready (Inr bs) \<Rightarrow> Got bs) s'"

inductive io_trace :: "('m, 'e, 'w) ws_ops \<Rightarrow> 'w ws_io \<Rightarrow> io_event list \<Rightarrow> 'w ws_io \<Rightarrow> bool" for W s0 where
  start: "io_trace W s0 [] s0"
| step: "io_trace W s0 evs s \<Longrightarrow> io_step W s ev s' \<Longrightarrow> io_trace W s0 (evs @ [ev]) s'"

text \<open>The messages sent and the bytes received in a history.\<close>

fun sent_message :: "io_event \<Rightarrow> 'm message list" where
  "sent_message (Wrote buf) = [Binary buf]"
| "sent_message SentEof = [eof_message]"
| "sent_message _ = []"

fun got_bytes :: "io_event \<Rightarrow> bytes" where
  "got_bytes (Got bs) = bs"
| "got_bytes _ = []"

definition messages :: "io_event list \<Rightarrow> 'm message list" where
  "messages evs = concat (map sent_message evs)"

definition received :: "io_event list \<Rightarrow> bytes" where
  "received evs = concat (map got_bytes evs)"

lemma history_simps [simp]:
  "messages [] = []" "received [] = []" "messages (ev # evs) = sent_message ev @ messages evs"
  "messages (evs @ [ev]) = messages evs @ sent_message ev"
  "received (evs @ [ev]) = received evs @ got_bytes ev"
  by (simp_all add: messages_def received_def)

text \<open>What a well-behaved peer sends: non-empty binary messages, then perhaps the end.\<close>

fun peer_ok :: "'m message list \<Rightarrow> bool" where
  "peer_ok [] \<longleftrightarrow> True"
| "peer_ok (Binary b # ms) \<longleftrightarrow> b \<noteq> [] \<and> peer_ok ms"
| "peer_ok (Text t # ms) \<longleftrightarrow> t = ''EOF'' \<and> ms = []"
| "peer_ok (Other _ # ms) \<longleftrightarrow> False"

text \<open>The bytes of the binary messages before the end.\<close>

fun stream_data :: "'m message list \<Rightarrow> bytes" where
  "stream_data (Binary b # ms) = b @ stream_data ms"
| "stream_data _ = []"

text \<open>A history that writes no empty buffer and nothing after the end.\<close>

definition silent :: "io_event \<Rightarrow> bool" where
  "silent ev = (case ev of Wrote _ \<Rightarrow> False | SentEof \<Rightarrow> False | _ \<Rightarrow> True)"

fun orderly :: "io_event list \<Rightarrow> bool" where
  "orderly [] = True"
| "orderly (Wrote b # evs) = (b \<noteq> [] \<and> orderly evs)"
| "orderly (SentEof # evs) = list_all silent evs"
| "orderly (_ # evs) = orderly evs"

fun written :: "io_event list \<Rightarrow> bytes" where
  "written [] = []"
| "written (Wrote b # evs) = b @ written evs"
| "written (_ # evs) = written evs"

lemma silent_messages: "list_all silent evs \<Longrightarrow> messages evs = [] \<and> written evs = []"
  by (induction evs) (auto simp: messages_def silent_def split: io_event.splits)

lemma orderly_messages:
  "orderly evs \<Longrightarrow> peer_ok (messages evs) \<and> stream_data (messages evs) = written evs"
proof (induction evs rule: orderly.induct)
  case (3 evs)
  then show ?case by (simp add: silent_messages eof_message_def)
qed simp_all

lemma close_read_fields [simp]:
  "read_closed (close_read s)" "chunk (close_read s) = chunk s" "ws_stream (close_read s) = ws_stream s"
  "write_closed (close_read s) = write_closed s"
  by (simp_all add: close_read_def wake_def Let_def)

lemma is_eof_simps [simp]: "\<not> is_eof (Binary b)" "is_eof (Text t) \<longleftrightarrow> t = ''EOF''" "is_eof eof_message"
  by (simp_all add: is_eof_def eof_message_def)

section \<open>The interface of the WebSocket\<close>

text \<open>
  \<open>incoming\<close> are the messages that will be delivered, \<open>sent\<close> those accepted for sending.
\<close>

locale ws_channel =
  fixes W :: "('m, 'e, 'w) ws_ops"
    and incoming :: "'w \<Rightarrow> 'm message list"
    and sent :: "'w \<Rightarrow> 'm message list"
  assumes next_message: "ws_poll_next W w = (Ready (Some (Inr m)), w') \<Longrightarrow>
      incoming w = m # incoming w' \<and> sent w' = sent w"
    and next_end: "ws_poll_next W w = (Ready None, w') \<Longrightarrow> incoming w = [] \<and> incoming w' = [] \<and> sent w' = sent w"
    and next_pending: "ws_poll_next W w = (Pending, w') \<Longrightarrow> incoming w' = incoming w \<and> sent w' = sent w"
    and next_error: "ws_poll_next W w = (Ready (Some (Inl e)), w') \<Longrightarrow> sent w' = sent w"
    and send_ok: "ws_start_send W m w = (Inr u, w') \<Longrightarrow> sent w' = sent w @ [m] \<and> incoming w' = incoming w"
    and send_error: "ws_start_send W m w = (Inl e, w') \<Longrightarrow> sent w' = sent w \<and> incoming w' = incoming w"
    and ready_keeps: "ws_poll_ready W w = (r, w') \<Longrightarrow> sent w' = sent w \<and> incoming w' = incoming w"
    and flush_keeps: "ws_poll_flush W w = (r, w') \<Longrightarrow> sent w' = sent w \<and> incoming w' = incoming w"
    and close_keeps: "ws_poll_close W w = (r, w') \<Longrightarrow> sent w' = sent w \<and> (incoming w = [] \<longrightarrow> incoming w' = [])"
    and binary_data: "into_data W (Binary b) = b"
begin

text \<open>Writing: what has been accepted for sending grows exactly by the messages of the step.\<close>

lemma read_sent: "poll_read W n s = Normal (r, s') \<Longrightarrow>
    sent (ws_stream s') = sent (ws_stream s) \<and> write_closed s' = write_closed s"
  by (auto simp: poll_read_def poll_fill_buf_def consume_def close_read_def wake_def Let_def
      split: if_splits option.splits prod.splits poll.splits sum.splits outcome.splits
      dest: next_message next_end next_pending next_error)

lemma shutdown_wait_sent: "shutdown_wait W s = (r, s') \<Longrightarrow>
    sent (ws_stream s') = sent (ws_stream s) \<and> write_closed s' = write_closed s"
  by (auto simp: shutdown_wait_def split: if_splits prod.splits dest: close_keeps)

lemma shutdown_sent:
  assumes "poll_shutdown W s = (r, s')"
  shows "sent (ws_stream s') = sent (ws_stream s) @ (if write_closed s' \<and> \<not> write_closed s then [eof_message] else []) \<and>
    (write_closed s \<longrightarrow> write_closed s')"
  using assms
  by (auto simp: poll_shutdown_def split: if_splits prod.splits poll.splits sum.splits
      dest!: shutdown_wait_sent ready_keeps send_ok send_error)

lemma write_sent: "poll_write W buf s = (r, s') \<Longrightarrow>
    sent (ws_stream s') = sent (ws_stream s) @ (case r of Ready (Inr _) \<Rightarrow> [Binary buf] | _ \<Rightarrow> []) \<and>
    write_closed s' = write_closed s"
  by (auto simp: poll_write_def split: prod.splits poll.splits sum.splits
      dest!: ready_keeps send_ok send_error)

lemma step_sent: "io_step W s ev s' \<Longrightarrow>
    sent (ws_stream s') = sent (ws_stream s) @ sent_message ev \<and>
    (write_closed s' \<longleftrightarrow> write_closed s \<or> ev = SentEof) \<and> (ev = SentEof \<longrightarrow> \<not> write_closed s)"
proof (induction rule: io_step.induct)
  case (writes buf s r s')
  from write_sent [OF this] show ?case by (auto split: poll.splits sum.splits)
next
  case (flushes s r s')
  then show ?case by (auto simp: poll_flush_def split: prod.splits dest: flush_keeps)
next
  case (shuts s r s')
  from shutdown_sent [OF this] show ?case by auto
next
  case (reads n s r s')
  from read_sent [OF reads(2)] show ?case by (auto split: poll.splits sum.splits)
qed

lemma trace_sent: "io_trace W (ws_io_new w) evs s \<Longrightarrow>
    sent (ws_stream s) = sent w @ messages evs \<and> (write_closed s \<longleftrightarrow> SentEof \<in> set evs) \<and>
    length (filter (\<lambda>ev. ev = SentEof) evs) \<le> 1"
proof (induction rule: io_trace.induct)
  case (step evs s ev s')
  then have "SentEof \<notin> set evs \<Longrightarrow> filter (\<lambda>ev. ev = SentEof) evs = []" by (auto simp: filter_empty_conv)
  with step step_sent [OF step.hyps(2)] show ?case by auto
qed (simp add: ws_io_new_def)

text \<open>
  Reading: the bytes still to come are the rest of the chunk and the data of the messages
  that will arrive.
\<close>

definition pending :: "'w ws_io \<Rightarrow> bytes" where
  "pending s = (case chunk s of None \<Rightarrow> [] | Some c \<Rightarrow> c) @ stream_data (incoming (ws_stream s))"

definition read_inv :: "'w ws_io \<Rightarrow> bool" where
  "read_inv s \<longleftrightarrow> chunk s \<noteq> Some [] \<and> peer_ok (incoming (ws_stream s)) \<and>
     (read_closed s \<longrightarrow> incoming (ws_stream s) = [] \<and> chunk s = None)"

lemma fill_buf_message:
  assumes "read_inv s" and "chunk s = None" and "ws_poll_next W (ws_stream s) = (Ready (Some (Inr m)), w)"
  shows "if is_eof m then incoming w = [] \<and> pending s = []
    else \<exists>b. m = Binary b \<and> b \<noteq> [] \<and> into_data W m = b \<and> peer_ok (incoming w) \<and> \<not> read_closed s \<and>
      pending s = b @ stream_data (incoming w)"
proof -
  have "peer_ok (m # incoming w)" "pending s = stream_data (m # incoming w)" "\<not> read_closed s"
    using assms next_message [OF assms(3)] by (auto simp: read_inv_def pending_def)
  then show ?thesis by (cases m) (auto simp: binary_data is_eof_def eof_message_def)
qed

lemma fill_buf_read:
  assumes "read_inv s" and "poll_fill_buf W s = (r, s')" and "\<And>e. r \<noteq> Ready (Inl e)"
  shows "read_inv s' \<and> (case r of
      Pending \<Rightarrow> pending s' = pending s \<and> read_closed s' = read_closed s
    | Ready (Inl e) \<Rightarrow> False
    | Ready (Inr inner) \<Rightarrow> if inner = [] then pending s = [] \<and> pending s' = [] \<and> read_closed s'
        else chunk s' = Some inner \<and> pending s' = pending s \<and> \<not> read_closed s \<and> \<not> read_closed s')"
proof (cases "chunk s")
  case (Some c)
  with assms show ?thesis by (auto simp: poll_fill_buf_def read_inv_def)
next
  case None
  obtain x w where n: "ws_poll_next W (ws_stream s) = (x, w)" by fastforce
  show ?thesis
  proof (cases x)
    case Pending
    with assms None n next_pending [of "ws_stream s"] show ?thesis
      by (auto simp: poll_fill_buf_def read_inv_def pending_def)
  next
    case (Ready y)
    show ?thesis
    proof (cases y)
      case None' [simp]: None
      from assms None n Ready next_end [of "ws_stream s"] show ?thesis
        by (auto simp: poll_fill_buf_def read_inv_def pending_def Let_def split: if_splits)
    next
      case (Some z)
      then obtain m where m: "z = Inr m" using assms None n Ready by (cases z) (auto simp: poll_fill_buf_def)
      with fill_buf_message [OF assms(1) None] n Ready Some show ?thesis
        using assms None
        by (fastforce simp: poll_fill_buf_def read_inv_def pending_def Let_def split: if_splits)
    qed
  qed
qed

lemma read_read:
  assumes "read_inv s" and "0 < n" and "poll_read W n s = Normal (r, s')" and "\<And>e. r \<noteq> Ready (Inl e)"
  shows "read_inv s' \<and> (case r of
      Pending \<Rightarrow> pending s' = pending s \<and> read_closed s' = read_closed s
    | Ready (Inl e) \<Rightarrow> False
    | Ready (Inr bs) \<Rightarrow> pending s = bs @ pending s' \<and> (bs = [] \<longrightarrow> pending s = []) \<and> length bs \<le> n \<and>
        (read_closed s' \<longleftrightarrow> bs = []) \<and> (read_closed s \<longrightarrow> bs = []))"
proof -
  obtain r1 s1 where f: "poll_fill_buf W s = (r1, s1)" by fastforce
  show ?thesis
  proof (cases r1)
    case Pending
    with assms f fill_buf_read [OF assms(1) f] show ?thesis by (auto simp: poll_read_def)
  next
    case (Ready y)
    then obtain inner where y: "y = Inr inner" using assms f by (cases y) (auto simp: poll_read_def)
    note fb = fill_buf_read [OF assms(1) f, simplified Ready y, simplified]
    show ?thesis
    proof (cases "inner = []")
      case True
      with fb assms(2,3) f Ready y show ?thesis by (auto simp: poll_read_def consume_def)
    next
      case False
      with fb have fb: "read_inv s1" "chunk s1 = Some inner" "pending s1 = pending s" "\<not> read_closed s"
        "\<not> read_closed s1" by auto
      let ?k = "min (length inner) n"
      have r: "r = Ready (Inr (take ?k inner))"
        and s': "s' = s1\<lparr>chunk := if drop ?k inner = [] then None else Some (drop ?k inner)\<rparr>"
        using assms(2,3) f Ready y False fb(2) by (auto simp: poll_read_def consume_def Let_def)
      have "pending s' = drop ?k inner @ stream_data (incoming (ws_stream s1))"
        by (simp add: s' pending_def)
      moreover have "pending s = inner @ stream_data (incoming (ws_stream s1))"
        using fb(2,3) by (simp add: pending_def)
      ultimately have "pending s = take ?k inner @ pending s'" by (metis append_assoc append_take_drop_id)
      moreover have "read_inv s'" "\<not> read_closed s'" using fb by (auto simp: s' read_inv_def)
      moreover have "take ?k inner \<noteq> []" using False assms(2) by simp
      ultimately show ?thesis using fb(4) by (auto simp: r min_def split: if_splits)
    qed
  qed
qed

text \<open>The calls of the writing side leave the reading side alone.\<close>

lemma write_read: "poll_write W buf s = (r, s') \<Longrightarrow>
    incoming (ws_stream s') = incoming (ws_stream s) \<and> chunk s' = chunk s \<and> read_closed s' = read_closed s"
  by (auto simp: poll_write_def split: prod.splits poll.splits sum.splits
      dest!: ready_keeps send_ok send_error)

lemma shutdown_read:
  assumes "poll_shutdown W s = (r, s')" and "read_inv s"
  shows "read_inv s' \<and> pending s' = pending s \<and> read_closed s' = read_closed s"
proof -
  have wait: "shutdown_wait W t = (r, s') \<Longrightarrow> read_inv t \<Longrightarrow>
      read_inv s' \<and> pending s' = pending t \<and> read_closed s' = read_closed t" for t
    by (auto simp: shutdown_wait_def read_inv_def pending_def split: if_splits prod.splits dest!: close_keeps)
  show ?thesis
  proof (cases "shutdown_wait W s = (r, s')")
    case True
    with wait assms(2) show ?thesis by blast
  next
    case False
    then obtain x w where p: "ws_poll_ready W (ws_stream s) = (x, w)" and "\<not> write_closed s"
      using assms(1) by (cases "ws_poll_ready W (ws_stream s)") (auto simp: poll_shutdown_def split: if_splits)
    with assms(1) consider w' where "s' = s\<lparr>ws_stream := w'\<rparr>" "incoming w' = incoming w"
      | w' where "shutdown_wait W (s\<lparr>ws_stream := w', write_closed := True\<rparr>) = (r, s')" "incoming w' = incoming w"
      by (auto simp: poll_shutdown_def split: prod.splits poll.splits sum.splits dest: send_ok send_error)
    then show ?thesis
      using ready_keeps [OF p] assms(2) by cases (auto simp: read_inv_def pending_def dest!: wait)
  qed
qed

lemma step_read:
  assumes "io_step W s ev s'" and "read_inv s" and "ev \<noteq> ReadFailed"
  shows "read_inv s' \<and> pending s = got_bytes ev @ pending s' \<and> (ev = Got [] \<longrightarrow> pending s = []) \<and>
    (read_closed s' \<longleftrightarrow> read_closed s \<or> ev = Got [])"
  using assms
proof (induction rule: io_step.induct)
  case (writes buf s r s')
  with write_read [OF writes(1)] show ?case
    by (auto simp: read_inv_def pending_def split: poll.splits sum.splits)
next
  case (flushes s r s')
  then show ?case by (auto simp: poll_flush_def read_inv_def pending_def split: prod.splits dest!: flush_keeps)
next
  case (shuts s r s')
  then show ?case using shutdown_read by auto
next
  case (reads n s r s')
  have "\<And>e. r \<noteq> Ready (Inl e)" using reads(4) by auto
  note r = read_read [OF reads(3,1,2) this]
  show ?case
  proof (cases r)
    case Pending
    with r show ?thesis by simp
  next
    case (Ready x)
    with reads(4) obtain bs where "r = Ready (Inr bs)" by (cases x) auto
    with r show ?thesis by auto
  qed
qed

lemma trace_read:
  "io_trace W (ws_io_new w) evs s \<Longrightarrow> peer_ok (incoming w) \<Longrightarrow> ReadFailed \<notin> set evs \<Longrightarrow>
   read_inv s \<and> stream_data (incoming w) = received evs @ pending s \<and>
   (Got [] \<in> set evs \<longrightarrow> pending s = []) \<and> (read_closed s \<longleftrightarrow> Got [] \<in> set evs)"
proof (induction rule: io_trace.induct)
  case start
  then show ?case by (simp add: read_inv_def pending_def ws_io_new_def)
next
  case (step evs s ev s')
  then have IH: "read_inv s \<and> stream_data (incoming w) = received evs @ pending s \<and>
     (Got [] \<in> set evs \<longrightarrow> pending s = []) \<and> (read_closed s \<longleftrightarrow> Got [] \<in> set evs)" by simp
  with step_read [OF step.hyps(2)] step.prems show ?case by auto
qed

end

section \<open>Safety without any assumption on the WebSocket\<close>

lemma fill_buf_chunk: "poll_fill_buf W s = (Ready (Inr inner), s') \<Longrightarrow> inner \<noteq> [] \<Longrightarrow> chunk s' = Some inner"
  by (auto simp: poll_fill_buf_def Let_def split: option.splits prod.splits poll.splits sum.splits if_splits)

lemma read_no_panic: "poll_read W n s \<noteq> Panic"
proof -
  obtain r s' where "poll_fill_buf W s = (r, s')" by fastforce
  with fill_buf_chunk [of W s _ s'] show ?thesis
    by (cases r) (auto simp: poll_read_def consume_def Let_def split: sum.split option.split outcome.split)
qed

text \<open>A shutdown that waits has registered its waker, and the end of the peer's data wakes it.\<close>

definition waker_inv :: "'w ws_io \<Rightarrow> bool" where
  "waker_inv s \<longleftrightarrow> (write_closed s \<and> \<not> read_closed s \<longrightarrow> waker s)"

lemma shutdown_wait_waker: "shutdown_wait W s = (r, s') \<Longrightarrow>
    waker_inv s' \<and> read_closed s' = read_closed s \<and> wakes s' = wakes s"
  by (auto simp: shutdown_wait_def waker_inv_def split: if_splits prod.splits)

lemma fill_buf_waker:
  assumes "poll_fill_buf W s = (r, s')" and "waker_inv s"
  shows "waker_inv s' \<and> write_closed s' = write_closed s \<and> (read_closed s \<longrightarrow> read_closed s') \<and>
    (read_closed s' \<and> \<not> read_closed s \<and> write_closed s \<longrightarrow> wakes s' = Suc (wakes s))"
  using assms
  by (auto simp: poll_fill_buf_def waker_inv_def close_read_def wake_def Let_def
      split: option.splits prod.splits poll.splits sum.splits if_splits)

lemma consume_waker: "consume k s = Normal s' \<Longrightarrow> waker s' = waker s \<and> wakes s' = wakes s \<and>
    read_closed s' = read_closed s \<and> write_closed s' = write_closed s"
  by (auto simp: consume_def split: if_splits option.splits)

lemma step_waker:
  assumes "io_step W s ev s'" and "waker_inv s"
  shows "waker_inv s' \<and> (read_closed s' \<and> \<not> read_closed s \<and> write_closed s \<longrightarrow> wakes s' = Suc (wakes s))"
  using assms
proof (induction rule: io_step.induct)
  case (writes buf s r s')
  then show ?case
    by (auto simp: poll_write_def waker_inv_def split: prod.splits poll.splits sum.splits)
next
  case (flushes s r s')
  then show ?case by (auto simp: poll_flush_def waker_inv_def split: prod.splits)
next
  case (shuts s r s')
  then show ?case
    by (auto simp: poll_shutdown_def waker_inv_def split: prod.splits poll.splits sum.splits if_splits
        dest!: shutdown_wait_waker)
next
  case (reads n s r s')
  obtain r1 s1 where f: "poll_fill_buf W s = (r1, s1)" by fastforce
  have "waker_inv s' \<longleftrightarrow> waker_inv s1" "read_closed s' = read_closed s1" "wakes s' = wakes s1"
    using reads(1,2) f
    by (auto simp: poll_read_def waker_inv_def Let_def split: poll.splits sum.splits outcome.splits
        dest!: consume_waker)
  with fill_buf_waker [OF f reads(3)] show ?case by simp
qed

lemma trace_waker: "io_trace W (ws_io_new w) evs s \<Longrightarrow> waker_inv s"
  by (induction rule: io_trace.induct) (auto simp: waker_inv_def ws_io_new_def dest: step_waker [unfolded waker_inv_def])

section \<open>A WebSocket of queues\<close>

text \<open>The messages to deliver, whether the peer is still there, the send buffer and the wire.\<close>

record 'm ws_queues =
  q_in :: "'m message list"
  q_open :: bool
  q_out :: "'m message list"
  q_wire :: "'m message list"

definition q_flush :: "'m ws_queues \<Rightarrow> (unit + unit) poll \<times> 'm ws_queues" where
  "q_flush q = (Ready (Inr ()), q\<lparr>q_wire := q_wire q @ q_out q, q_out := []\<rparr>)"

definition queue_ws :: "(bytes, unit, bytes ws_queues) ws_ops" where
  "queue_ws = \<lparr>
     ws_poll_ready = (\<lambda>q. (Ready (Inr ()), q)),
     ws_start_send = (\<lambda>m q. (Inr (), q\<lparr>q_out := q_out q @ [m]\<rparr>)),
     ws_poll_flush = q_flush,
     ws_poll_close = q_flush,
     ws_poll_next = (\<lambda>q. case q_in q of
         [] \<Rightarrow> (if q_open q then Pending else Ready None, q)
       | m # ms \<Rightarrow> (Ready (Some (Inr m)), q\<lparr>q_in := ms\<rparr>)),
     into_data = (\<lambda>m. case m of Text t \<Rightarrow> as_bytes t | Binary b \<Rightarrow> b | Other b \<Rightarrow> b)\<rparr>"

definition queues_of :: "'m message list \<Rightarrow> 'm ws_queues" where
  "queues_of ms = \<lparr>q_in = ms, q_open = True, q_out = [], q_wire = []\<rparr>"

interpretation queue_ws: ws_channel queue_ws q_in "\<lambda>q. q_wire q @ q_out q"
  by unfold_locales (auto simp: queue_ws_def q_flush_def split: list.splits if_splits)

section \<open>Properties\<close>

text \<open>
  Between two ends whose WebSockets carry the messages over, the reader gets exactly
  the bytes that were written, in order, however the writes and reads cut them: what it
  has read so far is a prefix of what was written, and when a read reports the end it has
  read all of it.  The two sides may interleave with their other direction in any way.
\<close>

theorem simplex_transfers_bytes:
  assumes "ws_channel A in_a sent_a" and "ws_channel B in_b sent_b"
    and "io_trace A (ws_io_new wa) evs_a sa" and "orderly evs_a" and "sent_a wa = []"
    and "in_b wb = sent_a (ws_stream sa)"
    and "io_trace B (ws_io_new wb) evs_b sb" and "ReadFailed \<notin> set evs_b"
  shows "\<exists>rest. written evs_a = received evs_b @ rest \<and> (Got [] \<in> set evs_b \<longrightarrow> rest = [])"
proof -
  have "in_b wb = messages evs_a" using ws_channel.trace_sent [OF assms(1,3)] assms(5,6) by simp
  then have "peer_ok (in_b wb)" "stream_data (in_b wb) = written evs_a"
    by (simp_all add: orderly_messages [OF assms(4)])
  with ws_channel.trace_read [OF assms(2,7) _ assms(8)] show ?thesis by auto
qed

theorem simplex_transfers_bytes_witness:
  "\<exists>rest. written [Wrote [1, 2, 3], SentEof] = received [Got [1, 2]] @ rest"
proof -
  let ?a = "ws_io_new (queues_of [] :: bytes ws_queues)"
  obtain s1 where 1: "poll_write queue_ws [1, 2, 3] ?a = (Ready (Inr 3), s1)" "\<not> write_closed s1"
    "q_wire (ws_stream s1) @ q_out (ws_stream s1) = [Binary [1, 2, 3]]"
    by (simp add: poll_write_def queue_ws_def ws_io_new_def queues_of_def)
  obtain r s2 where 2: "poll_shutdown queue_ws s1 = (r, s2)" by fastforce
  have s2: "write_closed s2"
    "q_wire (ws_stream s2) @ q_out (ws_stream s2) = [Binary [1, 2, 3], eof_message]"
    using 1(2,3) 2 by (auto simp: poll_shutdown_def shutdown_wait_def queue_ws_def q_flush_def split: if_splits)
  have a: "io_trace queue_ws ?a [Wrote [1, 2, 3], SentEof] s2"
    using io_trace.step [OF io_trace.step [OF io_trace.start io_step.writes [OF 1(1)]] io_step.shuts [OF 2]]
      s2(1) 1(2) by simp
  let ?b = "ws_io_new (queues_of [Binary [1, 2, 3], eof_message :: bytes message])"
  obtain s3 where "poll_read queue_ws 2 ?b = Normal (Ready (Inr [1, 2]), s3)"
    by (simp add: poll_read_def poll_fill_buf_def consume_def queue_ws_def ws_io_new_def queues_of_def)
  then have b: "io_trace queue_ws ?b [Got [1, 2]] s3"
    using io_trace.step [OF io_trace.start io_step.reads, of 2] by fastforce
  from simplex_transfers_bytes [OF queue_ws.ws_channel_axioms queue_ws.ws_channel_axioms a _ _ _ b]
  show ?thesis using s2(2) by (auto simp: queues_of_def)
qed

text \<open>
  What is sent are the accepted writes as binary messages in their order, each
  reported with its full length, and one end-of-data message at most, sent by the first
  shutdown that gets through.
\<close>

theorem simplex_sends_in_order:
  assumes "ws_channel W incoming sent" and "io_trace W (ws_io_new w) evs s"
  shows "sent (ws_stream s) = sent w @ messages evs \<and> (write_closed s \<longleftrightarrow> SentEof \<in> set evs) \<and>
    length (filter (\<lambda>ev. ev = SentEof) evs) \<le> 1 \<and>
    (\<forall>buf n s'. poll_write W buf s = (Ready (Inr n), s') \<longrightarrow> n = length buf)"
  using ws_channel.trace_sent [OF assms]
  by (auto simp: poll_write_def split: prod.splits poll.splits sum.splits)

theorem simplex_sends_in_order_witness:
  "\<exists>s. io_trace queue_ws (ws_io_new (queues_of [])) [Wrote [7]] s \<and>
     q_wire (ws_stream s) @ q_out (ws_stream s) = messages [Wrote [7]]"
proof -
  obtain s where "poll_write queue_ws [7] (ws_io_new (queues_of [])) = (Ready (Inr 1), s)"
    by (simp add: poll_write_def queue_ws_def)
  from io_trace.step [OF io_trace.start io_step.writes [OF this]]
  have t: "io_trace queue_ws (ws_io_new (queues_of [])) [Wrote [7]] s" by simp
  with simplex_sends_in_order [OF queue_ws.ws_channel_axioms t] show ?thesis
    by (auto simp: queues_of_def)
qed

text \<open>
  C29: a read never panics, whatever the WebSocket does, and never returns more bytes than
  the caller's buffer has room for.
\<close>

theorem simplex_read_safe:
  "\<exists>r s'. poll_read W n s = Normal (r, s') \<and> (case r of Ready (Inr bs) \<Rightarrow> length bs \<le> n | _ \<Rightarrow> True)"
proof -
  obtain r s' where "poll_read W n s = Normal (r, s')" using read_no_panic [of W n s] by (cases "poll_read W n s") auto
  moreover from this have "r = Ready (Inr bs) \<Longrightarrow> length bs \<le> n" for bs
    by (auto simp: poll_read_def Let_def split: if_splits prod.splits poll.splits sum.splits outcome.splits)
  ultimately show ?thesis by (auto split: poll.split sum.split)
qed

text \<open>
  C30: a shutdown that waits for the peer is woken: in every history, while the own side is
  closed and the peer's is not, a waker is registered, and the call that finds the end of
  the peer's data wakes it.
\<close>

theorem simplex_shutdown_woken:
  assumes "io_trace W (ws_io_new w) evs s"
  shows "(write_closed s \<and> \<not> read_closed s \<longrightarrow> waker s) \<and>
    (\<forall>ev s'. io_step W s ev s' \<and> write_closed s \<and> \<not> read_closed s \<and> read_closed s' \<longrightarrow>
       wakes s' = Suc (wakes s))"
  using trace_waker [OF assms] step_waker [of W s] by (auto simp: waker_inv_def)

theorem simplex_shutdown_woken_witness:
  "\<exists>s. io_trace queue_ws (ws_io_new (queues_of [])) [SentEof] s \<and> write_closed s \<and> waker s"
proof -
  obtain s where s: "poll_shutdown queue_ws (ws_io_new (queues_of [])) = (Pending, s)"
    "write_closed s" "\<not> read_closed s"
    by (simp add: poll_shutdown_def shutdown_wait_def queue_ws_def ws_io_new_def)
  from io_trace.step [OF io_trace.start io_step.shuts [OF s(1)]]
  have t: "io_trace queue_ws (ws_io_new (queues_of [])) [SentEof] s" using s(2) by (simp add: ws_io_new_def)
  with simplex_shutdown_woken [OF t] s show ?thesis by auto
qed

text \<open>
  C31: an empty binary message is stored as an empty chunk that no read removes: from then
  on every read reports the end of data, the messages behind it are never delivered, and
  the peer's side is not marked as closed.
\<close>

theorem simplex_empty_message_sticks:
  assumes "ws_channel W incoming sent" and "chunk s = None" and "0 < n"
    and "ws_poll_next W (ws_stream s) = (Ready (Some (Inr (Binary []))), w)"
  defines "s' \<equiv> s\<lparr>ws_stream := w, chunk := Some []\<rparr>"
  shows "poll_read W n s = Normal (Ready (Inr []), s') \<and>
    (\<forall>m. poll_read W m s' = Normal (Ready (Inr []), s')) \<and> read_closed s' = read_closed s"
  using assms(2-4) ws_channel.binary_data [OF assms(1)]
  by (simp add: s'_def poll_read_def poll_fill_buf_def consume_def Let_def)

theorem simplex_empty_message_sticks_witness:
  "\<forall>m. poll_read queue_ws m ((ws_io_new (queues_of [Binary [7]]))\<lparr>chunk := Some []\<rparr>) =
     Normal (Ready (Inr []), (ws_io_new (queues_of [Binary [7]]))\<lparr>chunk := Some []\<rparr>)"
  using simplex_empty_message_sticks [OF queue_ws.ws_channel_axioms,
      of "ws_io_new (queues_of [Binary [], Binary [7]])" 1 "queues_of [Binary [7]]"]
  by (simp add: ws_io_new_def queues_of_def queue_ws_def)

text \<open>
  A shutdown does not flush the end-of-data message: on a WebSocket that sends on
  flush, any number of shutdown polls leaves the message in the buffer and nothing on the
  wire for as long as the peer's side is open.
\<close>

theorem simplex_eof_not_flushed:
  "((\<lambda>s. snd (poll_shutdown queue_ws s)) ^^ Suc k) (ws_io_new (queues_of [])) =
     \<lparr>ws_stream = \<lparr>q_in = [], q_open = True, q_out = [eof_message], q_wire = []\<rparr>, read_closed = False,
       write_closed = True, waker = True, chunk = None, wakes = 0\<rparr>"
  by (induction k) (simp_all add: poll_shutdown_def shutdown_wait_def queue_ws_def ws_io_new_def queues_of_def)

end
