(* ===== verification/Routes.thy ===== *)
theory Routes
  imports Racing Happy_Eyeballs Socks5_Tunnel Http_Connector Simplex_Handshake Simplex_Io
begin

text \<open>
  The connector functions of scripts, \<^verbatim>\<open>config/engine/connect.rs\<close>, with the two connectors
  that have no component of their own, \<^verbatim>\<open>core/connector/block.rs\<close> and
  \<^verbatim>\<open>core/connector/tls.rs\<close>.  Each function parses the endpoint text it is given and runs a
  connector; scripts usually pass the text of the request they handle.
\<close>

section \<open>Definitions\<close>

definition with_endpoint :: "string \<Rightarrow> (endpoint \<Rightarrow> 'a) \<Rightarrow> endpoint_error + 'a" where
  "with_endpoint text connect = res_bind (endpoint_from_str text) (\<lambda>e. Inr (connect e))"

definition new_tcp :: "string \<Rightarrow> nat \<Rightarrow> endpoint_error + tcp_future" where
  "new_tcp text now = with_endpoint text (\<lambda>e. tcp_connect e now)"

definition new_socks5 :: "string \<Rightarrow> endpoint_error + (socks5_connect_error, unit) io_prog" where
  "new_socks5 text = with_endpoint text socks5_connect"

definition new_http ::
  "'p response_parser \<Rightarrow> string \<Rightarrow> ('i + unit) \<Rightarrow> ('i + bytes) list \<Rightarrow>
   endpoint_error + bytes \<times> ((('p, 'i) http_connect_error + unit) \<times> ('i + bytes) list) option" where
  "new_http parse text sent_ok reads = with_endpoint text (\<lambda>e. http_connect parse e sent_ok reads)"

record simplex_script_config =
  ss_host :: string
  ss_path :: string
  ss_header_name :: string
  ss_header_value :: string

definition simplex_config_of :: "simplex_script_config \<Rightarrow> simplex_config" where
  "simplex_config_of c = \<lparr>sc_host = ss_host c, sc_path = ss_path c,
     sc_secret_header = (ss_header_name c, ss_header_value c)\<rparr>"

text \<open>
  The simplex client: the request is built and sent in the WebSocket handshake
  (\<open>client_async\<close>), and the stream of messages becomes a stream of bytes.
\<close>

datatype ('e, 'w) simplex_connect_error = BadRequest "'e client_error" | WsHandshake 'w

definition simplex_connect ::
  "('u, 'h, 'v) http_lib \<Rightarrow> (string \<Rightarrow> string \<Rightarrow> 'e + 'u) \<Rightarrow> ('u \<Rightarrow> 'e + ('u, 'h) request) \<Rightarrow>
   (('u, 'h) request \<Rightarrow> 'io \<Rightarrow> 'w + 's) \<Rightarrow> endpoint \<Rightarrow> simplex_config \<Rightarrow> 'io \<Rightarrow>
   ('e, 'w) simplex_connect_error + 's ws_io" where
  "simplex_connect L build into_request client_async e config nexthop =
     (case client_request L build into_request e config of
        Inl err \<Rightarrow> Inl (BadRequest err)
      | Inr r \<Rightarrow> (case client_async r nexthop of
          Inl err \<Rightarrow> Inl (WsHandshake err)
        | Inr stream \<Rightarrow> Inr (ws_io_new stream)))"

definition new_simplex ::
  "('u, 'h, 'v) http_lib \<Rightarrow> (string \<Rightarrow> string \<Rightarrow> 'e + 'u) \<Rightarrow> ('u \<Rightarrow> 'e + ('u, 'h) request) \<Rightarrow>
   (('u, 'h) request \<Rightarrow> 'io \<Rightarrow> 'w + 's) \<Rightarrow> string \<Rightarrow> simplex_script_config \<Rightarrow> 'io \<Rightarrow>
   endpoint_error + (('e, 'w) simplex_connect_error + 's ws_io)" where
  "new_simplex L build into_request client_async text c nexthop =
     with_endpoint text (\<lambda>e. simplex_connect L build into_request client_async e (simplex_config_of c) nexthop)"

text \<open>
  TLS: the connector is created (\<open>create\<close>), then the handshake is run with the host name of
  the endpoint (\<open>handshake\<close>).
\<close>

datatype 'e tls_error = TlsCreate 'e | TlsHandshake 'e string

definition tls_connect ::
  "('e + 't) \<Rightarrow> ('t \<Rightarrow> string \<Rightarrow> 'io \<Rightarrow> 'e + 'io) \<Rightarrow> endpoint \<Rightarrow> 'io \<Rightarrow> 'e tls_error + 'io" where
  "tls_connect create handshake e nexthop =
     (case create of
        Inl err \<Rightarrow> Inl (TlsCreate err)
      | Inr t \<Rightarrow> (case handshake t (hostname e) nexthop of
          Inl err \<Rightarrow> Inl (TlsHandshake err (endpoint_to_string e))
        | Inr s \<Rightarrow> Inr s))"

definition new_tls ::
  "('e + 't) \<Rightarrow> ('t \<Rightarrow> string \<Rightarrow> 'io \<Rightarrow> 'e + 'io) \<Rightarrow> string \<Rightarrow> 'io \<Rightarrow> endpoint_error + ('e tls_error + 'io)" where
  "new_tls create handshake text nexthop = with_endpoint text (\<lambda>e. tls_connect create handshake e nexthop)"

text \<open>
  Blocking: the connector has no success, which the caller relies on with
  \<^verbatim>\<open>unreachable!()\<close>.
\<close>

datatype block_error = Blocked string

definition block_connect :: "endpoint \<Rightarrow> block_error + 'never" where
  "block_connect e = Inl (Blocked (''Connection to '' @ endpoint_to_string e @ '' is blocked''))"

definition new_block :: "string \<Rightarrow> ((endpoint_error + block_error) + 'io) outcome" where
  "new_block text =
     (case endpoint_from_str text of
        Inl err \<Rightarrow> Normal (Inl (Inl err))
      | Inr e \<Rightarrow> (case block_connect e :: block_error + unit of
          Inr _ \<Rightarrow> Panic
        | Inl err \<Rightarrow> Normal (Inl (Inr err))))"

text \<open>QUIC: the protocol names are strings of the script, then the server is parsed.\<close>

fun alpn_names :: "'x rune_value list \<Rightarrow> 'x + bytes list" where
  "alpn_names [] = Inr []"
| "alpn_names (ROther x # vs) = Inl x"
| "alpn_names (RString s # vs) = res_bind (alpn_names vs) (\<lambda>ns. Inr (as_bytes s # ns))"

datatype 'x quic_script_error = BadAlpn 'x | BadServer endpoint_error

definition new_quic_connection ::
  "((('r, 't, 'q) quic_error + 'c) finish list \<Rightarrow> (('r, 't, 'q) quic_error + 'c) finish) \<Rightarrow>
   ('r, 'm) resolver \<Rightarrow> (bytes list \<Rightarrow> 't + unit) \<Rightarrow>
   (socket_addr \<Rightarrow> socket_addr \<Rightarrow> string \<Rightarrow> ('q + 'c) finish) \<Rightarrow> string \<Rightarrow> 'x rune_value list \<Rightarrow>
   'x quic_script_error + (('r, 't, 'q) quic_error + 'c) finish outcome" where
  "new_quic_connection sel R tls dial server alpn =
     (case alpn_names alpn of
        Inl x \<Rightarrow> Inl (BadAlpn x)
      | Inr names \<Rightarrow> (case endpoint_from_str server of
          Inl e \<Rightarrow> Inl (BadServer e)
        | Inr e \<Rightarrow> Inr (create_quic_connection sel R (tls names) dial e)))"

definition new_quic :: "('c \<Rightarrow> 'e + ('s \<times> 'r)) \<Rightarrow> 'c \<Rightarrow> 'e + ('s, 'r) quic_stream" where
  "new_quic open_bi connection = quic_connect open_bi connection"

text \<open>A blocked connection is an error for every text, and never the unreachable branch.\<close>

lemma block_never_connects: "\<exists>err. new_block text = Normal (Inl err)"
  by (simp add: new_block_def block_connect_def split: sum.split)

section \<open>Properties\<close>

text \<open>
  A script that hands the text of its request on keeps the endpoint: for a canonical
  endpoint every connector function runs its connector with exactly that endpoint, and the
  TLS connector verifies the host name of the request.
\<close>

theorem script_keeps_endpoint:
  assumes "endpoint_canonical e"
  defines "text \<equiv> cr_endpoint_string (connect_request_new e)"
  shows "new_tcp text now = Inr (tcp_connect e now) \<and> new_socks5 text = Inr (socks5_connect e) \<and>
    new_http parse text w rs = Inr (http_connect parse e w rs) \<and>
    new_simplex L build into_request client_async text c nexthop =
      Inr (simplex_connect L build into_request client_async e (simplex_config_of c) nexthop) \<and>
    new_tls create handshake text io = Inr (tls_connect create handshake e io) \<and>
    (create = Inr t \<and> handshake t (cr_hostname (connect_request_new e)) io = Inr s \<longrightarrow>
      new_tls create handshake text io = Inr (Inr s))"
proof -
  have "endpoint_from_str text = Inr e"
    using endpoint_roundtrip [OF assms(1)] by (simp add: text_def cr_endpoint_string_def connect_request_new_def)
  then show ?thesis
    by (simp add: new_tcp_def new_socks5_def new_http_def new_simplex_def new_tls_def with_endpoint_def
        tls_connect_def cr_hostname_def connect_request_new_def)
qed

theorem script_keeps_endpoint_witness:
  "new_socks5 (cr_endpoint_string (connect_request_new (Domain ''x'' 80))) = Inr (socks5_connect (Domain ''x'' 80))"
  by (rule script_keeps_endpoint [OF example_endpoint(1), THEN conjunct2, THEN conjunct1])

end
