(* ===== verification/Socks5_Chain.thy ===== *)
theory Socks5_Chain
  imports Routes
begin

text \<open>
  Routes through several SOCKS5 proxies.  A script stacks connectors by passing the
  connection to one proxy as the next hop of \<^verbatim>\<open>new_socks5_async\<close> to the next
  (\<^verbatim>\<open>config/engine/connect.rs\<close>): all handshakes run one after the other over the stream to
  the first proxy, each of which forwards the bytes behind its own handshake.
\<close>

section \<open>Definitions\<close>

text \<open>
  The connections of a script whose calls of \<^verbatim>\<open>new_socks5_async\<close> are given these texts, in
  this order; the first text that is no endpoint ends it.
\<close>

datatype route_error = BadHop endpoint_error | HopFailed socks5_connect_error

fun socks5_route :: "string list \<Rightarrow> (route_error, unit) io_prog" where
  "socks5_route [] = Return ()"
| "socks5_route (text # hops) =
     (case new_socks5 text of
        Inl e \<Rightarrow> Fail (BadHop e)
      | Inr p \<Rightarrow> io_bind (io_map_error HopFailed p) (\<lambda>_. socks5_route hops))"

text \<open>
  The other side: as many dandelion acceptors behind each other, each of which answers and
  then hands the stream on to the next.
\<close>

fun socks5_proxies :: "nat \<Rightarrow> (socks5_error, endpoint list) io_prog" where
  "socks5_proxies 0 = Return []"
| "socks5_proxies (Suc n) =
     io_bind socks5_server (\<lambda>e. io_bind (socks5_proxies n) (\<lambda>es. Return (e # es)))"

section \<open>Routes of canonical endpoints\<close>

definition hop_ok :: "endpoint \<Rightarrow> bool" where
  "hop_ok e \<longleftrightarrow> endpoint_canonical e \<and> host_ok e"

abbreviation route_text :: "endpoint list \<Rightarrow> string list" where
  "route_text es \<equiv> map (\<lambda>e. cr_endpoint_string (connect_request_new e)) es"

lemma socks5_route_hop:
  assumes "hop_ok e"
  shows "socks5_route (route_text (e # es)) =
    io_bind (io_map_error HopFailed (socks5_connect e)) (\<lambda>_. socks5_route (route_text es))"
  using assms endpoint_roundtrip [of e]
  by (simp add: hop_ok_def new_socks5_def with_endpoint_def cr_endpoint_string_def connect_request_new_def)

text \<open>
  Against the proxies, a route gets through hop by hop: each acceptor sees the endpoint of
  its hop, and hands an empty handshake on.
\<close>

lemma route_finishes:
  assumes "\<forall>e\<in>set es. hop_ok e"
  shows "\<exists>n. duplex_steps n
    (Duplex (socks5_route (route_text es)) (io_bind (socks5_proxies (length es)) k) [] [])
    (Duplex (Return ()) (k (map (\<lambda>e. Domain (hostname e) (port e)) es)) [] [])"
  using assms
proof (induction es arbitrary: k)
  case Nil
  show ?case by (auto intro: duplex_steps.none)
next
  case (Cons e es)
  let ?d = "\<lambda>e. Domain (hostname e) (port e)"
  let ?rest = "socks5_route (route_text es)"
  let ?k = "\<lambda>d. io_bind (socks5_proxies (length es)) (\<lambda>ds. k (d # ds))"
  have e: "hop_ok e" using Cons.prems by simp
  obtain n where n: "duplex_steps n
      (Duplex (socks5_route (route_text (e # es))) (io_bind (socks5_proxies (length (e # es))) k) [] [])
      (Duplex ?rest (?k (?d e)) [] [])"
    using tunnel_passes_map [of e HopFailed "\<lambda>_. ?rest" ?k] e
    unfolding socks5_route_hop [OF e] by (auto simp: hop_ok_def io_bind_assoc)
  obtain m where m: "duplex_steps m (Duplex ?rest (?k (?d e)) [] [])
      (Duplex (Return ()) (k (?d e # map ?d es)) [] [])"
    using Cons.IH [of "\<lambda>ds. k (?d e # ds)"] Cons.prems by auto
  from duplex_steps_trans [OF n m] show ?case by auto
qed

text \<open>
  What a route writes, over any channel: the greetings and requests of its hops, and it reads
  exactly their replies.
\<close>

abbreviation hop_bytes :: "endpoint \<Rightarrow> bytes" where
  "hop_bytes e \<equiv> [5, 1, 0] @ connect_request_bytes e"

lemma route_sound:
  assumes "\<forall>e\<in>set es. hop_ok e" and "run (socks5_route (route_text es)) i = (Inr (), rest, out)"
  shows "out = concat (map hop_bytes es) \<and>
    (\<exists>rs. length rs = length es \<and> (\<forall>r\<in>set rs. success_reply r) \<and>
      i = concat (map (\<lambda>r. [5, 0] @ r) rs) @ rest)"
  using assms
proof (induction es arbitrary: i out)
  case (Cons e es)
  have e: "hop_ok e" using Cons.prems by simp
  have "run (io_bind (io_map_error HopFailed (socks5_connect e)) (\<lambda>_. socks5_route (route_text es))) i =
      (Inr (), rest, out)" using Cons.prems(2) unfolding socks5_route_hop [OF e] .
  then obtain j o1 o2 where 1: "run (socks5_connect e) i = (Inr (), j, o1)"
    and 2: "run (socks5_route (route_text es)) j = (Inr (), rest, o2)" and out: "out = o1 @ o2"
    by (auto simp: run_bind run_map_error split: prod.splits sum.splits failure.splits)
  obtain r where r: "o1 = hop_bytes e" "i = [5, 0] @ r @ j" "success_reply r"
    using connect_sound [OF 1] by blast
  obtain rs where rs: "o2 = concat (map hop_bytes es)" "length rs = length es"
    "\<forall>r\<in>set rs. success_reply r" "j = concat (map (\<lambda>r. [5, 0] @ r) rs) @ rest"
    using Cons.IH [OF _ 2] Cons.prems(1) by auto
  show ?case using r rs out by (intro conjI exI [of _ "r # rs"]) auto
qed simp

section \<open>Properties\<close>

text \<open>
  C5: a script can route through any number of dandelion SOCKS5 proxies.  Given the texts of
  the hops, the stacked connectors and the acceptors finish in every interleaving: the i-th
  acceptor gets the host and port of the i-th hop, the last one the target, and no byte of any
  handshake is left in the stream for the payload.  Over any channel, a route that connects
  has sent exactly the greetings and requests of its hops in order, and has read one success
  reply for each and nothing of the payload behind them.
\<close>

theorem socks5_route_connects:
  assumes "\<forall>e\<in>set es. endpoint_canonical e \<and> rust_str (hostname e) \<and> length (hostname e) \<le> 255"
  defines "route \<equiv> socks5_route (map (\<lambda>e. cr_endpoint_string (connect_request_new e)) es)"
    and "final \<equiv> Duplex (Return ()) (Return (map (\<lambda>e. Domain (hostname e) (port e)) es)) [] []"
  shows "(\<exists>n. \<forall>m t. duplex_steps m (Duplex route (socks5_proxies (length es)) [] []) t \<longrightarrow>
      m \<le> n \<and> duplex_steps (n - m) t final \<and> ((\<nexists>u. duplex_step t u) \<longrightarrow> t = final)) \<and>
    (byte_io ops inp out \<and> exec ops route c = (Inr (), c') \<longrightarrow>
      out c' = out c @ concat (map (\<lambda>e. [5, 1, 0] @ connect_request_bytes e) es) \<and>
      (\<exists>rs. length rs = length es \<and> (\<forall>r\<in>set rs. success_reply r) \<and>
        inp c = concat (map (\<lambda>r. [5, 0] @ r) rs) @ inp c'))"
proof (intro conjI impI)
  have ok: "\<forall>e\<in>set es. hop_ok e" using assms(1) by (simp add: hop_ok_def host_ok_def)
  obtain n where n: "duplex_steps n (Duplex route (socks5_proxies (length es)) [] []) final"
    using route_finishes [OF ok, of Return] by (auto simp: route_def final_def)
  from every_order_finishes [OF n [unfolded final_def]]
  show "\<exists>n. \<forall>m t. duplex_steps m (Duplex route (socks5_proxies (length es)) [] []) t \<longrightarrow>
      m \<le> n \<and> duplex_steps (n - m) t final \<and> ((\<nexists>u. duplex_step t u) \<longrightarrow> t = final)"
    unfolding final_def by blast
  { assume "byte_io ops inp out \<and> exec ops route c = (Inr (), c')"
    then obtain o' where r: "run route (inp c) = (Inr (), inp c', o')" "out c' = out c @ o'"
      using byte_io.exec_ok_run [of ops inp out route c "()" c'] by blast
    from route_sound [OF ok r(1) [unfolded route_def]] r(2)
    show "out c' = out c @ concat (map (\<lambda>e. [5, 1, 0] @ connect_request_bytes e) es)"
      "\<exists>rs. length rs = length es \<and> (\<forall>r\<in>set rs. success_reply r) \<and>
        inp c = concat (map (\<lambda>r. [5, 0] @ r) rs) @ inp c'" by auto }
qed

definition example_hops :: "endpoint list" where
  "example_hops = [Domain ''x'' 80, Domain ''x'' 80]"

lemma example_hops_ok:
  "\<forall>e\<in>set example_hops. endpoint_canonical e \<and> rust_str (hostname e) \<and> length (hostname e) \<le> 255"
proof -
  have "rust_str ''x''" by (simp add: rust_str_def as_bytes_def char_byte_def)
  then show ?thesis using example_endpoint(1) by (simp add: example_hops_def)
qed

text \<open>The replies of two acceptors, then a byte of the payload.\<close>

definition example_replies :: bytes where
  "example_replies = [5, 0, 5, 0, 0, 1, 0, 0, 0, 0, 0, 0, 5, 0, 5, 0, 0, 1, 0, 0, 0, 0, 0, 0, 9]"

lemma example_route_run:
  "\<exists>out. run (socks5_route (route_text example_hops)) example_replies = (Inr (), [9], out)"
proof -
  have hop: "hop_ok (Domain ''x'' 80)" using example_hops_ok by (simp add: hop_ok_def host_ok_def example_hops_def)
  have "success_reply ([5, 0, 0, 1] @ [0, 0, 0, 0, 0, 0])" by (rule success_reply.v4) simp
  from connect_accepts [OF _ this, of "Domain ''x'' 80"]
  have r: "\<And>rest. run (socks5_connect (Domain ''x'' 80)) (5 # 0 # 5 # 0 # 0 # 1 # 0 # 0 # 0 # 0 # 0 # 0 # rest) =
      (Inr (), rest, hop_bytes (Domain ''x'' 80))" by simp
  show ?thesis
    using socks5_route_hop [OF hop, of "[Domain ''x'' 80]"] socks5_route_hop [OF hop, of "[]"]
    by (simp add: example_hops_def example_replies_def run_bind run_map_error r)
qed

definition example_route :: "(route_error, unit) io_prog" where
  "example_route = socks5_route (route_text example_hops)"

theorem socks5_route_connects_witness:
  "(\<exists>n. \<forall>m t. duplex_steps m (Duplex example_route (socks5_proxies (length example_hops)) [] []) t \<longrightarrow> m \<le> n) \<and>
    (\<exists>c'. exec script_io example_route (example_replies, []) = (Inr (), c') \<and>
      snd c' = concat (map (\<lambda>e. [5, 1, 0] @ connect_request_bytes e) example_hops))"
proof -
  obtain out where "run example_route (fst (example_replies, [] :: bytes)) = (Inr (), [9], out)"
    using example_route_run unfolding example_route_def by auto
  from script_io.run_ok_exec [OF this]
  obtain c' where c': "exec script_io example_route (example_replies, []) = (Inr (), c')" by blast
  show ?thesis
    using socks5_route_connects [OF example_hops_ok, folded example_route_def,
        of script_io fst snd "(example_replies, [])" c'] script_io.byte_io_axioms c' by auto
qed

end
