(* ===== verification/Mixed_Routes.thy ===== *)
theory Mixed_Routes
  imports Socks5_Chain
begin

text \<open>
  Routes that mix SOCKS5 and HTTP proxies.  A script passes the connection of one connector as
  the next hop of another (\<^verbatim>\<open>config/engine/connect.rs\<close>); all handshakes run over the stream to
  the first proxy.  The two connectors read differently: SOCKS5 takes exactly the bytes it
  needs, HTTP takes whatever a read gives it (\<^verbatim>\<open>core/connector/http.rs\<close>) and would lose what
  comes behind a response.  The reads of the HTTP connector return any number of the bytes that
  have arrived.
\<close>

section \<open>Definitions\<close>

text \<open>The calls of a script, \<^verbatim>\<open>new_socks5_async\<close> or \<^verbatim>\<open>new_http_async\<close>, with their target.\<close>

datatype 'a hop = Socks5Hop 'a | HttpHop 'a

datatype 'p hop_error =
    BadTarget endpoint_error
  | Socks5Failed socks5_connect_error
  | HttpFailed "('p, eof) http_connect_error"

text \<open>
  Where the script is: between two calls, in the SOCKS5 handshake, waiting for the response to
  a CONNECT request with these reads so far, or returned with an error.
\<close>

datatype 'p route_phase =
    NextHop
  | Handshaking "(socks5_connect_error, unit) io_prog"
  | Awaiting string "bytes list"
  | Broken "'p hop_error"

text \<open>
  The script with the calls it has still to make, the program of the proxies, and the bytes on
  the way to the proxies and to the script.
\<close>

datatype ('p, 'f, 'b) route = Route "'p route_phase" "string hop list" "('f, 'b) io_prog" bytes bytes

inductive route_step ::
  "'p response_parser \<Rightarrow> ('p, 'f, 'b) route \<Rightarrow> ('p, 'f, 'b) route \<Rightarrow> bool" for parse where
  start_socks5: "new_socks5 t = Inr p \<Longrightarrow>
    route_step parse (Route NextHop (Socks5Hop t # hs) q r l) (Route (Handshaking p) hs q r l)"
| bad_socks5: "new_socks5 t = Inl e \<Longrightarrow>
    route_step parse (Route NextHop (Socks5Hop t # hs) q r l) (Route (Broken (BadTarget e)) hs q r l)"
| start_http: "(new_http parse t (Inr ()) [] :: _ + _ \<times> ((('p, eof) http_connect_error + unit) \<times> _) option) = Inr (req, None) \<Longrightarrow>
    route_step parse (Route NextHop (HttpHop t # hs) q r l) (Route (Awaiting t []) hs q (r @ req) l)"
| bad_http: "(new_http parse t (Inr ()) [] :: _ + _ \<times> ((('p, eof) http_connect_error + unit) \<times> _) option) = Inl e \<Longrightarrow>
    route_step parse (Route NextHop (HttpHop t # hs) q r l) (Route (Broken (BadTarget e)) hs q r l)"
| script_write: "route_step parse (Route (Handshaking (WriteAll bs p)) hs q r l) (Route (Handshaking p) hs q (r @ bs) l)"
| script_read: "n \<le> length l \<Longrightarrow>
    route_step parse (Route (Handshaking (ReadExact n k)) hs q r l) (Route (Handshaking (k (take n l))) hs q r (drop n l))"
| socks5_done: "route_step parse (Route (Handshaking (Return u)) hs q r l) (Route NextHop hs q r l)"
| socks5_failed: "route_step parse (Route (Handshaking (Fail e)) hs q r l) (Route (Broken (Socks5Failed e)) hs q r l)"
| response_part: "bs \<noteq> [] \<Longrightarrow>
    new_http parse t (Inr ()) (map Inr (cs @ [bs])) = Inr (req, None :: ((('p, eof) http_connect_error + unit) \<times> _) option) \<Longrightarrow>
    route_step parse (Route (Awaiting t cs) hs q r (bs @ l)) (Route (Awaiting t (cs @ [bs])) hs q r l)"
| response_done: "bs \<noteq> [] \<Longrightarrow>
    new_http parse t (Inr ()) (map Inr (cs @ [bs])) = Inr (req, Some (Inr u :: ('p, eof) http_connect_error + unit, rs)) \<Longrightarrow>
    route_step parse (Route (Awaiting t cs) hs q r (bs @ l)) (Route NextHop hs q r l)"
| response_bad: "bs \<noteq> [] \<Longrightarrow>
    new_http parse t (Inr ()) (map Inr (cs @ [bs])) = Inr (req, Some (Inl err :: ('p, eof) http_connect_error + unit, rs)) \<Longrightarrow>
    route_step parse (Route (Awaiting t cs) hs q r (bs @ l)) (Route (Broken (HttpFailed err)) hs q r l)"
| proxy_write: "route_step parse (Route ph hs (WriteAll bs q) r l) (Route ph hs q r (l @ bs))"
| proxy_read: "n \<le> length r \<Longrightarrow>
    route_step parse (Route ph hs (ReadExact n k) r l) (Route ph hs (k (take n r)) (drop n r) l)"

text \<open>
  The proxies, one behind the other: dandelion's SOCKS5 acceptor, or an HTTP proxy \<open>hp\<close>.  Each
  hands its stream on when it has answered, and they note what they were asked for.
\<close>

fun proxy :: "('g, endpoint) io_prog \<Rightarrow> 'a hop \<Rightarrow> (socks5_error + 'g, endpoint) io_prog" where
  "proxy hp (Socks5Hop _) = io_map_error Inl socks5_server"
| "proxy hp (HttpHop _) = io_map_error Inr hp"

fun proxies :: "('g, endpoint) io_prog \<Rightarrow> endpoint list \<Rightarrow> 'a hop list \<Rightarrow> (socks5_error + 'g, endpoint list) io_prog" where
  "proxies hp seen [] = Return seen"
| "proxies hp seen (h # hs) = io_bind (proxy hp h) (\<lambda>e. proxies hp (seen @ [e]) hs)"

text \<open>What a proxy is asked for: SOCKS5 always names the host.\<close>

fun asked :: "endpoint hop \<Rightarrow> endpoint" where
  "asked (Socks5Hop e) = Domain (hostname e) (port e)"
| "asked (HttpHop e) = e"

text \<open>A target whose text is one word of visible characters, as a request line needs it, and not too long.\<close>

definition http_target :: "endpoint \<Rightarrow> bool" where
  "http_target e \<longleftrightarrow> endpoint_canonical e \<and> length (endpoint_to_string e) \<le> 512 \<and>
     list_all (\<lambda>c. 32 < (of_char c :: nat)) (endpoint_to_string e)"

fun target_ok_hop :: "endpoint hop \<Rightarrow> bool" where
  "target_ok_hop (Socks5Hop e) = hop_ok e"
| "target_ok_hop (HttpHop e) = http_target e"

text \<open>The calls of the script, with the text of a request for each target.\<close>

definition calls :: "endpoint hop list \<Rightarrow> string hop list" where
  "calls ds = map (map_hop (\<lambda>e. cr_endpoint_string (connect_request_new e))) ds"

section \<open>The proxies alone\<close>

text \<open>
  In so many steps of their own, from this queue, the proxies write these bytes and come to
  a program with an empty queue.
\<close>

inductive serves :: "nat \<Rightarrow> ('f, 'b) io_prog \<Rightarrow> bytes \<Rightarrow> bytes \<Rightarrow> ('f, 'b) io_prog \<Rightarrow> bool" where
  settled: "serves 0 q [] [] q"
| reads: "n \<le> length r \<Longrightarrow> serves m (k (take n r)) (drop n r) out q' \<Longrightarrow> serves (Suc m) (ReadExact n k) r out q'"
| writes: "serves m q r out q' \<Longrightarrow> serves (Suc m) (WriteAll bs q) r (bs @ out) q'"

inductive_cases serves_writeE: "serves m (WriteAll bs q) r out q'"
inductive_cases serves_readE: "serves m (ReadExact n k) r out q'"

text \<open>A program that has nothing to do before something arrives.\<close>

fun waiting :: "('f, 'b) io_prog \<Rightarrow> bool" where
  "waiting (ReadExact n k) \<longleftrightarrow> 0 < n"
| "waiting (WriteAll bs q) \<longleftrightarrow> False"
| "waiting _ \<longleftrightarrow> True"

lemma serves_run: "run p r = (Inr b, [], out) \<Longrightarrow> \<exists>m. serves m (io_bind p f) r out (f b)"
proof (induction p arbitrary: r out)
  case (ReadExact n k)
  then have n: "n \<le> length r" and "run (k (take n r)) (drop n r) = (Inr b, [], out)" by (auto split: if_splits)
  with ReadExact.IH [OF rangeI] obtain m where "serves m (io_bind (k (take n r)) f) (drop n r) out (f b)" by blast
  with serves.reads [OF n, of m "\<lambda>bs. io_bind (k bs) f"] show ?case by auto
next
  case (WriteAll bs p)
  then obtain o1 where "run p r = (Inr b, [], o1)" "out = bs @ o1" by (auto split: prod.splits)
  with WriteAll.IH show ?case by (metis io_bind.simps(4) serves.writes)
qed (auto intro: serves.settled)

lemma serves_trans: "serves m q r out q' \<Longrightarrow> serves n q' x out' q'' \<Longrightarrow> serves (m + n) q (r @ x) (out @ out') q''"
  by (induction rule: serves.induct) (auto intro: serves.intros)

lemma serves_duplex: "serves m q r out q' \<Longrightarrow> duplex_steps m (Duplex p q r l) (Duplex p q' [] (l @ out))"
proof (induction arbitrary: l rule: serves.induct)
  case (reads n r m k out q')
  show ?case by (rule duplex_steps.more [OF duplex_step.right_read [OF reads.hyps(1), where k = k] reads.IH])
next
  case (writes m q r out q' bs)
  from duplex_steps.more [OF duplex_step.right_write writes.IH] show ?case by simp
qed (simp add: duplex_steps.none)

text \<open>One step of the proxies on their way.\<close>

lemma serves_write_step:
  "serves m (WriteAll bs q) r out q' \<Longrightarrow> waiting q' \<Longrightarrow> \<exists>m' o'. m = Suc m' \<and> out = bs @ o' \<and> serves m' q r o' q'"
  by (erule serves_writeE) auto

lemma serves_read_step:
  "serves m (ReadExact n k) r out q' \<Longrightarrow> waiting q' \<Longrightarrow> n \<le> length r \<Longrightarrow>
   \<exists>m'. m = Suc m' \<and> serves m' (k (take n r)) (drop n r) out q'"
  by (erule serves_readE) auto

lemma serves_progress:
  assumes "serves m q r out q'"
  shows "(q = q' \<and> r = [] \<and> out = []) \<or> (\<exists>t. route_step parse (Route ph hs q r l) t)"
  using assms by (cases rule: serves.cases) (auto intro: route_step.proxy_write route_step.proxy_read)

text \<open>When the script has ended its handshake, only the proxies are left to move, in silence.\<close>

lemma duplex_serves:
  "duplex_steps n s t \<Longrightarrow> s = Duplex (Return a) q r l \<Longrightarrow> t = Duplex (Return a) q' [] [] \<Longrightarrow>
   l = [] \<and> serves n q r [] q'"
proof (induction arbitrary: q r l rule: duplex_steps.induct)
  case (more s s' n t)
  from more.hyps(1) show ?case
  proof (cases rule: duplex_step.cases)
    case (right_write p bs q1 r1 l1)
    with more.IH more.prems have "l1 @ bs = [] \<and> serves n q1 r1 [] q'" by simp
    with right_write more.prems serves.writes [of n q1 r1 "[]" q' "[]"] show ?thesis by simp
  next
    case (right_read m r1 p k l1)
    with more.IH more.prems have "l1 = [] \<and> serves n (k (take m r1)) (drop m r1) [] q'" by simp
    with right_read more.prems serves.reads [of m r1 n k] show ?thesis by simp
  qed (use more.prems in auto)
qed (simp add: serves.settled)

lemma waiting_stuck: "waiting q \<Longrightarrow> \<not> duplex_step (Duplex (Return a) q [] []) t"
  by (auto elim: duplex_stepE)

section \<open>The reads of a response\<close>

lemma new_http_reads:
  "endpoint_from_str t = Inr e \<Longrightarrow>
   new_http parse t (Inr ()) (map Inr cs) = Inr (as_bytes (connect_request_text e), read_response parse e (map Inr cs) [])"
  by (simp add: new_http_def with_endpoint_def http_connect_def)

lemma read_response_whole:
  assumes "response_of parse (concat (cs @ [bs])) 200" and "[] \<notin> set (cs @ [bs])"
  shows "read_response parse e (map Inr (cs @ [bs])) [] = Some (Inr (), [])"
proof -
  have "read_response parse e (map Inr cs @ [Inr bs]) [] = read_response parse e [Inr bs] (concat cs)"
    by (rule read_response_segments [OF assms(1)]) (use assms(2) in auto)
  then show ?thesis using assms by (auto simp: response_of_def)
qed

section \<open>States of a route that gets through\<close>

text \<open>The contract of an HTTP proxy: it reads the request, and answers with success then.\<close>

locale http_proxy =
  fixes parse :: "'p response_parser" and hp :: "('g, endpoint) io_prog"
  assumes answers: "http_target e \<Longrightarrow>
      \<exists>h. run hp (as_bytes (connect_request_text e)) = (Inr e, [], h) \<and> response_of parse h 200"
    and speaks_second: "\<exists>n k. hp = ReadExact n k \<and> 0 < n"

text \<open>
  The state of a route on its way through all hops \<open>all\<close>, with a bound on the steps to the next
  phase.  Between the handshakes nothing is on the way to the script, and the proxies will only
  read; in a SOCKS5 handshake both sides come to its end; in an HTTP handshake the reads so far,
  the bytes on the way and those to be written are one response.
\<close>

definition ahead :: "endpoint hop list \<Rightarrow> endpoint hop list \<Rightarrow> endpoint list \<Rightarrow> bool" where
  "ahead all ds seen \<longleftrightarrow> map asked all = seen @ map asked ds \<and> list_all target_ok_hop ds"

inductive on_way ::
  "'p response_parser \<Rightarrow> ('g, endpoint) io_prog \<Rightarrow> endpoint hop list \<Rightarrow> nat \<Rightarrow>
   ('p, socks5_error + 'g, endpoint list) route \<Rightarrow> bool" for parse hp all where
  between: "ahead all ds seen \<Longrightarrow> serves m q r [] (proxies hp seen ds) \<Longrightarrow>
    on_way parse hp all m (Route NextHop (calls ds) q r [])"
| in_socks5: "ahead all ds seen \<Longrightarrow>
    duplex_steps m (Duplex p q r l) (Duplex (Return ()) (proxies hp seen ds) [] []) \<Longrightarrow>
    on_way parse hp all m (Route (Handshaking p) (calls ds) q r l)"
| in_http: "ahead all ds seen \<Longrightarrow> serves m q r out (proxies hp seen ds) \<Longrightarrow> endpoint_from_str t = Inr e \<Longrightarrow>
    response_of parse (concat cs @ l @ out) 200 \<Longrightarrow> l @ out \<noteq> [] \<Longrightarrow> [] \<notin> set cs \<Longrightarrow>
    on_way parse hp all (m + length (l @ out)) (Route (Awaiting t cs) (calls ds) q r l)"

inductive_cases on_way_nextE: "on_way parse hp all m (Route NextHop hs q r l)"
inductive_cases on_way_socks5E: "on_way parse hp all m (Route (Handshaking p) hs q r l)"
inductive_cases on_way_httpE: "on_way parse hp all m (Route (Awaiting t cs) hs q r l)"
inductive_cases on_way_brokenE: "on_way parse hp all m (Route (Broken e) hs q r l)"

fun phase_rank :: "('p, 'f, 'b) route \<Rightarrow> nat" where
  "phase_rank (Route ph hs q r l) = 2 * length hs + (case ph of NextHop \<Rightarrow> 0 | _ \<Rightarrow> 1)"

text \<open>A step that leads on, to a later phase or closer to the next.\<close>

definition leads_on ::
  "'p response_parser \<Rightarrow> ('g, endpoint) io_prog \<Rightarrow> endpoint hop list \<Rightarrow> nat \<Rightarrow>
   ('p, socks5_error + 'g, endpoint list) route \<Rightarrow> ('p, socks5_error + 'g, endpoint list) route \<Rightarrow> bool" where
  "leads_on parse hp all m s t \<longleftrightarrow>
     (\<exists>n. on_way parse hp all n t \<and> ((phase_rank t, n), (phase_rank s, m)) \<in> less_than <*lex*> less_than)"

lemma endpoint_of_call: "endpoint_canonical e \<Longrightarrow> endpoint_from_str (cr_endpoint_string (connect_request_new e)) = Inr e"
  using endpoint_roundtrip [of e] by (simp add: cr_endpoint_string_def connect_request_new_def)

lemma calls_simps [simp]:
  "calls [] = []"
  "calls (Socks5Hop e # ds) = Socks5Hop (cr_endpoint_string (connect_request_new e)) # calls ds"
  "calls (HttpHop e # ds) = HttpHop (cr_endpoint_string (connect_request_new e)) # calls ds"
  by (simp_all add: calls_def)

lemma ahead_Cons: "ahead all (d # ds) seen \<longleftrightarrow> ahead all ds (seen @ [asked d]) \<and> target_ok_hop d"
  by (auto simp: ahead_def)

text \<open>The end of a route: every proxy has seen its target, and nothing is left on the way.\<close>

abbreviation arrived :: "endpoint hop list \<Rightarrow> ('p, 'f, endpoint list) route" where
  "arrived ds \<equiv> Route NextHop [] (Return (map asked ds)) [] []"

context http_proxy
begin

lemma waiting_proxies: "waiting (proxies hp seen ds)"
proof (cases ds)
  case (Cons d ds')
  show ?thesis
  proof (cases d)
    case (HttpHop x)
    with Cons speaks_second show ?thesis by auto
  qed (simp add: Cons socks5_server_def socks5_handshake_def)
qed simp

text \<open>The start of a hop.\<close>

lemma start_socks5_leads:
  assumes "ahead all (Socks5Hop e # ds) seen" and "serves m q r [] (proxies hp seen (Socks5Hop e # ds))"
  shows "\<exists>n. on_way parse hp all n (Route (Handshaking (socks5_connect e)) (calls ds) q r [])"
proof -
  let ?a = "Domain (hostname e) (port e)"
  have h: "host_ok e" using assms(1) by (simp add: ahead_Cons hop_ok_def)
  obtain n where n: "duplex_steps n (Duplex (socks5_connect e) (proxies hp seen (Socks5Hop e # ds)) [] [])
      (Duplex (Return ()) (proxies hp (seen @ [?a]) ds) [] [])"
    using tunnel_passes [OF h, of "\<lambda>e. e" Return Inl "\<lambda>e. proxies hp (seen @ [e]) ds"] by auto
  have "duplex_steps m (Duplex (socks5_connect e) q r [])
      (Duplex (socks5_connect e) (proxies hp seen (Socks5Hop e # ds)) [] [])"
    using serves_duplex [OF assms(2), of _ "[]"] by simp
  from on_way.in_socks5 [OF _ duplex_steps_trans [OF this n]] show ?thesis
    using assms(1) by (auto simp: ahead_Cons)
qed

lemma start_http_leads:
  assumes "ahead all (HttpHop e # ds) seen" and "serves m q r [] (proxies hp seen (HttpHop e # ds))"
  shows "\<exists>n. on_way parse hp all n (Route (Awaiting (cr_endpoint_string (connect_request_new e)) [])
    (calls ds) q (r @ as_bytes (connect_request_text e)) [])"
proof -
  have e: "http_target e" using assms(1) by (simp add: ahead_Cons)
  from answers [OF this] obtain h where h: "run hp (as_bytes (connect_request_text e)) = (Inr e, [], h)"
    "response_of parse h 200" by blast
  have "run (io_map_error Inr hp :: (socks5_error + 'g, endpoint) io_prog) (as_bytes (connect_request_text e)) = (Inr e, [], h)"
    by (simp add: run_map_error h(1))
  from serves_run [OF this, of "\<lambda>e. proxies hp (seen @ [e]) ds"] obtain n where
    "serves n (proxies hp seen (HttpHop e # ds)) (as_bytes (connect_request_text e)) h (proxies hp (seen @ [e]) ds)"
    by auto
  from on_way.in_http [OF _ serves_trans [OF assms(2) this] endpoint_of_call, of all e parse "[]" "[]"]
  show ?thesis using assms(1) e h(2) by (auto simp: ahead_Cons http_target_def response_of_def)
qed

text \<open>Every step leads on, phase by phase.\<close>

lemma next_leads_on:
  assumes "on_way parse hp all m (Route NextHop hs q r l)" and "route_step parse (Route NextHop hs q r l) t"
  shows "leads_on parse hp all m (Route NextHop hs q r l) t"
proof -
  from assms(1) obtain ds seen where o: "hs = calls ds" "l = []" "ahead all ds seen" "serves m q r [] (proxies hp seen ds)"
    by (auto elim: on_way_nextE)
  have ok: "endpoint_from_str (cr_endpoint_string (connect_request_new e)) = Inr e"
    if "ds = Socks5Hop e # ds' \<or> ds = HttpHop e # ds'" for e ds'
    using that o(3) by (auto simp: ahead_Cons http_target_def hop_ok_def endpoint_of_call)
  from assms(2) show ?thesis
  proof (cases rule: route_step.cases)
    case (start_socks5 x p hs')
    then obtain e ds' where ds: "ds = Socks5Hop e # ds'" "x = cr_endpoint_string (connect_request_new e)" "hs' = calls ds'"
      using o(1) by (cases ds; cases "hd ds") auto
    have "p = socks5_connect e" using start_socks5 ds ok by (simp add: new_socks5_def with_endpoint_def)
    with start_socks5_leads [of all e ds' seen m q r] o ds start_socks5 show ?thesis by (auto simp: leads_on_def)
  next
    case (start_http x req hs')
    then obtain e ds' where ds: "ds = HttpHop e # ds'" "x = cr_endpoint_string (connect_request_new e)" "hs' = calls ds'"
      using o(1) by (cases ds; cases "hd ds") auto
    have "req = as_bytes (connect_request_text e)"
      using start_http ds ok by (simp add: new_http_def with_endpoint_def http_connect_def)
    with start_http_leads [of all e ds' seen m q r] o ds start_http show ?thesis by (auto simp: leads_on_def)
  next
    case (bad_socks5 x e hs')
    with ok o(1) show ?thesis by (cases ds; cases "hd ds") (auto simp: new_socks5_def with_endpoint_def)
  next
    case (bad_http x e hs')
    with ok o(1) show ?thesis by (cases ds; cases "hd ds") (auto simp: new_http_def with_endpoint_def)
  next
    case (proxy_write bs q')
    with serves_write_step [OF _ waiting_proxies] o(4) obtain m' where "m = Suc m'" "bs = []" "serves m' q' r [] (proxies hp seen ds)"
      by blast
    with proxy_write o show ?thesis by (auto simp: leads_on_def intro: on_way.between)
  next
    case (proxy_read n k)
    with serves_read_step [OF _ waiting_proxies] o(4) obtain m' where "m = Suc m'" "serves m' (k (take n r)) (drop n r) [] (proxies hp seen ds)"
      by blast
    with proxy_read o show ?thesis by (auto simp: leads_on_def intro: on_way.between)
  qed
qed

text \<open>In a SOCKS5 handshake both sides run as a pair, in any order.\<close>

lemma socks5_leads_on:
  assumes "on_way parse hp all m (Route (Handshaking p) hs q r l)"
    and "route_step parse (Route (Handshaking p) hs q r l) t"
  shows "leads_on parse hp all m (Route (Handshaking p) hs q r l) t"
proof -
  from assms(1) obtain ds seen where o: "hs = calls ds" "ahead all ds seen"
    "duplex_steps m (Duplex p q r l) (Duplex (Return ()) (proxies hp seen ds) [] [])"
    by (auto elim: on_way_socks5E)
  have pair: "leads_on parse hp all m (Route (Handshaking p) hs q r l) (Route (Handshaking p') hs q' r' l')"
    if "duplex_step (Duplex p q r l) (Duplex p' q' r' l')" for p' q' r' l'
  proof -
    from duplex_strip [OF o(3) waiting_stuck [OF waiting_proxies] that] obtain n where
      "m = Suc n" "duplex_steps n (Duplex p' q' r' l') (Duplex (Return ()) (proxies hp seen ds) [] [])" by blast
    then show ?thesis using o(1,2) by (auto simp: leads_on_def intro: on_way.in_socks5)
  qed
  from assms(2) show ?thesis
  proof (cases rule: route_step.cases)
    case (socks5_done u)
    then have "l = [] \<and> serves m q r [] (proxies hp seen ds)" using duplex_serves [OF o(3)] by simp
    with socks5_done o show ?thesis by (auto simp: leads_on_def intro: on_way.between [OF o(2)])
  next
    case (socks5_failed e)
    have False if "duplex_steps n s t'" "s = Duplex (Fail e) q r l" "t' = Duplex (Return ()) (proxies hp seen ds) [] []"
      for n s t' q r l
      using that by (induction arbitrary: q r l rule: duplex_steps.induct) (auto elim!: duplex_stepE)
    with o(3) socks5_failed show ?thesis by blast
  next
    case (script_write bs p')
    then show ?thesis using pair [of p' q "r @ bs" l] by (simp add: duplex_step.left_write)
  next
    case (script_read n k)
    then show ?thesis using pair [of "k (take n l)" q r "drop n l"] by (simp add: duplex_step.left_read)
  next
    case (proxy_write bs q')
    then show ?thesis using pair [of p q' r "l @ bs"] by (simp add: duplex_step.right_write)
  next
    case (proxy_read n k)
    then show ?thesis using pair [of p "k (take n r)" "drop n r" l] by (simp add: duplex_step.right_read)
  qed
qed

lemma http_leads_on:
  assumes "on_way parse hp all m (Route (Awaiting x cs) hs q r l)"
    and "route_step parse (Route (Awaiting x cs) hs q r l) t"
  shows "leads_on parse hp all m (Route (Awaiting x cs) hs q r l) t"
proof -
  from assms(1) obtain ds seen n out e where o: "hs = calls ds" "ahead all ds seen"
    "serves n q r out (proxies hp seen ds)" "endpoint_from_str x = Inr e"
    "response_of parse (concat cs @ l @ out) 200" "l @ out \<noteq> []" "[] \<notin> set cs" "m = n + length (l @ out)"
    by (auto elim: on_way_httpE)
  let ?reads = "\<lambda>bs. read_response parse e (map Inr (cs @ [bs]) :: (eof + bytes) list) []"
  have part: "?reads bs = None" if "l = bs @ l'" "bs \<noteq> []" "l' @ out \<noteq> []" for bs l'
    using read_response_segments [OF o(5), of "cs @ [bs]" "l' @ out" e "[]"] that o(7) by auto
  have whole: "?reads bs = Some (Inr (), [])" if "l = bs @ l'" "bs \<noteq> []" "l' @ out = []" for bs l'
    using read_response_whole [of parse cs bs e] that o(5,7) by auto
  have reads: "new_http parse x (Inr ()) (map Inr (cs @ [bs])) = Inr (as_bytes (connect_request_text e), ?reads bs)" for bs
    by (rule new_http_reads [OF o(4)])
  from assms(2) show ?thesis
  proof (cases rule: route_step.cases)
    case (response_part bs req l')
    then have "l' @ out \<noteq> []" using whole [of bs l'] reads [of bs] by auto
    with o on_way.in_http [OF o(2,3,4), of parse "cs @ [bs]" l'] response_part(1-3) show ?thesis
      by (auto simp: leads_on_def)
  next
    case (response_done bs req u rs l')
    then have "l' @ out = []" using part [of bs l'] reads [of bs] by (cases "l' @ out = []") auto
    with o response_done(1-3) show ?thesis by (auto simp: leads_on_def intro: on_way.between [OF o(2)])
  next
    case (response_bad bs req err rs l')
    then show ?thesis using part [of bs l'] whole [of bs l'] reads [of bs] by (cases "l' @ out = []") auto
  next
    case (proxy_write bs q')
    with serves_write_step [OF _ waiting_proxies] o(3) obtain n' o' where
      "n = Suc n'" "out = bs @ o'" "serves n' q' r o' (proxies hp seen ds)" by blast
    with proxy_write o on_way.in_http [OF o(2) _ o(4), of n' q' r o' hp parse cs "l @ bs"] show ?thesis
      by (auto simp: leads_on_def)
  next
    case (proxy_read i k)
    with serves_read_step [OF _ waiting_proxies] o(3) obtain n' where
      "n = Suc n'" "serves n' (k (take i r)) (drop i r) out (proxies hp seen ds)" by blast
    with proxy_read o on_way.in_http [OF o(2) _ o(4), of n' _ _ out hp parse cs l] show ?thesis
      by (auto simp: leads_on_def)
  qed
qed

lemma on_way_leads_on:
  assumes "on_way parse hp all m s" and "route_step parse s t"
  shows "leads_on parse hp all m s t"
proof -
  obtain ph hs q r l where s: "s = Route ph hs q r l" by (cases s)
  show ?thesis
    using assms next_leads_on socks5_leads_on http_leads_on unfolding s
    by (cases ph) (auto elim: on_way_brokenE)
qed

text \<open>A route on its way is at its end, or can go on.\<close>

lemma next_progress:
  assumes "on_way parse hp all m (Route NextHop hs q r l)"
  shows "Route NextHop hs q r l = arrived all \<or> (\<exists>t. route_step parse (Route NextHop hs q r l) t)"
proof -
  from assms obtain ds seen where o: "hs = calls ds" "l = []" "ahead all ds seen" "serves m q r [] (proxies hp seen ds)"
    by (auto elim: on_way_nextE)
  show ?thesis
  proof (cases ds)
    case Nil
    with serves_progress [OF o(4), of parse NextHop hs l] o show ?thesis by (auto simp: ahead_def)
  next
    case (Cons d ds')
    show ?thesis
    proof (cases d)
      case (Socks5Hop e)
      with Cons o(3) have "new_socks5 (cr_endpoint_string (connect_request_new e)) = Inr (socks5_connect e)"
        by (simp add: ahead_Cons hop_ok_def endpoint_of_call new_socks5_def with_endpoint_def)
      from route_step.start_socks5 [OF this] show ?thesis unfolding o(1) Cons Socks5Hop calls_simps by blast
    next
      case (HttpHop e)
      with Cons o(3) have "new_http parse (cr_endpoint_string (connect_request_new e)) (Inr ()) [] =
          Inr (as_bytes (connect_request_text e), None :: ((('p, eof) http_connect_error + unit) \<times> _) option)"
        by (simp add: ahead_Cons http_target_def endpoint_of_call new_http_def with_endpoint_def http_connect_def)
      from route_step.start_http [OF this] show ?thesis unfolding o(1) Cons HttpHop calls_simps by blast
    qed
  qed
qed

lemma handshaking_progress:
  assumes "on_way parse hp all m (Route (Handshaking p) hs q r l)"
  shows "\<exists>t. route_step parse (Route (Handshaking p) hs q r l) t"
proof (cases p)
  case (Return u)
  then show ?thesis by (blast intro: route_step.socks5_done)
next
  case (Fail e)
  then show ?thesis by (blast intro: route_step.socks5_failed)
next
  case (ReadExact n k)
  from assms ReadExact obtain t where "duplex_step (Duplex p q r l) t"
    by (auto elim!: on_way_socks5E elim: duplex_steps.cases)
  with ReadExact show ?thesis
    by (auto elim!: duplex_stepE intro: route_step.script_read route_step.proxy_write route_step.proxy_read)
next
  case (WriteAll bs p')
  then show ?thesis by (blast intro: route_step.script_write)
qed

lemma awaiting_progress:
  assumes "on_way parse hp all m (Route (Awaiting x cs) hs q r l)"
  shows "\<exists>t. route_step parse (Route (Awaiting x cs) hs q r l) t"
proof -
  from assms obtain ds seen n out e where o: "hs = calls ds"
    "serves n q r out (proxies hp seen ds)" "endpoint_from_str x = Inr e"
    "response_of parse (concat cs @ l @ out) 200" "l @ out \<noteq> []" "[] \<notin> set cs"
    by (auto elim: on_way_httpE)
  show ?thesis
  proof (cases "out = []")
    case True
    with o(4-6) have "read_response parse e (map Inr (cs @ [l]) :: (eof + bytes) list) [] = Some (Inr (), [])"
      by (intro read_response_whole) auto
    then have "new_http parse x (Inr ()) (map Inr (cs @ [l]) :: (eof + bytes) list) =
        Inr (as_bytes (connect_request_text e), Some (Inr (), []))" unfolding new_http_reads [OF o(3)] by simp
    from route_step.response_done [OF _ this, of hs q r "[]"] o(5) True show ?thesis by auto
  next
    case False
    with serves_progress [OF o(2)] show ?thesis by blast
  qed
qed

lemma on_way_progress:
  assumes "on_way parse hp all m s"
  shows "s = arrived all \<or> (\<exists>t. route_step parse s t)"
proof -
  obtain ph hs q r l where s: "s = Route ph hs q r l" by (cases s)
  show ?thesis
  proof (cases ph)
    case NextHop
    with assms next_progress [of all m hs q r l] show ?thesis by (simp add: s)
  next
    case (Broken e)
    with assms show ?thesis unfolding s by (auto elim: on_way_brokenE)
  next
    case (Handshaking p)
    with assms handshaking_progress [of all m p hs q r l] show ?thesis by (simp add: s)
  next
    case (Awaiting x cs)
    with assms awaiting_progress [of all m x cs hs q r l] show ?thesis by (simp add: s)
  qed
qed

text \<open>No run is endless, and every run comes to the end of the route.\<close>

lemma on_way_ends: "on_way parse hp all m s \<Longrightarrow> Wellfounded.accp (\<lambda>t s. route_step parse s t) s"
proof (induction "(phase_rank s, m)" arbitrary: s m rule: wf_induct_rule [OF wf_lex_prod [OF wf_less_than wf_less_than]])
  case 1
  show ?case
  proof (rule accp.accI)
    fix t assume "route_step parse s t"
    from on_way_leads_on [OF 1(2) this] obtain n where
      "on_way parse hp all n t" "((phase_rank t, n), (phase_rank s, m)) \<in> less_than <*lex*> less_than"
      by (auto simp: leads_on_def)
    with 1(1) show "Wellfounded.accp (\<lambda>t s. route_step parse s t) t" by blast
  qed
qed

lemma on_way_arrives:
  assumes "on_way parse hp all m s"
  shows "reach (route_step parse) s (arrived all)"
proof -
  from on_way_ends [OF assms] assms show ?thesis
  proof (induction arbitrary: m rule: accp.induct)
    case (accI s)
    show ?case
    proof (cases "s = arrived all")
      case False
      then obtain t where t: "route_step parse s t" using on_way_progress [OF accI.prems] by blast
      then obtain n where "on_way parse hp all n t" using on_way_leads_on [OF accI.prems] by (auto simp: leads_on_def)
      from accI.IH [OF t this] show ?thesis by (rule reach_prepend [where step_rel = "route_step parse", OF t])
    qed (simp add: reach.start)
  qed
qed

lemma on_way_reach:
  assumes "reach (route_step parse) s t" and "on_way parse hp all m s"
  shows "\<exists>n. on_way parse hp all n t"
  using assms(1)
proof (induction rule: reach.induct)
  case (step t u)
  then show ?case using on_way_leads_on [of all _ t u] by (auto simp: leads_on_def)
qed (use assms(2) in blast)

lemma on_way_start:
  assumes "list_all target_ok_hop ds"
  shows "on_way parse hp ds 0 (Route NextHop (calls ds) (proxies hp [] ds) [] [])"
  by (rule on_way.between [of _ _ "[]"]) (use assms in \<open>auto simp: ahead_def intro: serves.settled\<close>)

end

section \<open>An HTTP proxy\<close>

text \<open>
  A proxy that reads the lines of the request head up to the empty one, at most 2048 bytes, and
  answers for the second word of the first line; and a parser for the head of its response.
\<close>

primrec head_lines :: "nat \<Rightarrow> string list \<Rightarrow> string \<Rightarrow> (unit, string list) io_prog" where
  "head_lines 0 ls line = Fail ()"
| "head_lines (Suc n) ls line =
     ReadExact 1 (\<lambda>b.
     if byte_char (b ! 0) \<noteq> CHR 0x0A then head_lines n ls (line @ [byte_char (b ! 0)])
     else if line = [CHR 0x0D] then Return ls
     else head_lines n (ls @ [line]) [])"

definition ok_response :: bytes where
  "ok_response = as_bytes (''HTTP/1.1 200 OK'' @ crlf @ crlf)"

definition line_proxy :: "(unit, endpoint) io_prog" where
  "line_proxy = io_bind (head_lines 2048 [] []) (\<lambda>ls.
     case endpoint_from_str (takeWhile (\<lambda>c. c \<noteq> CHR '' '') (drop 8 (hd ls))) of
       Inl _ \<Rightarrow> Fail ()
     | Inr e \<Rightarrow> WriteAll ok_response (Return e))"

definition status_parser :: "unit response_parser" where
  "status_parser bs =
     (if length bs < 19 then Inr None
      else Inr (Some (100 * (unat (bs ! 9) - 48) + 10 * (unat (bs ! 10) - 48) + (unat (bs ! 11) - 48))))"

lemma head_lines_line:
  "CHR 0x0A \<notin> set s \<Longrightarrow> length s < n \<Longrightarrow>
   run (head_lines n ls line) (as_bytes (s @ [CHR 0x0A]) @ rest) =
   run (if line @ s = [CHR 0x0D] then Return ls else head_lines (n - Suc (length s)) (ls @ [line @ s]) []) rest"
proof (induction s arbitrary: n line)
  case Nil
  then obtain n' where "n = Suc n'" by (cases n) auto
  then show ?case by (simp add: as_bytes_def)
next
  case (Cons c s)
  then obtain n' where n': "n = Suc n'" by (cases n) auto
  with Cons.IH [of n' "line @ [c]"] Cons.prems show ?case by (auto simp: as_bytes_def)
qed

lemma head_lines_two:
  assumes "CHR 0x0A \<notin> set x" and "CHR 0x0A \<notin> set y" and "x \<noteq> [CHR 0x0D]" and "y \<noteq> [CHR 0x0D]"
    and "length x + length y + 3 < n"
  shows "run (head_lines n [] [])
      (as_bytes (x @ [CHR 0x0A]) @ as_bytes (y @ [CHR 0x0A]) @ as_bytes ([CHR 0x0D] @ [CHR 0x0A]) @ []) = (Inr [x, y], [], [])"
proof -
  have 1: "run (head_lines n [] []) (as_bytes (x @ [CHR 0x0A]) @ r) = run (head_lines (n - Suc (length x)) [x] []) r" for r
    using assms head_lines_line [of x n "[]" "[]" r] by simp
  have 2: "run (head_lines (n - Suc (length x)) [x] []) (as_bytes (y @ [CHR 0x0A]) @ r) =
      run (head_lines (n - Suc (length x) - Suc (length y)) [x, y] []) r" for r
    using assms head_lines_line [of y "n - Suc (length x)" "[x]" "[]" r] by simp
  show ?thesis
    unfolding 1 2 using assms head_lines_line [of "[CHR 0x0D]" "n - Suc (length x) - Suc (length y)" "[x, y]" "[]" "[]"]
    by simp
qed

lemma crlf_chars: "crlf = [CHR 0x0D, CHR 0x0A]"
  by (simp add: crlf_def char_of_def bit_iff_odd)

lemma status_ok: "response_of status_parser ok_response 200"
  by (simp add: response_of_def status_parser_def ok_response_def crlf_def as_bytes_def char_byte_def)

lemma visible_text:
  assumes "list_all (\<lambda>c. 32 < (of_char c :: nat)) s"
  shows "CHR 0x0A \<notin> set s" "CHR '' '' \<notin> set s"
  using assms by (auto simp: list_all_iff dest!: bspec)

lemma line_proxy_answers:
  assumes "http_target e"
  shows "run line_proxy (as_bytes (connect_request_text e)) = (Inr e, [], ok_response)"
proof -
  let ?t = "endpoint_to_string e"
  let ?l1 = "''CONNECT '' @ ?t @ '' HTTP/1.1'' @ [CHR 0x0D]" and ?l2 = "''Host: '' @ ?t @ [CHR 0x0D]"
  have t: "CHR 0x0A \<notin> set ?t" "CHR '' '' \<notin> set ?t" "length ?t \<le> 512" "endpoint_from_str ?t = Inr e"
    using assms visible_text [of ?t] endpoint_roundtrip [of e] by (simp_all add: http_target_def)
  have req: "as_bytes (connect_request_text e) =
      as_bytes (?l1 @ [CHR 0x0A]) @ as_bytes (?l2 @ [CHR 0x0A]) @ as_bytes ([CHR 0x0D] @ [CHR 0x0A]) @ []"
    by (simp add: connect_request_text_def crlf_chars as_bytes_def)
  have "run (head_lines 2048 [] []) (as_bytes (connect_request_text e)) = (Inr [?l1, ?l2], [], [])"
    unfolding req by (rule head_lines_two) (use t in simp_all)
  moreover have "takeWhile (\<lambda>c. c \<noteq> CHR '' '') (drop 8 ?l1) = ?t"
    using t(2) by (auto simp: takeWhile_append)
  ultimately show ?thesis using t(4) by (simp add: line_proxy_def run_bind)
qed

interpretation line_proxy: http_proxy status_parser line_proxy
proof unfold_locales
  show "\<exists>h. run line_proxy (as_bytes (connect_request_text e)) = (Inr e, [], h) \<and> response_of status_parser h 200"
    if "http_target e" for e
    using line_proxy_answers [OF that] status_ok by blast
  show "\<exists>n k. line_proxy = ReadExact n k \<and> 0 < n"
    by (simp add: line_proxy_def numeral_eq_Suc)
qed

section \<open>Properties\<close>

lemma accp_no_chain: "Wellfounded.accp r x \<Longrightarrow> f 0 = x \<Longrightarrow> \<exists>i. \<not> r (f (Suc i)) (f i)"
proof (induction arbitrary: f rule: accp.induct)
  case (accI x)
  show ?case
  proof (rule ccontr)
    assume *: "\<nexists>i. \<not> r (f (Suc i)) (f i)"
    then have "r (f 1) x" using accI.prems by force
    from accI.IH [OF this, of "\<lambda>i. f (Suc i)"] * show False by auto
  qed
qed

text \<open>
  C6: a script can route through any mixture of SOCKS5 and HTTP proxies.  Whatever the order in
  which script and proxies run, and however the bytes that arrive are cut into reads of the
  HTTP connector, no run is endless or gets stuck before the end of the route: there every
  handshake is done, each proxy has been asked for the target of its call, and no byte of a
  handshake is left in the stream; the HTTP connector, which throws away what it reads behind a
  response, loses nothing of the next handshake.
\<close>

theorem mixed_route_connects:
  assumes "http_proxy parse hp" and "list_all target_ok_hop ds"
  defines "start \<equiv> Route NextHop (calls ds) (proxies hp [] ds) [] []"
    and "final \<equiv> Route NextHop [] (Return (map asked ds)) [] []"
  shows "(\<forall>t. reach (route_step parse) start t \<longrightarrow>
      reach (route_step parse) t final \<and> ((\<nexists>u. route_step parse t u) \<longrightarrow> t = final)) \<and>
    (\<nexists>f. f 0 = start \<and> (\<forall>i. route_step parse (f i) (f (Suc i))))"
proof (intro conjI allI impI)
  note start = http_proxy.on_way_start [OF assms(1,2), folded start_def]
  fix t assume "reach (route_step parse) start t"
  from http_proxy.on_way_reach [OF assms(1) this start] obtain n where n: "on_way parse hp ds n t" by blast
  from http_proxy.on_way_arrives [OF assms(1) n] show "reach (route_step parse) t final" unfolding final_def .
  show "(\<nexists>u. route_step parse t u) \<Longrightarrow> t = final"
    using http_proxy.on_way_progress [OF assms(1) n] unfolding final_def by blast
next
  note start = http_proxy.on_way_start [OF assms(1,2), folded start_def]
  show "\<nexists>f. f 0 = start \<and> (\<forall>i. route_step parse (f i) (f (Suc i)))"
    using accp_no_chain [OF http_proxy.on_way_ends [OF assms(1) start]] by blast
qed

definition mixed_hops :: "endpoint hop list" where
  "mixed_hops = [HttpHop (Domain ''x'' 80), Socks5Hop (Domain ''x'' 80), HttpHop (Domain ''x'' 80)]"

theorem mixed_route_connects_witness:
  "reach (route_step status_parser)
     (Route NextHop (calls mixed_hops) (proxies line_proxy [] mixed_hops) [] [])
     (Route NextHop [] (Return [Domain ''x'' 80, Domain ''x'' 80, Domain ''x'' 80]) [] [])"
proof -
  have "endpoint_to_string (Domain ''x'' 80) = ''x:80''"
    by (simp add: show_radix_def digits_of.simps digit_char_def char_of_def bit_iff_odd)
  then have "http_target (Domain ''x'' 80)" using example_endpoint(1) by (simp add: http_target_def)
  moreover have "hop_ok (Domain ''x'' 80)"
    using example_hops_ok by (simp add: hop_ok_def host_ok_def example_hops_def)
  ultimately have "list_all target_ok_hop mixed_hops" by (simp add: mixed_hops_def)
  from mixed_route_connects [OF line_proxy.http_proxy_axioms this] show ?thesis
    by (auto simp: mixed_hops_def intro: reach.start)
qed

end
