(* ===== verification/Simplex_Link.thy ===== *)
theory Simplex_Link
  imports Simplex_Io
begin

text \<open>
  Two simplex ends against each other: a dandelion client and a dandelion server whose byte
  streams are both \<^verbatim>\<open>WebSocketStreamToAsyncWrite\<close> (\<^verbatim>\<open>core/simplex/io.rs\<close>), with the network
  between their WebSockets.  The steps are the calls of either end, in any order, and the
  arrival of messages.

  The pair refines two byte pipes, one for each direction, that can be closed and read to
  their end; everything written can be delivered; and two ends that close at the same time
  wait for each other.
\<close>

section \<open>The WebSocket and the network\<close>

text \<open>
  What the network does to a WebSocket: a message arrives, the peer hangs up.  \<open>v_wire\<close> is how
  many of the messages accepted for sending have left the send buffer.
\<close>

record ('m, 'w) ws_view =
  v_inbox :: "'w \<Rightarrow> 'm message list"
  v_sent :: "'w \<Rightarrow> 'm message list"
  v_wire :: "'w \<Rightarrow> nat"
  v_hung :: "'w \<Rightarrow> bool"
  v_arrive :: "'m message \<Rightarrow> 'w \<Rightarrow> 'w"
  v_hang :: "'w \<Rightarrow> 'w"

locale ws_end = ws_channel W "v_inbox V" "v_sent V"
  for W :: "('m, 'e, 'w) ws_ops" and V :: "('m, 'w) ws_view" +
  assumes arrive: "v_inbox V (v_arrive V m w) = v_inbox V w @ [m]" "v_sent V (v_arrive V m w) = v_sent V w"
      "v_hung V (v_arrive V m w) = v_hung V w" "v_wire V (v_arrive V m w) = v_wire V w"
    and hang: "v_inbox V (v_hang V w) = v_inbox V w" "v_sent V (v_hang V w) = v_sent V w" "v_hung V (v_hang V w)"
      "v_wire V (v_hang V w) = v_wire V w"
    and end_hung: "ws_poll_next W w = (Ready None, w') \<Longrightarrow> v_hung V w"
    and next_hung: "ws_poll_next W w = (x, w') \<Longrightarrow> v_hung V w' = v_hung V w"
    and send_hung: "ws_start_send W m w = (y, w') \<Longrightarrow> v_hung V w' = v_hung V w"
    and ready_hung: "ws_poll_ready W w = (r, w') \<Longrightarrow> v_hung V w' = v_hung V w"
    and flush_hung: "ws_poll_flush W w = (r, w') \<Longrightarrow> v_hung V w' = v_hung V w"
    and close_hung: "ws_poll_close W w = (r, w') \<Longrightarrow> v_hung V w' = v_hung V w"
    and wire_sent: "v_wire V w \<le> length (v_sent V w)"

section \<open>The link\<close>

record ('w, 'v) link =
  la :: "'w ws_io"
  lb :: "'v ws_io"
  to_b :: nat
  to_a :: nat

definition link_new :: "'w \<Rightarrow> 'v \<Rightarrow> ('w, 'v) link" where
  "link_new w v = \<lparr>la = ws_io_new w, lb = ws_io_new v, to_b = 0, to_a = 0\<rparr>"

text \<open>A caller writes no empty buffer, and nothing after it has shut the stream down.\<close>

definition allowed :: "'w ws_io \<Rightarrow> io_event \<Rightarrow> bool" where
  "allowed s ev = (case ev of Wrote b \<Rightarrow> b \<noteq> [] \<and> \<not> write_closed s | ReadFailed \<Rightarrow> False | _ \<Rightarrow> True)"

abbreviation over :: "('w \<Rightarrow> 'w) \<Rightarrow> 'w ws_io \<Rightarrow> 'w ws_io" where
  "over f s \<equiv> s\<lparr>ws_stream := f (ws_stream s)\<rparr>"

datatype link_event = EndA io_event | EndB io_event | Network

text \<open>
  The calls of the two ends and the network.  A peer hangs up only after it has closed the
  WebSocket, which \<open>poll_shutdown\<close> does when both directions have ended.
\<close>

inductive link_step ::
  "('m, 'e, 'w) ws_ops \<Rightarrow> ('m, 'w) ws_view \<Rightarrow> ('m, 'f, 'v) ws_ops \<Rightarrow> ('m, 'v) ws_view \<Rightarrow>
   ('w, 'v) link \<Rightarrow> link_event \<Rightarrow> ('w, 'v) link \<Rightarrow> bool" for WA VA WB VB where
  end_a: "io_step WA (la l) ev a \<Longrightarrow> allowed (la l) ev \<Longrightarrow> link_step WA VA WB VB l (EndA ev) (l\<lparr>la := a\<rparr>)"
| end_b: "io_step WB (lb l) ev b \<Longrightarrow> allowed (lb l) ev \<Longrightarrow> link_step WA VA WB VB l (EndB ev) (l\<lparr>lb := b\<rparr>)"
| arrive_b: "to_b l < v_wire VA (ws_stream (la l)) \<Longrightarrow>
    link_step WA VA WB VB l Network
      (l\<lparr>lb := over (v_arrive VB (v_sent VA (ws_stream (la l)) ! to_b l)) (lb l), to_b := Suc (to_b l)\<rparr>)"
| arrive_a: "to_a l < v_wire VB (ws_stream (lb l)) \<Longrightarrow>
    link_step WA VA WB VB l Network
      (l\<lparr>la := over (v_arrive VA (v_sent VB (ws_stream (lb l)) ! to_a l)) (la l), to_a := Suc (to_a l)\<rparr>)"
| hang_b: "write_closed (la l) \<Longrightarrow> read_closed (la l) \<Longrightarrow> to_b l = length (v_sent VA (ws_stream (la l))) \<Longrightarrow>
    link_step WA VA WB VB l Network (l\<lparr>lb := over (v_hang VB) (lb l)\<rparr>)"
| hang_a: "write_closed (lb l) \<Longrightarrow> read_closed (lb l) \<Longrightarrow> to_a l = length (v_sent VB (ws_stream (lb l))) \<Longrightarrow>
    link_step WA VA WB VB l Network (l\<lparr>la := over (v_hang VA) (la l)\<rparr>)"

inductive link_run ::
  "('m, 'e, 'w) ws_ops \<Rightarrow> ('m, 'w) ws_view \<Rightarrow> ('m, 'f, 'v) ws_ops \<Rightarrow> ('m, 'v) ws_view \<Rightarrow>
   ('w, 'v) link \<Rightarrow> link_event list \<Rightarrow> ('w, 'v) link \<Rightarrow> bool" for WA VA WB VB l0 where
  start: "link_run WA VA WB VB l0 [] l0"
| step: "link_run WA VA WB VB l0 evs l \<Longrightarrow> link_step WA VA WB VB l ev l' \<Longrightarrow>
    link_run WA VA WB VB l0 (evs @ [ev]) l'"

section \<open>The specification: two byte pipes\<close>

text \<open>The bytes in the pipe, whether its writer has closed it and its reader has seen the end.\<close>

record pipe =
  p_data :: bytes
  p_closed :: bool
  p_ended :: bool

definition pipe_new :: pipe where
  "pipe_new = \<lparr>p_data = [], p_closed = False, p_ended = False\<rparr>"

text \<open>What a call of an end may do to the pipe it writes, and to the pipe it reads.\<close>

fun pipe_put :: "io_event \<Rightarrow> pipe \<Rightarrow> pipe option" where
  "pipe_put (Wrote b) p = (if p_closed p then None else Some (p\<lparr>p_data := p_data p @ b\<rparr>))"
| "pipe_put SentEof p = (if p_closed p then None else Some (p\<lparr>p_closed := True\<rparr>))"
| "pipe_put _ p = Some p"

fun pipe_take :: "io_event \<Rightarrow> pipe \<Rightarrow> pipe option" where
  "pipe_take (Got b) q =
     (if b = [] then (if p_data q = [] \<and> p_closed q then Some (q\<lparr>p_ended := True\<rparr>) else None)
      else if take (length b) (p_data q) = b then Some (q\<lparr>p_data := drop (length b) (p_data q)\<rparr>)
      else None)"
| "pipe_take ReadFailed q = None"
| "pipe_take _ q = Some q"

fun pipes_step :: "link_event \<Rightarrow> pipe \<times> pipe \<Rightarrow> (pipe \<times> pipe) option" where
  "pipes_step (EndA ev) (p, q) = Option.bind (pipe_put ev p) (\<lambda>p'. map_option (\<lambda>q'. (p', q')) (pipe_take ev q))"
| "pipes_step (EndB ev) (p, q) = Option.bind (pipe_put ev q) (\<lambda>q'. map_option (\<lambda>p'. (p', q')) (pipe_take ev p))"
| "pipes_step Network pq = Some pq"

fun pipes_run :: "link_event list \<Rightarrow> pipe \<times> pipe \<Rightarrow> (pipe \<times> pipe) option" where
  "pipes_run [] pq = Some pq"
| "pipes_run (ev # evs) pq = Option.bind (pipes_step ev pq) (pipes_run evs)"

lemma pipes_run_snoc: "pipes_run (evs @ [ev]) pq = Option.bind (pipes_run evs pq) (pipes_step ev)"
proof (induction evs arbitrary: pq)
  case Nil
  show ?case by (cases "pipes_step ev pq") simp_all
next
  case (Cons e evs)
  then show ?case by (cases "pipes_step e pq") simp_all
qed

text \<open>What the specification says of a history: the events of each end, and the bytes of a direction.\<close>

fun of_a :: "link_event list \<Rightarrow> io_event list" where
  "of_a [] = []"
| "of_a (EndA ev # evs) = ev # of_a evs"
| "of_a (_ # evs) = of_a evs"

fun of_b :: "link_event list \<Rightarrow> io_event list" where
  "of_b [] = []"
| "of_b (EndB ev # evs) = ev # of_b evs"
| "of_b (_ # evs) = of_b evs"

lemma of_a_append [simp]: "of_a (evs @ evs') = of_a evs @ of_a evs'"
  by (induction evs rule: of_a.induct) simp_all

lemma of_b_append [simp]: "of_b (evs @ evs') = of_b evs @ of_b evs'"
  by (induction evs rule: of_b.induct) simp_all

lemma written_append [simp]: "written (evs @ evs') = written evs @ written evs'"
  by (induction evs rule: written.induct) simp_all

text \<open>A pipe after a history: \<open>out\<close> the events of its writer, \<open>inn\<close> those of its reader.\<close>

definition pipe_history :: "io_event list \<Rightarrow> io_event list \<Rightarrow> pipe \<Rightarrow> bool" where
  "pipe_history out inn p \<longleftrightarrow> written out = received inn @ p_data p \<and> (p_closed p \<longleftrightarrow> SentEof \<in> set out) \<and>
     (p_ended p \<longleftrightarrow> Got [] \<in> set inn) \<and> (p_ended p \<longrightarrow> p_data p = [] \<and> p_closed p)"

lemma pipe_history_put:
  "pipe_put ev p = Some p' \<Longrightarrow> pipe_history out inn p \<Longrightarrow> pipe_history (out @ [ev]) inn p'"
  by (cases ev) (auto simp: pipe_history_def split: if_splits)

lemma pipe_history_take:
  "pipe_take ev p = Some p' \<Longrightarrow> pipe_history out inn p \<Longrightarrow> pipe_history out (inn @ [ev]) p'"
  by (cases ev) (auto simp: pipe_history_def split: if_splits, (metis append_take_drop_id)+)

lemma pipes_history:
  "pipes_run evs (pipe_new, pipe_new) = Some (p, q) \<Longrightarrow>
   pipe_history (of_a evs) (of_b evs) p \<and> pipe_history (of_b evs) (of_a evs) q"
proof (induction evs arbitrary: p q rule: rev_induct)
  case Nil
  then show ?case by (auto simp: pipe_history_def pipe_new_def)
next
  case (snoc ev evs)
  then obtain p1 q1 where r: "pipes_run evs (pipe_new, pipe_new) = Some (p1, q1)" "pipes_step ev (p1, q1) = Some (p, q)"
    by (auto simp: pipes_run_snoc bind_eq_Some_conv)
  with snoc.IH [OF r(1)] show ?case
    by (cases ev) (auto simp: bind_eq_Some_conv intro: pipe_history_put pipe_history_take)
qed

section \<open>Messages of a well-behaved peer\<close>

lemma eof_message_simps [simp]: "eof_message \<noteq> Binary b" "Binary b \<noteq> eof_message"
  by (simp_all add: eof_message_def)

lemma peer_ok_append:
  "peer_ok (ms @ ns) \<longleftrightarrow> peer_ok ms \<and> (if eof_message \<in> set ms then ns = [] else peer_ok ns)"
  by (induction ms rule: peer_ok.induct) (auto simp: eof_message_def)

lemma stream_data_append:
  "peer_ok (ms @ ns) \<Longrightarrow> stream_data (ms @ ns) = stream_data ms @ stream_data ns"
  by (induction ms rule: peer_ok.induct) auto

lemma peer_ok_eof: "peer_ok [eof_message]" "stream_data [eof_message] = []"
  by (simp_all add: eof_message_def)

section \<open>One direction\<close>

text \<open>
  The reader of a direction, given the messages in transit to it and whether its peer has
  closed the direction: the end-of-data message is on its way exactly when the direction is
  closed and the end has not been read yet, and nothing is behind it.
\<close>

context ws_end
begin

definition flight :: "'w ws_io \<Rightarrow> 'm message list \<Rightarrow> bytes" where
  "flight s tr = pending s @ stream_data tr"

definition reader_inv :: "'w ws_io \<Rightarrow> 'm message list \<Rightarrow> bool \<Rightarrow> bool" where
  "reader_inv s tr closed \<longleftrightarrow>
     read_inv s \<and> peer_ok (v_inbox V (ws_stream s) @ tr) \<and>
     (closed \<longleftrightarrow> eof_message \<in> set (v_inbox V (ws_stream s) @ tr) \<or> read_closed s) \<and>
     (read_closed s \<or> v_hung V (ws_stream s) \<longrightarrow> closed \<and> tr = [])"

text \<open>What a call takes out of the inbox.\<close>

lemma fill_buf_inbox:
  assumes "poll_fill_buf W s = (r, s')" and "\<And>e. r \<noteq> Ready (Inl e)"
  shows "v_hung V (ws_stream s') = v_hung V (ws_stream s) \<and>
    (\<exists>c. v_inbox V (ws_stream s) = c @ v_inbox V (ws_stream s') \<and> (eof_message \<in> set c \<longrightarrow> r = Ready (Inr [])) \<and>
      (r = Ready (Inr []) \<and> chunk s = None \<longrightarrow> c = [eof_message] \<or> v_hung V (ws_stream s) \<or> (\<exists>m. c = [m] \<and> into_data W m = [])))"
proof (cases "chunk s")
  case (Some c)
  with assms(1) show ?thesis by (auto simp: poll_fill_buf_def)
next
  case None
  obtain x w where n: "ws_poll_next W (ws_stream s) = (x, w)" by fastforce
  note h = next_hung [OF n]
  show ?thesis
  proof (cases x)
    case Pending
    with assms None n h next_pending [of "ws_stream s"] show ?thesis by (auto simp: poll_fill_buf_def)
  next
    case (Ready y)
    show ?thesis
    proof (cases y)
      case y: None
      have "v_inbox V (ws_stream s) = []" "v_inbox V w = []" "v_hung V (ws_stream s)"
        using n Ready y next_end end_hung by blast+
      with assms(1) None n Ready y h show ?thesis by (auto simp: poll_fill_buf_def Let_def split: if_splits)
    next
      case (Some z)
      then obtain m where m: "z = Inr m" using assms None n Ready by (cases z) (auto simp: poll_fill_buf_def)
      have "v_inbox V (ws_stream s) = m # v_inbox V w" using n Ready Some m next_message by blast
      with assms(1) None n Ready Some m h show ?thesis
        by (intro conjI exI [of _ "[m]"]) (auto simp: poll_fill_buf_def Let_def is_eof_def split: if_splits)
    qed
  qed
qed

lemma shutdown_inbox:
  assumes "poll_shutdown W s = (r, s')" and "read_inv s"
  shows "v_hung V (ws_stream s') = v_hung V (ws_stream s) \<and> v_inbox V (ws_stream s') = v_inbox V (ws_stream s)"
proof -
  have wait: "v_hung V (ws_stream s') = v_hung V (ws_stream t) \<and> v_inbox V (ws_stream s') = v_inbox V (ws_stream t)"
    if "shutdown_wait W t = (r, s')" "read_inv t" for t
    using that by (auto simp: shutdown_wait_def read_inv_def split: if_splits prod.splits dest: close_keeps close_hung)
  show ?thesis
  proof (cases "write_closed s")
    case True
    with assms wait [of s] show ?thesis by (simp add: poll_shutdown_def)
  next
    case False
    obtain x w where p: "ws_poll_ready W (ws_stream s) = (x, w)" by fastforce
    obtain y w' where q: "ws_start_send W eof_message w = (y, w')" by fastforce
    have "v_inbox V w' = v_inbox V w" using q by (cases y) (auto dest: send_ok send_error)
    then have keep: "v_inbox V w = v_inbox V (ws_stream s)" "v_hung V w = v_hung V (ws_stream s)"
      "v_inbox V w' = v_inbox V (ws_stream s)" "v_hung V w' = v_hung V (ws_stream s)"
      using ready_keeps [OF p] ready_hung [OF p] send_hung [OF q] by simp_all
    then have "read_inv (s\<lparr>ws_stream := w', write_closed := True\<rparr>)" using assms(2) by (simp add: read_inv_def)
    with wait [of "s\<lparr>ws_stream := w', write_closed := True\<rparr>"] assms(1) p q keep False show ?thesis
      by (auto simp: poll_shutdown_def split: poll.splits sum.splits)
  qed
qed

lemma read_inbox:
  assumes "poll_read W n s = Normal (r, s')" and "0 < n" and "\<And>e. r \<noteq> Ready (Inl e)" and "read_inv s"
  shows "v_hung V (ws_stream s') = v_hung V (ws_stream s) \<and>
    (\<exists>c. v_inbox V (ws_stream s) = c @ v_inbox V (ws_stream s') \<and> (eof_message \<in> set c \<longrightarrow> r = Ready (Inr [])) \<and>
      (r = Ready (Inr []) \<longrightarrow> c = [eof_message] \<or> v_hung V (ws_stream s)))"
proof -
  obtain r1 s1 where f: "poll_fill_buf W s = (r1, s1)" by fastforce
  have min0: "min (length x) n = 0 \<longleftrightarrow> x = []" for x :: bytes using assms(2) by (cases x) auto
  have same: "ws_stream s' = ws_stream s1" and r: "r = Ready (Inr []) \<longleftrightarrow> r1 = Ready (Inr [])"
    and ok: "\<And>e. r1 \<noteq> Ready (Inl e)"
    using assms(1-3) f
    by (auto simp: poll_read_def consume_def Let_def min0 split: poll.splits sum.splits outcome.splits option.splits if_splits)
  obtain c where c: "v_inbox V (ws_stream s) = c @ v_inbox V (ws_stream s1)"
    "eof_message \<in> set c \<longrightarrow> r1 = Ready (Inr [])" "v_hung V (ws_stream s1) = v_hung V (ws_stream s)"
    "r1 = Ready (Inr []) \<and> chunk s = None \<longrightarrow>
      c = [eof_message] \<or> v_hung V (ws_stream s) \<or> (\<exists>m. c = [m] \<and> into_data W m = [])"
    using fill_buf_inbox [OF f ok] by blast
  have "c = [eof_message] \<or> v_hung V (ws_stream s)" if end': "r1 = Ready (Inr [])"
  proof -
    have "chunk s = None" using f that assms(4) by (auto simp: poll_fill_buf_def read_inv_def split: option.splits)
    moreover have "m = eof_message" if "c = [m]" "into_data W m = []" for m
      using that c(1) assms(4) by (cases m) (auto simp: read_inv_def binary_data eof_message_def)
    ultimately show ?thesis using c(4) end' by blast
  qed
  with c r same show ?thesis by auto
qed

lemma step_inbox:
  assumes "io_step W s ev s'" and "ev \<noteq> ReadFailed" and "read_inv s"
  shows "v_hung V (ws_stream s') = v_hung V (ws_stream s) \<and>
    (\<exists>c. v_inbox V (ws_stream s) = c @ v_inbox V (ws_stream s') \<and> (eof_message \<in> set c \<longrightarrow> ev = Got []) \<and>
      (ev = Got [] \<longrightarrow> c = [eof_message] \<or> v_hung V (ws_stream s)))"
  using assms
proof (induction rule: io_step.induct)
  case (writes buf s r s')
  have "v_inbox V (ws_stream s') = v_inbox V (ws_stream s)" using write_read [OF writes(1)] by simp
  moreover have "v_hung V (ws_stream s') = v_hung V (ws_stream s)" using writes(1)
    by (auto simp: poll_write_def split: prod.splits poll.splits sum.splits dest!: ready_hung send_hung)
  ultimately show ?case by (auto split: poll.splits sum.splits)
next
  case (flushes s r s')
  then show ?case by (auto simp: poll_flush_def split: prod.splits dest: flush_hung flush_keeps)
next
  case (shuts s r s')
  with shutdown_inbox show ?case by auto
next
  case (reads n s r s')
  have "\<And>e. r \<noteq> Ready (Inl e)" using reads(3) by auto
  from read_inbox [OF reads(2,1) this reads(4)] show ?case
    by (cases r) (auto split: sum.splits)
qed

text \<open>A call of the reader.\<close>

lemma reader_step:
  assumes "io_step W s ev s'" and "ev \<noteq> ReadFailed" and "reader_inv s tr closed"
  shows "reader_inv s' tr closed" and "flight s tr = got_bytes ev @ flight s' tr"
    and "ev = Got [] \<Longrightarrow> flight s tr = [] \<and> closed" and "read_closed s' \<longleftrightarrow> read_closed s \<or> ev = Got []"
proof -
  have inv: "read_inv s" using assms(3) by (simp add: reader_inv_def)
  note st = step_read [OF assms(1) inv assms(2)]
  obtain c where c: "v_inbox V (ws_stream s) = c @ v_inbox V (ws_stream s')" "eof_message \<in> set c \<longrightarrow> ev = Got []"
    "ev = Got [] \<longrightarrow> c = [eof_message] \<or> v_hung V (ws_stream s)" "v_hung V (ws_stream s') = v_hung V (ws_stream s)"
    using step_inbox [OF assms(1,2) inv] by blast
  have end': "closed \<and> tr = []" if "ev = Got []"
    using that c(1,3) assms(3) by (auto simp: reader_inv_def peer_ok_append)
  show "flight s tr = got_bytes ev @ flight s' tr" using st by (simp add: flight_def)
  show "read_closed s' \<longleftrightarrow> read_closed s \<or> ev = Got []" using st by blast
  show "flight s tr = [] \<and> closed" if "ev = Got []" using that st end' by (auto simp: flight_def)
  let ?i = "v_inbox V (ws_stream s')"
  have "peer_ok (c @ (?i @ tr))" using assms(3) c(1) by (simp add: reader_inv_def)
  then have "peer_ok (?i @ tr)" unfolding peer_ok_append [of c] by (auto split: if_splits)
  moreover have "closed \<longleftrightarrow> eof_message \<in> set (?i @ tr) \<or> read_closed s'"
    using assms(3) c(1,2) st end' unfolding reader_inv_def by auto
  moreover have "read_closed s' \<or> v_hung V (ws_stream s') \<longrightarrow> closed \<and> tr = []"
    using assms(3) c(4) st end' unfolding reader_inv_def by auto
  ultimately show "reader_inv s' tr closed" using st unfolding reader_inv_def by blast
qed

text \<open>The writer's calls and the network, as the reader's direction sees them.\<close>

lemma reader_write:
  assumes "reader_inv s tr False" and "b \<noteq> []"
  shows "reader_inv s (tr @ [Binary b]) False \<and> flight s (tr @ [Binary b]) = flight s tr @ b"
proof -
  have "peer_ok tr" "eof_message \<notin> set tr" using assms by (auto simp: reader_inv_def peer_ok_append)
  with assms show ?thesis
    by (auto simp: reader_inv_def flight_def peer_ok_append stream_data_append)
qed

lemma reader_eof:
  assumes "reader_inv s tr False"
  shows "reader_inv s (tr @ [eof_message]) True \<and> flight s (tr @ [eof_message]) = flight s tr"
proof -
  have "peer_ok tr" "eof_message \<notin> set tr" using assms by (auto simp: reader_inv_def peer_ok_append)
  with assms show ?thesis
    by (auto simp: reader_inv_def flight_def peer_ok_append stream_data_append peer_ok_eof)
qed

lemma reader_arrive:
  assumes "reader_inv s (m # tr) closed"
  shows "reader_inv (over (v_arrive V m) s) tr closed \<and> flight (over (v_arrive V m) s) tr = flight s (m # tr)"
proof -
  let ?i = "v_inbox V (ws_stream s)"
  have ok: "peer_ok ((?i @ [m]) @ tr)" using assms by (simp add: reader_inv_def)
  then have i: "peer_ok (?i @ [m])" and t: "if eof_message \<in> set (?i @ [m]) then tr = [] else peer_ok tr"
    unfolding peer_ok_append [of "?i @ [m]"] by auto
  have m: "peer_ok ([m] @ tr)" using assms by (auto simp: reader_inv_def peer_ok_append split: if_splits)
  have "flight (over (v_arrive V m) s) tr = flight s (m # tr)"
    using stream_data_append [OF i] stream_data_append [OF m] by (simp add: flight_def pending_def arrive)
  moreover have "reader_inv (over (v_arrive V m) s) tr closed"
    using ok i assms by (auto simp: reader_inv_def read_inv_def arrive)
  ultimately show ?thesis by blast
qed

lemma reader_hang:
  assumes "reader_inv s [] True"
  shows "reader_inv (over (v_hang V) s) [] True \<and> flight (over (v_hang V) s) [] = flight s []"
  using assms by (auto simp: reader_inv_def flight_def read_inv_def pending_def hang)

end

text \<open>A direction: the writing end, the reading end, and how many messages have arrived.\<close>

locale ws_direction = S: ws_end WS VS + R: ws_end WR VR
  for WS :: "('m, 'e, 's) ws_ops" and VS :: "('m, 's) ws_view"
    and WR :: "('m, 'f, 'r) ws_ops" and VR :: "('m, 'r) ws_view"
begin

abbreviation sent_by :: "'s ws_io \<Rightarrow> 'm message list" where
  "sent_by s \<equiv> v_sent VS (ws_stream s)"

definition dir_inv :: "'s ws_io \<Rightarrow> 'r ws_io \<Rightarrow> nat \<Rightarrow> bool" where
  "dir_inv s r n \<longleftrightarrow> n \<le> length (sent_by s) \<and> R.reader_inv r (drop n (sent_by s)) (write_closed s)"

definition dir_pipe :: "'s ws_io \<Rightarrow> 'r ws_io \<Rightarrow> nat \<Rightarrow> pipe" where
  "dir_pipe s r n = \<lparr>p_data = R.flight r (drop n (sent_by s)), p_closed = write_closed s, p_ended = read_closed r\<rparr>"

lemma dir_new:
  assumes "sent_by (ws_io_new w) = []" and "v_inbox VR v = []" and "\<not> v_hung VR v"
  shows "dir_inv (ws_io_new w) (ws_io_new v) 0" and "dir_pipe (ws_io_new w) (ws_io_new v) 0 = pipe_new"
  using assms
  by (simp_all add: dir_inv_def dir_pipe_def R.reader_inv_def R.read_inv_def R.flight_def R.pending_def
      pipe_new_def ws_io_new_def)

lemma writer_step:
  assumes "io_step WS s ev s'" and "allowed s ev" and "dir_inv s r n"
  shows "dir_inv s' r n \<and> pipe_put ev (dir_pipe s r n) = Some (dir_pipe s' r n)"
proof -
  note st = S.step_sent [OF assms(1)]
  let ?tr = "drop n (sent_by s)"
  have tr: "drop n (sent_by s') = ?tr @ sent_message ev" and n: "n \<le> length (sent_by s')"
    using st assms(3) by (auto simp: dir_inv_def)
  have inv: "R.reader_inv r ?tr (write_closed s)" using assms(3) by (simp add: dir_inv_def)
  show ?thesis
  proof (cases ev)
    case (Wrote b)
    then have "\<not> write_closed s" "\<not> write_closed s'" "b \<noteq> []" using assms(2) st by (simp_all add: allowed_def)
    with Wrote tr n inv R.reader_write [of r ?tr b] show ?thesis by (simp add: dir_inv_def dir_pipe_def)
  next
    case SentEof
    then have "\<not> write_closed s" "write_closed s'" using st by auto
    with SentEof tr n inv R.reader_eof [of r ?tr] show ?thesis by (simp add: dir_inv_def dir_pipe_def)
  qed (use st tr n inv in \<open>simp_all add: dir_inv_def dir_pipe_def\<close>)
qed

lemma reader_call:
  assumes "io_step WR r ev r'" and "allowed r ev" and "dir_inv s r n"
  shows "dir_inv s r' n \<and> pipe_take ev (dir_pipe s r n) = Some (dir_pipe s r' n)"
proof -
  have ev: "ev \<noteq> ReadFailed" using assms(2) by (auto simp: allowed_def)
  have inv: "R.reader_inv r (drop n (sent_by s)) (write_closed s)" using assms(3) by (simp add: dir_inv_def)
  note st = R.reader_step [OF assms(1) ev inv]
  have "pipe_take ev (dir_pipe s r n) = Some (dir_pipe s r' n)"
    using st(2,3,4) ev by (cases ev) (simp_all add: dir_pipe_def)
  with st(1) assms(3) show ?thesis by (simp add: dir_inv_def)
qed

lemma dir_arrive:
  assumes "n < v_wire VS (ws_stream s)" and "dir_inv s r n"
  shows "dir_inv s (over (v_arrive VR (sent_by s ! n)) r) (Suc n) \<and>
    dir_pipe s (over (v_arrive VR (sent_by s ! n)) r) (Suc n) = dir_pipe s r n"
proof -
  have n: "n < length (sent_by s)" using assms(1) S.wire_sent [of "ws_stream s"] by simp
  then have "drop n (sent_by s) = sent_by s ! n # drop (Suc n) (sent_by s)" by (simp add: Cons_nth_drop_Suc)
  with assms(2) n R.reader_arrive [of r "sent_by s ! n" "drop (Suc n) (sent_by s)" "write_closed s"]
  show ?thesis by (simp add: dir_inv_def dir_pipe_def)
qed

lemma dir_hang:
  assumes "write_closed s" and "n = length (sent_by s)" and "dir_inv s r n"
  shows "dir_inv s (over (v_hang VR) r) n \<and> dir_pipe s (over (v_hang VR) r) n = dir_pipe s r n"
  using assms R.reader_hang [of r] by (simp add: dir_inv_def dir_pipe_def)

text \<open>The network at the writing end changes nothing of the direction.\<close>

lemma dir_writer_net:
  assumes "dir_inv s r n"
  shows "dir_inv (over (v_arrive VS m) s) r n" "dir_pipe (over (v_arrive VS m) s) r n = dir_pipe s r n"
    "dir_inv (over (v_hang VS) s) r n" "dir_pipe (over (v_hang VS) s) r n = dir_pipe s r n"
  using assms by (simp_all add: dir_inv_def dir_pipe_def S.arrive S.hang)

end

section \<open>Both directions\<close>

locale ws_pair = A: ws_end WA VA + B: ws_end WB VB
  for WA :: "('m, 'e, 'a) ws_ops" and VA :: "('m, 'a) ws_view"
    and WB :: "('m, 'f, 'b) ws_ops" and VB :: "('m, 'b) ws_view"

sublocale ws_pair \<subseteq> ab: ws_direction WA VA WB VB
  by unfold_locales

sublocale ws_pair \<subseteq> ba: ws_direction WB VB WA VA
  by unfold_locales

context ws_pair
begin

definition link_inv :: "('a, 'b) link \<Rightarrow> bool" where
  "link_inv l \<longleftrightarrow> ab.dir_inv (la l) (lb l) (to_b l) \<and> ba.dir_inv (lb l) (la l) (to_a l)"

definition link_abs :: "('a, 'b) link \<Rightarrow> pipe \<times> pipe" where
  "link_abs l = (ab.dir_pipe (la l) (lb l) (to_b l), ba.dir_pipe (lb l) (la l) (to_a l))"

text \<open>The simulation: every step of the link is the step of the pipes with the same event.\<close>

lemma link_simulates:
  assumes "link_step WA VA WB VB l ev l'" and "link_inv l"
  shows "link_inv l' \<and> pipes_step ev (link_abs l) = Some (link_abs l')"
  using assms
proof (induction rule: link_step.induct)
  case (end_a l ev a)
  with ab.writer_step [OF end_a(1,2)] ba.reader_call [OF end_a(1,2)] show ?case
    by (simp add: link_inv_def link_abs_def)
next
  case (end_b l ev b)
  with ba.writer_step [OF end_b(1,2)] ab.reader_call [OF end_b(1,2)] show ?case
    by (simp add: link_inv_def link_abs_def)
next
  case (arrive_b l)
  with ab.dir_arrive [OF arrive_b(1)] show ?case
    by (simp add: link_inv_def link_abs_def ba.dir_writer_net)
next
  case (arrive_a l)
  with ba.dir_arrive [OF arrive_a(1)] show ?case
    by (simp add: link_inv_def link_abs_def ab.dir_writer_net)
next
  case (hang_b l)
  with ab.dir_hang [OF hang_b(1,3)] show ?case
    by (simp add: link_inv_def link_abs_def ba.dir_writer_net)
next
  case (hang_a l)
  with ba.dir_hang [OF hang_a(1,3)] show ?case
    by (simp add: link_inv_def link_abs_def ab.dir_writer_net)
qed

lemma run_simulates:
  "link_run WA VA WB VB l0 evs l \<Longrightarrow> link_inv l0 \<Longrightarrow>
   link_inv l \<and> pipes_run evs (link_abs l0) = Some (link_abs l)"
proof (induction rule: link_run.induct)
  case (step evs l ev l')
  with link_simulates [OF step.hyps(2)] show ?case by (simp add: pipes_run_snoc)
qed simp

end

section \<open>Delivery\<close>

text \<open>
  A WebSocket that makes progress: a flush sends everything, and a message that has arrived can
  be read.
\<close>

locale ws_live = ws_end W V
  for W :: "('m, 'e, 'w) ws_ops" and V :: "('m, 'w) ws_view" +
  assumes flush_sends: "\<exists>w'. ws_poll_flush W w = (Ready (Inr ()), w') \<and> v_wire V w' = length (v_sent V w')"
    and next_ready: "v_inbox V w = m # ms \<Longrightarrow> \<exists>w'. ws_poll_next W w = (Ready (Some (Inr m)), w')"
begin

text \<open>A reader with something before it reads something.\<close>

lemma reads_something:
  assumes "chunk s \<noteq> None \<or> v_inbox V (ws_stream s) \<noteq> []"
  shows "\<exists>b s'. io_step W s (Got b) s'"
proof -
  obtain inner s1 where f: "poll_fill_buf W s = (Ready (Inr inner), s1)"
  proof (cases "chunk s")
    case None
    then obtain m ms where "v_inbox V (ws_stream s) = m # ms" using assms by (cases "v_inbox V (ws_stream s)") auto
    from next_ready [OF this] None that show ?thesis by (cases "is_eof m") (auto simp: poll_fill_buf_def)
  qed (use that in \<open>simp add: poll_fill_buf_def\<close>)
  obtain r s' where p: "poll_read W 1 s = Normal (r, s')" using read_no_panic [of W 1 s] by (cases "poll_read W 1 s") auto
  with f obtain b where "r = Ready (Inr b)" by (auto simp: poll_read_def Let_def split: outcome.splits)
  with io_step.reads [OF _ p] show ?thesis by auto
qed

end

locale ws_live_pair = LA: ws_live WA VA + LB: ws_live WB VB
  for WA :: "('m, 'e, 'a) ws_ops" and VA :: "('m, 'a) ws_view"
    and WB :: "('m, 'f, 'b) ws_ops" and VB :: "('m, 'b) ws_view"

sublocale ws_live_pair \<subseteq> ws_pair WA VA WB VB
  by unfold_locales

text \<open>Histories in which nothing is written.\<close>

definition only_moves :: "link_event list \<Rightarrow> bool" where
  "only_moves evs \<longleftrightarrow> list_all silent (of_a evs) \<and> list_all silent (of_b evs)"

lemma link_run_trans:
  assumes "link_run WA VA WB VB l evs l'" and "link_run WA VA WB VB l' evs' l''"
  shows "link_run WA VA WB VB l (evs @ evs') l''"
  using assms(2,1) by (induction rule: link_run.induct) (simp, metis append_assoc link_run.step)

lemma link_run_one: "link_step WA VA WB VB l ev l' \<Longrightarrow> link_run WA VA WB VB l [ev] l'"
  using link_run.step [OF link_run.start] by fastforce

lemma only_moves_append [simp]: "only_moves (evs @ evs') \<longleftrightarrow> only_moves evs \<and> only_moves evs'"
  by (auto simp: only_moves_def)

context ws_live_pair
begin

lemma flush_a:
  "\<exists>l'. link_run WA VA WB VB l [EndA Idle] l' \<and> v_wire VA (ws_stream (la l')) = length (ab.sent_by (la l')) \<and>
    lb l' = lb l \<and> to_b l' = to_b l"
proof -
  obtain w where w: "ws_poll_flush WA (ws_stream (la l)) = (Ready (Inr ()), w)" "v_wire VA w = length (v_sent VA w)"
    using LA.flush_sends by blast
  have "io_step WA (la l) Idle ((la l)\<lparr>ws_stream := w\<rparr>)"
    using w by (intro io_step.flushes) (simp add: poll_flush_def)
  then have "link_step WA VA WB VB l (EndA Idle) (l\<lparr>la := (la l)\<lparr>ws_stream := w\<rparr>\<rparr>)"
    by (rule link_step.end_a) (simp add: allowed_def)
  from link_run_one [OF this] w(2) show ?thesis
    by (intro exI [of _ "l\<lparr>la := (la l)\<lparr>ws_stream := w\<rparr>\<rparr>"]) simp
qed

lemma arrive_all:
  "v_wire VA (ws_stream (la l)) = length (ab.sent_by (la l)) \<Longrightarrow> to_b l \<le> length (ab.sent_by (la l)) \<Longrightarrow>
   \<exists>evs l'. link_run WA VA WB VB l evs l' \<and> only_moves evs \<and> la l' = la l \<and> to_b l' = length (ab.sent_by (la l'))"
proof (induction "length (ab.sent_by (la l)) - to_b l" arbitrary: l)
  case 0
  then show ?case by (intro exI [of _ "[]"] exI [of _ l]) (simp add: link_run.start only_moves_def)
next
  case (Suc k)
  let ?l = "l\<lparr>lb := over (v_arrive VB (ab.sent_by (la l) ! to_b l)) (lb l), to_b := Suc (to_b l)\<rparr>"
  have s: "link_run WA VA WB VB l [Network] ?l" using Suc by (intro link_run_one link_step.arrive_b) simp
  have "\<exists>evs l'. link_run WA VA WB VB ?l evs l' \<and> only_moves evs \<and> la l' = la ?l \<and> to_b l' = length (ab.sent_by (la l'))"
    by (rule Suc.hyps(1)) (use Suc in simp_all)
  then obtain evs l' where "link_run WA VA WB VB ?l evs l'" "only_moves evs" "la l' = la l"
    "to_b l' = length (ab.sent_by (la l'))" by auto
  with link_run_trans [OF s] show ?case
    by (intro exI [of _ "[Network] @ evs"] exI [of _ l']) (simp add: only_moves_def)
qed

lemma read_all:
  "link_inv l \<Longrightarrow> to_b l = length (ab.sent_by (la l)) \<Longrightarrow>
   \<exists>evs l'. link_run WA VA WB VB l evs l' \<and> only_moves evs \<and> la l' = la l \<and>
     p_data (fst (link_abs l')) = [] \<and> (p_closed (fst (link_abs l')) \<longrightarrow> p_ended (fst (link_abs l')))"
proof (induction "length (LB.flight (lb l) []) + (if read_closed (lb l) then 0 else 1)" arbitrary: l rule: less_induct)
  case less
  have inv: "LB.reader_inv (lb l) [] (write_closed (la l))"
    using less.prems by (simp add: link_inv_def ab.dir_inv_def)
  show ?case
  proof (cases "LB.flight (lb l) [] = [] \<and> (write_closed (la l) \<longrightarrow> read_closed (lb l))")
    case True
    with less.prems(2) show ?thesis
      by (intro exI [of _ "[]"] exI [of _ l]) (simp add: link_run.start only_moves_def link_abs_def ab.dir_pipe_def)
  next
    case False
    then have "chunk (lb l) \<noteq> None \<or> v_inbox VB (ws_stream (lb l)) \<noteq> []"
      using inv by (auto simp: LB.reader_inv_def LB.flight_def LB.pending_def split: option.splits)
    from LB.reads_something [OF this] obtain b s' where s: "io_step WB (lb l) (Got b) s'" by blast
    note st = LB.reader_step [OF s _ inv]
    let ?l = "l\<lparr>lb := s'\<rparr>"
    have step: "link_step WA VA WB VB l (EndB (Got b)) ?l"
      by (rule link_step.end_b [OF s]) (simp add: allowed_def)
    have not_closed: "\<not> read_closed (lb l)"
      using False inv by (auto simp: LB.reader_inv_def LB.read_inv_def LB.flight_def LB.pending_def)
    have "length (LB.flight (lb ?l) []) + (if read_closed (lb ?l) then 0 else 1) <
        length (LB.flight (lb l) []) + (if read_closed (lb l) then 0 else 1)"
      using st(2,3,4) not_closed by (cases "b = []") auto
    from less.hyps [OF this] link_simulates [OF step less.prems(1)] less.prems(2)
    obtain evs l' where l': "link_run WA VA WB VB ?l evs l'" "only_moves evs" "la l' = la l"
      "p_data (fst (link_abs l')) = []" "p_closed (fst (link_abs l')) \<longrightarrow> p_ended (fst (link_abs l'))" by auto
    show ?thesis
      using link_run_trans [OF link_run_one [OF step] l'(1)] l'(2-)
      by (intro exI [of _ "[EndB (Got b)] @ evs"] exI [of _ l']) (simp add: only_moves_def silent_def)
  qed
qed

lemma drain_to_b:
  assumes "link_inv l"
  shows "\<exists>evs l'. link_run WA VA WB VB l evs l' \<and> only_moves evs \<and> link_inv l' \<and>
    p_data (fst (link_abs l')) = [] \<and> (p_closed (fst (link_abs l')) \<longrightarrow> p_ended (fst (link_abs l')))"
proof -
  obtain l1 where l1: "link_run WA VA WB VB l [EndA Idle] l1"
    "v_wire VA (ws_stream (la l1)) = length (ab.sent_by (la l1))" using flush_a by blast
  have i1: "link_inv l1" using run_simulates [OF l1(1) assms] by blast
  then obtain e2 l2 where l2: "link_run WA VA WB VB l1 e2 l2" "only_moves e2" "to_b l2 = length (ab.sent_by (la l2))"
    using arrive_all [OF l1(2)] by (auto simp: link_inv_def ab.dir_inv_def)
  have i2: "link_inv l2" using run_simulates [OF l2(1) i1] by blast
  from read_all [OF this l2(3)] obtain e3 l3 where l3: "link_run WA VA WB VB l2 e3 l3" "only_moves e3"
    "p_data (fst (link_abs l3)) = []" "p_closed (fst (link_abs l3)) \<longrightarrow> p_ended (fst (link_abs l3))" by blast
  have run: "link_run WA VA WB VB l (([EndA Idle] @ e2) @ e3) l3"
    by (rule link_run_trans [OF link_run_trans [OF l1(1) l2(1)] l3(1)])
  moreover have "link_inv l3" using run_simulates [OF run assms] by blast
  moreover have "only_moves (([EndA Idle] @ e2) @ e3)" using l2(2) l3(2) by (simp add: only_moves_def silent_def)
  ultimately show ?thesis using l3(3,4) by blast
qed

end

section \<open>Both directions by symmetry\<close>

definition swap_link :: "('a, 'b) link \<Rightarrow> ('b, 'a) link" where
  "swap_link l = \<lparr>la = lb l, lb = la l, to_b = to_a l, to_a = to_b l\<rparr>"

fun swap_event :: "link_event \<Rightarrow> link_event" where
  "swap_event (EndA ev) = EndB ev"
| "swap_event (EndB ev) = EndA ev"
| "swap_event Network = Network"

lemma swap_link_simps [simp]:
  "la (swap_link l) = lb l" "lb (swap_link l) = la l" "to_b (swap_link l) = to_a l" "to_a (swap_link l) = to_b l"
  "swap_link (swap_link l) = l"
  by (simp_all add: swap_link_def)

lemma swap_events [simp]: "of_a (map swap_event evs) = of_b evs" "of_b (map swap_event evs) = of_a evs"
  by (induction evs rule: of_a.induct; simp)+

lemma only_moves_swap [simp]: "only_moves (map swap_event evs) \<longleftrightarrow> only_moves evs"
  by (auto simp: only_moves_def)

lemma link_step_swap:
  "link_step WA VA WB VB l ev l' \<Longrightarrow> link_step WB VB WA VA (swap_link l) (swap_event ev) (swap_link l')"
proof (induction rule: link_step.induct)
  case (end_a l ev a)
  with link_step.end_b [of WA "swap_link l"] show ?case by (simp add: swap_link_def)
next
  case (end_b l ev b)
  with link_step.end_a [of WB "swap_link l"] show ?case by (simp add: swap_link_def)
next
  case (arrive_b l)
  with link_step.arrive_a [of "swap_link l"] show ?case by (simp add: swap_link_def)
next
  case (arrive_a l)
  with link_step.arrive_b [of "swap_link l"] show ?case by (simp add: swap_link_def)
next
  case (hang_b l)
  with link_step.hang_a [where l = "swap_link l" and WA = WB and VA = VB and WB = WA and VB = VA] show ?case by (simp add: swap_link_def)
next
  case (hang_a l)
  with link_step.hang_b [where l = "swap_link l" and WA = WB and VA = VB and WB = WA and VB = VA] show ?case by (simp add: swap_link_def)
qed

lemma link_run_swap:
  "link_run WA VA WB VB l evs l' \<Longrightarrow> link_run WB VB WA VA (swap_link l) (map swap_event evs) (swap_link l')"
  by (induction rule: link_run.induct) (auto intro: link_run.intros link_step_swap)

text \<open>Two WebSockets on which nothing has happened yet.\<close>

definition ws_fresh :: "('m, 'w) ws_view \<Rightarrow> 'w \<Rightarrow> bool" where
  "ws_fresh V w \<longleftrightarrow> v_inbox V w = [] \<and> v_sent V w = [] \<and> \<not> v_hung V w"

context ws_pair
begin

lemma link_new_inv:
  assumes "ws_fresh VA w" and "ws_fresh VB v"
  shows "link_inv (link_new w v)" and "link_abs (link_new w v) = (pipe_new, pipe_new)"
  using assms ab.dir_new [of w v] ba.dir_new [of v w]
  by (simp_all add: link_inv_def link_abs_def link_new_def ws_fresh_def ws_io_new_def)

text \<open>The history of a run from two fresh WebSockets is one of the pipes.\<close>

lemma run_history:
  assumes "ws_fresh VA w" and "ws_fresh VB v" and "link_run WA VA WB VB (link_new w v) evs l"
  shows "link_inv l" and "pipes_run evs (pipe_new, pipe_new) = Some (link_abs l)"
    and "pipe_history (of_a evs) (of_b evs) (fst (link_abs l))"
    and "pipe_history (of_b evs) (of_a evs) (snd (link_abs l))"
proof -
  note r = run_simulates [OF assms(3) link_new_inv(1) [OF assms(1,2)], unfolded link_new_inv(2) [OF assms(1,2)]]
  show "link_inv l" "pipes_run evs (pipe_new, pipe_new) = Some (link_abs l)" using r by blast+
  with pipes_history [of evs "fst (link_abs l)" "snd (link_abs l)"]
  show "pipe_history (of_a evs) (of_b evs) (fst (link_abs l))" "pipe_history (of_b evs) (of_a evs) (snd (link_abs l))"
    by simp_all
qed

lemma link_abs_flags:
  "p_closed (fst (link_abs l)) = write_closed (la l)" "p_ended (fst (link_abs l)) = read_closed (lb l)"
  "p_closed (snd (link_abs l)) = write_closed (lb l)" "p_ended (snd (link_abs l)) = read_closed (la l)"
  by (simp_all add: link_abs_def ab.dir_pipe_def ba.dir_pipe_def)

end

lemma silent_keeps:
  "list_all silent evs \<Longrightarrow> written (es @ evs) = written es \<and> (SentEof \<in> set (es @ evs) \<longleftrightarrow> SentEof \<in> set es)"
  by (auto simp: silent_messages list_all_iff silent_def)

lemma received_append [simp]: "received (evs @ evs') = received evs @ received evs'"
  by (simp add: received_def)

context ws_live_pair
begin

text \<open>From any reachable link, everything A has written can be brought to B.\<close>

lemma deliver_to_b:
  assumes "ws_fresh VA w" and "ws_fresh VB v" and "link_run WA VA WB VB (link_new w v) evs l"
  shows "\<exists>evs' l'. link_run WA VA WB VB l evs' l' \<and> only_moves evs' \<and>
    received (of_b (evs @ evs')) = written (of_a evs) \<and>
    (SentEof \<in> set (of_a evs) \<longrightarrow> Got [] \<in> set (of_b (evs @ evs')))"
proof -
  have "link_inv l" using run_history(1) [OF assms] .
  from drain_to_b [OF this] obtain es l' where l': "link_run WA VA WB VB l es l'" "only_moves es"
    "p_data (fst (link_abs l')) = []" "p_closed (fst (link_abs l')) \<longrightarrow> p_ended (fst (link_abs l'))" by blast
  have "pipe_history (of_a (evs @ es)) (of_b (evs @ es)) (fst (link_abs l'))"
    using run_history(3) [OF assms(1,2) link_run_trans [OF assms(3) l'(1)]] .
  with l' silent_keeps [of "of_a es" "of_a evs"]
  have "received (of_b (evs @ es)) = written (of_a evs) \<and>
      (SentEof \<in> set (of_a evs) \<longrightarrow> Got [] \<in> set (of_b (evs @ es)))"
    by (auto simp: pipe_history_def only_moves_def)
  with l'(1,2) show ?thesis by blast
qed

end

lemma ws_live_pairI: "ws_live WA VA \<Longrightarrow> ws_live WB VB \<Longrightarrow> ws_live_pair WA VA WB VB"
  by (simp add: ws_live_pair_def)

lemma ws_pairI: "ws_end WA VA \<Longrightarrow> ws_end WB VB \<Longrightarrow> ws_pair WA VA WB VB"
  by (simp add: ws_pair_def)

section \<open>Closing\<close>

text \<open>
  An end that has read all that has arrived, and not the end; a link of two such ends with
  nothing on the wire.
\<close>

definition quiet :: "('m, 'w) ws_view \<Rightarrow> 'w ws_io \<Rightarrow> bool" where
  "quiet V s \<longleftrightarrow> \<not> read_closed s \<and> chunk s = None \<and> v_inbox V (ws_stream s) = [] \<and> \<not> v_hung V (ws_stream s)"

definition quiet_link :: "('m, 'w) ws_view \<Rightarrow> ('m, 'v) ws_view \<Rightarrow> ('w, 'v) link \<Rightarrow> bool" where
  "quiet_link VA VB l \<longleftrightarrow> quiet VA (la l) \<and> quiet VB (lb l) \<and>
     to_b l = v_wire VA (ws_stream (la l)) \<and> to_a l = v_wire VB (ws_stream (lb l))"

text \<open>
  A WebSocket with a send buffer: accepting a message and reading put nothing on the wire, and a
  read with nothing in the inbox waits.
\<close>

locale ws_buffering = ws_end W V
  for W :: "('m, 'e, 'w) ws_ops" and V :: "('m, 'w) ws_view" +
  assumes send_wire: "ws_start_send W m w = (y, w') \<Longrightarrow> v_wire V w' = v_wire V w"
    and ready_wire: "ws_poll_ready W w = (r, w') \<Longrightarrow> v_wire V w' = v_wire V w"
    and next_waits: "v_inbox V w = [] \<Longrightarrow> \<not> v_hung V w \<Longrightarrow>
      \<exists>w'. ws_poll_next W w = (Pending, w') \<and> v_wire V w' = v_wire V w"
begin

lemma quiet_read:
  assumes "quiet V s" and "0 < n"
  shows "\<exists>s'. poll_read W n s = Normal (Pending, s') \<and> quiet V s' \<and> write_closed s' = write_closed s \<and>
    v_wire V (ws_stream s') = v_wire V (ws_stream s)"
proof -
  obtain w where w: "ws_poll_next W (ws_stream s) = (Pending, w)" "v_wire V w = v_wire V (ws_stream s)"
    using assms next_waits by (auto simp: quiet_def)
  then have "poll_read W n s = Normal (Pending, s\<lparr>ws_stream := w\<rparr>)"
    using assms by (simp add: poll_read_def poll_fill_buf_def quiet_def)
  with assms w next_pending [OF w(1)] next_hung [OF w(1)] show ?thesis by (simp add: quiet_def)
qed

lemma quiet_shutdown:
  assumes "quiet V s" and "poll_shutdown W s = (r, s')"
  shows "quiet V s' \<and> v_wire V (ws_stream s') = v_wire V (ws_stream s) \<and> (write_closed s \<longrightarrow> write_closed s') \<and>
    (write_closed s' \<longrightarrow> r = Pending)"
proof (cases "write_closed s")
  case True
  with assms show ?thesis by (auto simp: poll_shutdown_def shutdown_wait_def quiet_def)
next
  case False
  obtain x w where p: "ws_poll_ready W (ws_stream s) = (x, w)" by fastforce
  obtain y w' where q: "ws_start_send W eof_message w = (y, w')" by fastforce
  have "v_inbox V w' = v_inbox V w" using q by (cases y) (auto dest: send_ok send_error)
  with ready_keeps [OF p] ready_hung [OF p] ready_wire [OF p] send_hung [OF q] send_wire [OF q] assms p q False
  show ?thesis by (auto simp: poll_shutdown_def shutdown_wait_def quiet_def split: poll.splits sum.splits)
qed

end

text \<open>What two ends do that have nothing more to write: they shut down and read, over the network.\<close>

inductive closing_step ::
  "('m, 'e, 'w) ws_ops \<Rightarrow> ('m, 'w) ws_view \<Rightarrow> ('m, 'f, 'v) ws_ops \<Rightarrow> ('m, 'v) ws_view \<Rightarrow>
   ('w, 'v) link \<Rightarrow> ('w, 'v) link \<Rightarrow> bool" for WA VA WB VB where
  shut_a: "poll_shutdown WA (la l) = (r, a) \<Longrightarrow> closing_step WA VA WB VB l (l\<lparr>la := a\<rparr>)"
| shut_b: "poll_shutdown WB (lb l) = (r, b) \<Longrightarrow> closing_step WA VA WB VB l (l\<lparr>lb := b\<rparr>)"
| read_a: "0 < n \<Longrightarrow> poll_read WA n (la l) = Normal (x, a) \<Longrightarrow> closing_step WA VA WB VB l (l\<lparr>la := a\<rparr>)"
| read_b: "0 < n \<Longrightarrow> poll_read WB n (lb l) = Normal (y, b) \<Longrightarrow> closing_step WA VA WB VB l (l\<lparr>lb := b\<rparr>)"
| moves: "link_step WA VA WB VB l Network l' \<Longrightarrow> closing_step WA VA WB VB l l'"

locale ws_buffering_pair = QA: ws_buffering WA VA + QB: ws_buffering WB VB
  for WA :: "('m, 'e, 'a) ws_ops" and VA :: "('m, 'a) ws_view"
    and WB :: "('m, 'f, 'b) ws_ops" and VB :: "('m, 'b) ws_view"
begin

lemma quiet_network: "quiet_link VA VB l \<Longrightarrow> \<not> link_step WA VA WB VB l Network l'"
  by (auto simp: quiet_link_def quiet_def elim: link_step.cases)

lemma quiet_closing:
  assumes "closing_step WA VA WB VB l l'" and "quiet_link VA VB l"
  shows "quiet_link VA VB l' \<and> (write_closed (la l) \<longrightarrow> write_closed (la l')) \<and> (write_closed (lb l) \<longrightarrow> write_closed (lb l'))"
  using assms
proof (induction rule: closing_step.induct)
  case (shut_a l r a)
  with QA.quiet_shutdown [OF _ shut_a(1)] show ?case by (auto simp: quiet_link_def)
next
  case (shut_b l r b)
  with QB.quiet_shutdown [OF _ shut_b(1)] show ?case by (auto simp: quiet_link_def)
next
  case (read_a n l x a)
  with QA.quiet_read [of "la l" n] show ?case by (auto simp: quiet_link_def)
next
  case (read_b n l y b)
  with QB.quiet_read [of "lb l" n] show ?case by (auto simp: quiet_link_def)
next
  case (moves l l')
  with quiet_network show ?case by blast
qed

lemma quiet_reach: "reach (closing_step WA VA WB VB) l l' \<Longrightarrow> quiet_link VA VB l \<Longrightarrow>
    quiet_link VA VB l' \<and> (write_closed (la l) \<longrightarrow> write_closed (la l')) \<and> (write_closed (lb l) \<longrightarrow> write_closed (lb l'))"
  by (induction rule: reach.induct) (auto dest: quiet_closing)

end

section \<open>A pair of queues\<close>

definition queue_view :: "(bytes, bytes ws_queues) ws_view" where
  "queue_view = \<lparr>v_inbox = q_in, v_sent = (\<lambda>q. q_wire q @ q_out q), v_wire = (\<lambda>q. length (q_wire q)),
     v_hung = (\<lambda>q. \<not> q_open q), v_arrive = (\<lambda>m q. q\<lparr>q_in := q_in q @ [m]\<rparr>), v_hang = (\<lambda>q. q\<lparr>q_open := False\<rparr>)\<rparr>"

interpretation queue_live: ws_live queue_ws queue_view
  by unfold_locales (auto simp: queue_view_def queue_ws_def q_flush_def split: list.splits if_splits)

interpretation queue_buffering: ws_buffering queue_ws queue_view
  by unfold_locales (auto simp: queue_view_def queue_ws_def q_flush_def split: list.splits if_splits)

lemma queue_fresh: "ws_fresh queue_view (queues_of [])"
  by (simp add: ws_fresh_def queue_view_def queues_of_def)

text \<open>An example: A writes a byte.\<close>

definition example_link :: "(bytes ws_queues, bytes ws_queues) link" where
  "example_link = link_new (queues_of []) (queues_of [])"

lemma example_link_run:
  "\<exists>l. link_run queue_ws queue_view queue_ws queue_view example_link [EndA (Wrote [7])] l"
proof -
  obtain a where w: "poll_write queue_ws [7] (la example_link) = (Ready (Inr 1), a)"
    by (simp add: poll_write_def queue_ws_def)
  have "link_step queue_ws queue_view queue_ws queue_view example_link (EndA (Wrote [7])) (example_link\<lparr>la := a\<rparr>)"
    using link_step.end_a [OF io_step.writes [OF w]]
    by (simp add: allowed_def example_link_def link_new_def ws_io_new_def)
  from link_run_one [OF this] show ?thesis by blast
qed

text \<open>The simulation, for runs from two fresh WebSockets.\<close>

lemma run_refines:
  assumes "ws_end WA VA" and "ws_end WB VB" and "ws_fresh VA w" and "ws_fresh VB v"
    and "link_run WA VA WB VB (link_new w v) evs l"
  shows "\<exists>p q. pipes_run evs (pipe_new, pipe_new) = Some (p, q) \<and>
    p_closed p = write_closed (la l) \<and> p_ended p = read_closed (lb l) \<and>
    p_closed q = write_closed (lb l) \<and> p_ended q = read_closed (la l) \<and>
    written (of_a evs) = received (of_b evs) @ p_data p \<and> written (of_b evs) = received (of_a evs) @ p_data q \<and>
    (Got [] \<in> set (of_b evs) \<longrightarrow> p_data p = [] \<and> p_closed p) \<and> (Got [] \<in> set (of_a evs) \<longrightarrow> p_data q = [] \<and> p_closed q)"
proof -
  have pair: "ws_pair WA VA WB VB" using assms(1,2) by (rule ws_pairI)
  note h = ws_pair.run_history [OF pair assms(3-5)]
  show ?thesis
    using h ws_pair.link_abs_flags [OF pair, of l]
    by (intro exI [of _ "fst (ws_pair.link_abs VA VB l)"] exI [of _ "snd (ws_pair.link_abs VA VB l)"])
      (auto simp: pipe_history_def)
qed

section \<open>Properties\<close>

text \<open>
  C7: the two ends of a simplex connection refine two byte pipes.  Whatever calls the ends make
  and however the messages travel, the history of the connection is one of two pipes that
  carry bytes in order, are closed once by their writer and are read to their end: each
  end has read a prefix of what the other has written, the rest is in the pipe, a read reports
  the end only of a closed pipe that is empty, and the flags of the ends are those of the pipes.
\<close>

theorem simplex_link_refines_pipes:
  assumes "ws_end WA VA" and "ws_end WB VB" and "ws_fresh VA w" and "ws_fresh VB v"
    and "link_run WA VA WB VB (link_new w v) evs l"
  shows "\<exists>p q. pipes_run evs (pipe_new, pipe_new) = Some (p, q) \<and>
    p_closed p = write_closed (la l) \<and> p_ended p = read_closed (lb l) \<and>
    p_closed q = write_closed (lb l) \<and> p_ended q = read_closed (la l) \<and>
    written (of_a evs) = received (of_b evs) @ p_data p \<and> written (of_b evs) = received (of_a evs) @ p_data q \<and>
    (Got [] \<in> set (of_b evs) \<longrightarrow> p_data p = [] \<and> p_closed p) \<and> (Got [] \<in> set (of_a evs) \<longrightarrow> p_data q = [] \<and> p_closed q)"
  using assms by (rule run_refines)

theorem simplex_link_refines_pipes_witness:
  "\<exists>l p q. link_run queue_ws queue_view queue_ws queue_view example_link [EndA (Wrote [7])] l \<and>
    pipes_run [EndA (Wrote [7])] (pipe_new, pipe_new) = Some (p, q) \<and> p_data p = [7]"
proof -
  obtain l where l: "link_run queue_ws queue_view queue_ws queue_view example_link [EndA (Wrote [7])] l"
    using example_link_run by blast
  from simplex_link_refines_pipes [OF queue_live.ws_end_axioms queue_live.ws_end_axioms queue_fresh queue_fresh
      l [unfolded example_link_def]] l
  show ?thesis by (auto simp: received_def)
qed

text \<open>
  C8: nothing is lost.  Between WebSockets that make progress, every state two ends can get into
  can be continued, by flushing, by the network and by reading alone, to one where each end has
  read everything the other has written, and has seen the end if the other has closed.
\<close>

theorem simplex_link_delivers:
  assumes "ws_live WA VA" and "ws_live WB VB" and "ws_fresh VA w" and "ws_fresh VB v"
    and "link_run WA VA WB VB (link_new w v) evs l"
  shows "\<exists>evs' l'. link_run WA VA WB VB l evs' l' \<and> only_moves evs' \<and>
    received (of_b (evs @ evs')) = written (of_a evs) \<and> received (of_a (evs @ evs')) = written (of_b evs) \<and>
    (SentEof \<in> set (of_a evs) \<longrightarrow> Got [] \<in> set (of_b (evs @ evs'))) \<and>
    (SentEof \<in> set (of_b evs) \<longrightarrow> Got [] \<in> set (of_a (evs @ evs')))"
proof -
  have ab: "ws_live_pair WA VA WB VB" and ba: "ws_live_pair WB VB WA VA"
    using assms(1,2) by (blast intro: ws_live_pairI)+
  have pair: "ws_pair WA VA WB VB" using ab by (simp add: ws_live_pair_def ws_live_def ws_pairI)
  obtain e1 l1 where 1: "link_run WA VA WB VB l e1 l1" "only_moves e1" "received (of_b (evs @ e1)) = written (of_a evs)"
    "SentEof \<in> set (of_a evs) \<longrightarrow> Got [] \<in> set (of_b (evs @ e1))"
    using ws_live_pair.deliver_to_b [OF ab assms(3-5)] by blast
  have run1: "link_run WA VA WB VB (link_new w v) (evs @ e1) l1" using assms(5) 1(1) by (rule link_run_trans)
  have "swap_link (link_new w v) = link_new v w" by (simp add: swap_link_def link_new_def)
  with link_run_swap [OF run1]
  have "link_run WB VB WA VA (link_new v w) (map swap_event (evs @ e1)) (swap_link l1)" by simp
  from ws_live_pair.deliver_to_b [OF ba assms(4,3) this] obtain e2 l2 where
    2: "link_run WB VB WA VA (swap_link l1) e2 l2" "only_moves e2"
      "received (of_b (map swap_event (evs @ e1) @ e2)) = written (of_a (map swap_event (evs @ e1)))"
      "SentEof \<in> set (of_a (map swap_event (evs @ e1))) \<longrightarrow> Got [] \<in> set (of_b (map swap_event (evs @ e1) @ e2))"
    by blast
  let ?e2 = "map swap_event e2"
  have r2: "link_run WA VA WB VB l1 ?e2 (swap_link l2)" using link_run_swap [OF 2(1)] by simp
  have b1: "of_b (map swap_event (evs @ e1) @ e2) = of_a (evs @ e1 @ ?e2)" by simp
  have w1: "written (of_b (evs @ e1)) = written (of_b evs)"
    "SentEof \<in> set (of_b (evs @ e1)) \<longleftrightarrow> SentEof \<in> set (of_b evs)"
    using silent_keeps [of "of_b e1" "of_b evs"] 1(2) by (simp_all add: only_moves_def)
  have ret: "received (of_a (evs @ e1 @ ?e2)) = written (of_b evs)"
    "SentEof \<in> set (of_b evs) \<longrightarrow> Got [] \<in> set (of_a (evs @ e1 @ ?e2))"
    using 2(3,4) w1 unfolding b1 swap_events by simp_all
  have all: "link_run WA VA WB VB (link_new w v) (evs @ e1 @ ?e2) (swap_link l2)"
    using link_run_trans [OF run1 r2] by simp
  have "written (of_a (evs @ e1 @ ?e2)) = written (of_a evs)"
    using silent_keeps [of "of_a (e1 @ ?e2)" "of_a evs"] 1(2) 2(2) by (simp add: only_moves_def)
  with ws_pair.run_history(3) [OF pair assms(3,4) all]
  have "written (of_a evs) = received (of_b (evs @ e1 @ ?e2)) @ p_data (fst (ws_pair.link_abs VA VB (swap_link l2)))"
    by (simp add: pipe_history_def)
  with 1(3) have "received (of_b (evs @ e1 @ ?e2)) = written (of_a evs)" by simp
  with 1 2(2) ret link_run_trans [OF 1(1) r2] show ?thesis
    by (intro exI [of _ "e1 @ ?e2"] exI [of _ "swap_link l2"]) auto
qed

theorem simplex_link_delivers_witness:
  "\<exists>evs' l'. received (of_b ([EndA (Wrote [7])] @ evs')) = [7] \<and>
    link_run queue_ws queue_view queue_ws queue_view example_link ([EndA (Wrote [7])] @ evs') l'"
proof -
  obtain l where l: "link_run queue_ws queue_view queue_ws queue_view example_link [EndA (Wrote [7])] l"
    using example_link_run by blast
  from simplex_link_delivers [OF queue_live.ws_live_axioms queue_live.ws_live_axioms queue_fresh queue_fresh
      l [unfolded example_link_def]]
  obtain evs' l' where e: "link_run queue_ws queue_view queue_ws queue_view l evs' l'"
    "received (of_b ([EndA (Wrote [7])] @ evs')) = written (of_a [EndA (Wrote [7])])" by blast
  with link_run_trans [OF l e(1)] show ?thesis by (intro exI [of _ evs'] exI [of _ l']) simp
qed

text \<open>
  C32: two ends that close at the same time never finish.  The shutdown puts the end-of-data
  message into the send buffer and waits for the peer's without flushing; when both ends have
  done so, nothing is on the wire, and however often they poll their shutdown or read, every
  poll stays pending.
\<close>

theorem simplex_close_deadlocks:
  assumes "ws_buffering WA VA" and "ws_buffering WB VB" and "quiet_link VA VB l"
    and "poll_shutdown WA (la l) = (ra, a)" and "write_closed a"
    and "poll_shutdown WB (lb l) = (rb, b)" and "write_closed b"
    and "reach (closing_step WA VA WB VB) (l\<lparr>la := a, lb := b\<rparr>) l'"
  shows "fst (poll_shutdown WA (la l')) = Pending \<and> fst (poll_shutdown WB (lb l')) = Pending \<and>
    (\<forall>n > 0. (\<exists>s. poll_read WA n (la l') = Normal (Pending, s)) \<and> (\<exists>s. poll_read WB n (lb l') = Normal (Pending, s)))"
proof -
  have pair: "ws_buffering_pair WA VA WB VB" using assms(1,2) by (simp add: ws_buffering_pair_def)
  have "quiet_link VA VB (l\<lparr>la := a, lb := b\<rparr>)"
    using assms(3) ws_buffering.quiet_shutdown [OF assms(1) _ assms(4)]
      ws_buffering.quiet_shutdown [OF assms(2) _ assms(6)] by (auto simp: quiet_link_def)
  from ws_buffering_pair.quiet_reach [OF pair assms(8) this] assms(5,7)
  have q: "quiet VA (la l')" "quiet VB (lb l')" "write_closed (la l')" "write_closed (lb l')"
    by (simp_all add: quiet_link_def)
  have "fst (poll_shutdown WA (la l')) = Pending" "fst (poll_shutdown WB (lb l')) = Pending"
    using q by (simp_all add: poll_shutdown_def shutdown_wait_def quiet_def)
  with ws_buffering.quiet_read [OF assms(1) q(1)] ws_buffering.quiet_read [OF assms(2) q(2)] show ?thesis by blast
qed

theorem simplex_close_deadlocks_witness:
  "fst (poll_shutdown queue_ws (snd (poll_shutdown queue_ws (la example_link)))) = Pending"
proof -
  obtain a where a: "poll_shutdown queue_ws (la example_link) = (Pending, a)" "write_closed a" "la example_link = lb example_link"
    by (simp add: poll_shutdown_def shutdown_wait_def queue_ws_def example_link_def link_new_def ws_io_new_def)
  have q: "quiet_link queue_view queue_view example_link"
    by (simp add: quiet_link_def quiet_def queue_view_def example_link_def link_new_def ws_io_new_def queues_of_def)
  from simplex_close_deadlocks [OF queue_buffering.ws_buffering_axioms queue_buffering.ws_buffering_axioms q a(1,2)
      a(1) [unfolded a(3)] a(2) reach.start] a(1)
  show ?thesis by simp
qed

end
