(* ===== verification/Simplex_Session.thy ===== *)
theory Simplex_Session
  imports Routes Simplex_Link
begin

text \<open>
  A whole simplex connection: the client that a script makes (\<^verbatim>\<open>core/connector/simplex.rs\<close>), the
  server's connection (\<^verbatim>\<open>core/simplex/server.rs\<close>) up to the stream its future returns, and the
  two streams against each other.
\<close>

section \<open>Definitions\<close>

text \<open>
  The end of the server's future: once the HTTP connection has been upgraded, what it has read
  too far and the stream itself become a WebSocket (\<open>from_raw\<close>, in the role of the server), and
  that a byte stream.
\<close>

definition server_stream :: "(bytes \<times> 'io \<Rightarrow> 'v) \<Rightarrow> bytes \<Rightarrow> 'io \<Rightarrow> 'v ws_io" where
  "server_stream from_raw read_buf io = ws_io_new (from_raw (read_buf, io))"

fun server_future ::
  "(bytes \<times> 'io \<Rightarrow> 'v) \<Rightarrow> ('u, 'h) conn \<Rightarrow> bytes \<Rightarrow> 'io \<Rightarrow> 'v ws_io option" where
  "server_future from_raw (Conn rs Upgraded ep True out) read_buf io = Some (server_stream from_raw read_buf io)"
| "server_future from_raw _ read_buf io = None"

text \<open>The connector is the client.\<close>

definition simplex_connector ::
  "('u, 'h, 'v) http_lib \<Rightarrow> (string \<Rightarrow> string \<Rightarrow> 'e + 'u) \<Rightarrow> ('u \<Rightarrow> 'e + ('u, 'h) request) \<Rightarrow>
   (('u, 'h) request \<Rightarrow> 'io \<Rightarrow> 'w + 's) \<Rightarrow> endpoint \<Rightarrow> simplex_config \<Rightarrow> 'io \<Rightarrow>
   ('e, 'w) simplex_connect_error + 's ws_io" where
  "simplex_connector L build into_request client_async e config nexthop =
     res_bind (simplex_connect L build into_request client_async e config nexthop) (\<lambda>s. Inr s)"

section \<open>The server's side of a valid request\<close>

lemma upgraded_reach:
  assumes "check_request L config r = Inr e" and "upgrade_response L r = Inr resp"
  shows "conn_reach L config (conn_new [r]) (Conn [] Upgraded (Some e) True [resp])"
proof -
  have h: "handle L config [] r True = (AwaitDone r, Some e, [])"
    and rsp: "respond L [] r = (Upgraded, resp)"
    using assms by (simp_all add: handle_def respond_def hide_error_def)
  have "conn_reach L config (conn_new [r]) (Conn [] (AwaitDone r) (Some e) False [])"
    using conn_reach_one [OF conn_step.serve [OF h]] by (simp add: conn_new_def)
  from conn_reach_step [OF conn_reach_step [OF this conn_step.run_future] conn_step.finish [OF rsp]]
  show ?thesis by simp
qed

section \<open>Properties\<close>

text \<open>
  C9: a simplex connection works end to end.  When a script connects with the text of its
  request through a server that has the same configuration, the client's request makes the
  server hand over exactly the endpoint of the script's request and answer with the upgrade; the
  two streams that client and server get refine two byte pipes: whatever is done with them, each
  side reads what the other has written, in order, and the end only after all of it.
\<close>

theorem simplex_session_works:
  assumes "websocket_http L build into_request" and "endpoint_canonical e"
    and "plain_path (ss_path c)" and "\<not> reserved_name (ss_header_name c)"
    and "new_simplex L build into_request client_async (cr_endpoint_string (connect_request_new e)) c nexthop = Inr (Inr sa)"
    and "ws_end WA VA" and "ws_end WB VB" and "ws_fresh VA (ws_stream sa)" and "ws_fresh VB (from_raw (read_buf, io))"
  shows "\<exists>r key conn sb. client_request L build into_request e (simplex_config_of c) = Inr r \<and>
    conn_reach L (simplex_config_of c) (conn_new [r]) conn \<and>
    conn = Conn [] Upgraded (Some e) True [Switching key] \<and> server_future from_raw conn read_buf io = Some sb \<and>
    (\<forall>evs l. link_run WA VA WB VB \<lparr>la = sa, lb = sb, to_b = 0, to_a = 0\<rparr> evs l \<longrightarrow>
      (\<exists>p q. pipes_run evs (pipe_new, pipe_new) = Some (p, q) \<and>
        written (of_a evs) = received (of_b evs) @ p_data p \<and> written (of_b evs) = received (of_a evs) @ p_data q))"
proof -
  let ?config = "simplex_config_of c"
  have "endpoint_from_str (cr_endpoint_string (connect_request_new e)) = Inr e"
    using endpoint_roundtrip [OF assms(2)] by (simp add: cr_endpoint_string_def connect_request_new_def)
  with assms(5) obtain r w where r: "client_request L build into_request e ?config = Inr r"
    "client_async r nexthop = Inr w" "sa = ws_io_new w"
    by (auto simp: new_simplex_def with_endpoint_def simplex_connect_def split: sum.splits)
  have ok: "plain_path (sc_path ?config)" "\<not> reserved_name (fst (sc_secret_header ?config))"
    using assms(3,4) by (simp_all add: simplex_config_of_def)
  obtain key where k: "check_request L ?config r = Inr e" "upgrade_response L r = Inr (Switching key)"
    using websocket_http.client_accepted [OF assms(1) r(1) assms(2) ok] by blast
  let ?conn = "Conn [] Upgraded (Some e) True [Switching key] :: ('a, 'b) conn"
  let ?sb = "ws_io_new (from_raw (read_buf, io))"
  have link: "\<lparr>la = sa, lb = ?sb, to_b = 0, to_a = 0\<rparr> = link_new w (from_raw (read_buf, io))"
    by (simp add: link_new_def r(3))
  have fresh: "ws_fresh VA w" using assms(8) r(3) by (simp add: ws_io_new_def)
  have "\<exists>p q. pipes_run evs (pipe_new, pipe_new) = Some (p, q) \<and>
      written (of_a evs) = received (of_b evs) @ p_data p \<and> written (of_b evs) = received (of_a evs) @ p_data q"
    if "link_run WA VA WB VB \<lparr>la = sa, lb = ?sb, to_b = 0, to_a = 0\<rparr> evs l" for evs l
    using run_refines [OF assms(6,7) fresh assms(9)] that unfolding link by blast
  moreover have "server_future from_raw ?conn read_buf io = Some ?sb" by (simp add: server_stream_def)
  ultimately show ?thesis using r(1) upgraded_reach [OF k] by blast
qed

definition example_script_config :: simplex_script_config where
  "example_script_config = \<lparr>ss_host = sc_host example_config, ss_path = sc_path example_config,
     ss_header_name = fst (sc_secret_header example_config), ss_header_value = snd (sc_secret_header example_config)\<rparr>"

lemma example_script_config: "simplex_config_of example_script_config = example_config"
  by (simp add: simplex_config_of_def example_script_config_def)

theorem simplex_session_works_witness:
  "\<exists>r key. client_request list_http (\<lambda>host path. Inr path) list_request (Domain ''x'' 80) example_config = Inr r \<and>
    conn_reach list_http example_config (conn_new [r]) (Conn [] Upgraded (Some (Domain ''x'' 80)) True [Switching key])"
proof -
  let ?e = "Domain ''x'' 80" and ?q = "queues_of [] :: bytes ws_queues"
  obtain r where r: "client_request list_http (\<lambda>host path. Inr path) list_request ?e example_config = Inr r"
    using example_client_request by blast
  have "endpoint_from_str (cr_endpoint_string (connect_request_new ?e)) = Inr ?e"
    using endpoint_roundtrip [OF example_endpoint(1)] by (simp add: cr_endpoint_string_def connect_request_new_def)
  then have s: "new_simplex list_http (\<lambda>host path. Inr path) list_request (\<lambda>_ _. Inr ?q :: unit + bytes ws_queues)
      (cr_endpoint_string (connect_request_new ?e)) example_script_config () = Inr (Inr (ws_io_new ?q))"
    using r by (simp add: new_simplex_def with_endpoint_def simplex_connect_def example_script_config)
  have ok: "plain_path (ss_path example_script_config)" "\<not> reserved_name (ss_header_name example_script_config)"
    using example_config_ok by (simp_all add: example_script_config_def)
  have fresh: "ws_fresh queue_view (ws_stream (ws_io_new ?q))" "ws_fresh queue_view ((\<lambda>_. ?q) ([], ()))"
    using queue_fresh by (simp_all add: ws_io_new_def)
  from simplex_session_works [OF list_http.websocket_http_axioms example_endpoint(1) ok s
      queue_live.ws_end_axioms queue_live.ws_end_axioms fresh, of "[]" "()"]
  show ?thesis unfolding example_script_config by auto
qed

end
