(* ===== verification/Http_Acceptor.thy ===== *)
theory Http_Acceptor
  imports Http_Types Endpoint "HOL-Library.Sublist"
begin

text \<open>
  The HTTP proxy listener, \<^verbatim>\<open>core/acceptor/http.rs\<close>: it serves the requests of one client
  connection.  The first request names the endpoint, which is handed to the caller of
  \<^verbatim>\<open>handshake\<close>; a CONNECT request then turns the connection into a tunnel, any other request
  is rewritten and forwarded, and the following ones may only go to the same endpoint.

  The connection is a step relation as in the simplex server.  An error of the handler ends
  the connection, as \<^verbatim>\<open>hyper\<close> does when a service fails.
\<close>

section \<open>Definitions\<close>

datatype acc_state = NotConnected bool | ConnectedTo endpoint

datatype acc_error =
    ConnectNotFirst
  | BadEndpoint endpoint_error
  | NoHost
  | DifferentHost
  | InvalidProxyRequest

text \<open>The rewriting of a proxy request into a request to the origin server.\<close>

definition insert_host ::
  "'u uri_ops \<Rightarrow> ('h, 'v) header_ops \<Rightarrow> ('u, 'h) request \<Rightarrow> ('u, 'h) request option" where
  "insert_host U H r =
     (if h_contains H ''Host'' (rq_headers r) then Some r
      else Option.bind (uri_host U (rq_uri r)) (\<lambda>host.
           Option.bind (v_parse H host) (\<lambda>v.
           Some (r\<lparr>rq_headers := h_insert H ''Host'' v (rq_headers r)\<rparr>))))"

definition strip_headers :: "('h, 'v) header_ops \<Rightarrow> 'h \<Rightarrow> 'h" where
  "strip_headers H h0 =
     (let h1 = snd (h_remove H ''Proxy-Authenticate'' h0);
          h2 = snd (h_remove H ''Proxy-Authorization'' h1)
      in case h_remove H ''Proxy-Connection'' h2 of
           (Some c, h3) \<Rightarrow> h_or_insert H ''Connection'' c h3
         | (None, h3) \<Rightarrow> h3)"

definition transform_proxy_request ::
  "'u uri_ops \<Rightarrow> ('h, 'v) header_ops \<Rightarrow> ('u, 'h) request \<Rightarrow> ('u, 'h) request option" where
  "transform_proxy_request U H r =
     Option.bind (insert_host U H r) (\<lambda>r'.
     Option.bind (uri_path_and_query U (rq_uri r')) (\<lambda>pq.
     Option.bind (uri_parse U pq) (\<lambda>u.
     Some (r'\<lparr>rq_uri := u, rq_headers := strip_headers H (rq_headers r')\<rparr>))))"

text \<open>The endpoint of a proxy request: its host as it stands, or with the port 80.\<close>

definition endpoint_of_host :: "string \<Rightarrow> endpoint_error + endpoint" where
  "endpoint_of_host host =
     (case endpoint_from_str host of
        Inr e \<Rightarrow> Inr e
      | Inl _ \<Rightarrow> endpoint_from_str (host @ '':80''))"

definition request_endpoint :: "'u uri_ops \<Rightarrow> ('u, 'h) request \<Rightarrow> acc_error + endpoint" where
  "request_endpoint U r =
     res_bind (ok_or NoHost (uri_host U (rq_uri r))) (\<lambda>host.
       case endpoint_of_host host of Inl e \<Rightarrow> Inl (BadEndpoint e) | Inr e \<Rightarrow> Inr e)"

text \<open>
  What the handler does with a request: fail, hand over an endpoint and wait for the
  caller, forward a request, or reach \<^verbatim>\<open>unreachable!()\<close>.
\<close>

datatype ('u, 'h) acc_action =
    Fails acc_error
  | Awaits bool endpoint
  | Forwards "('u, 'h) request"
  | Unreached

definition acc_handle ::
  "'u uri_ops \<Rightarrow> ('h, 'v) header_ops \<Rightarrow> ('u, 'h) request \<Rightarrow> acc_state \<Rightarrow> ('u, 'h) acc_action" where
  "acc_handle U H r st =
     (if rq_connect r then
        (case st of
           NotConnected True \<Rightarrow>
             (case endpoint_from_str (uri_to_string U (rq_uri r)) of
                Inl e \<Rightarrow> Fails (BadEndpoint e)
              | Inr e \<Rightarrow> Awaits True e)
         | _ \<Rightarrow> Fails ConnectNotFirst)
      else
        (case st of
           NotConnected True \<Rightarrow>
             (case request_endpoint U r of Inl e \<Rightarrow> Fails e | Inr e \<Rightarrow> Awaits False e)
         | NotConnected False \<Rightarrow> Unreached
         | ConnectedTo target \<Rightarrow>
             (case request_endpoint U r of
                Inl e \<Rightarrow> Fails e
              | Inr e \<Rightarrow>
                  if e \<noteq> target then Fails DifferentHost
                  else (case transform_proxy_request U H r of
                      None \<Rightarrow> Fails InvalidProxyRequest
                    | Some r' \<Rightarrow> Forwards r'))))"

text \<open>
  The connection: the requests to come, the phase, the endpoint handed over (with whether
  it is for a tunnel), whether the caller has run its future, and the requests forwarded.
\<close>

datatype ('u, 'h) acc_phase =
    Idle acc_state
  | Waiting "('u, 'h) request" bool endpoint
  | Tunnel
  | Closed
  | Panicked

datatype ('u, 'h) acc_conn =
  Acc "('u, 'h) request list" "('u, 'h) acc_phase" "(bool \<times> endpoint) option" bool "('u, 'h) request list"

definition acc_new :: "('u, 'h) request list \<Rightarrow> ('u, 'h) acc_conn" where
  "acc_new rs = Acc rs (Idle (NotConnected True)) None False []"

fun acc_apply :: "('u, 'h) request \<Rightarrow> acc_state \<Rightarrow> ('u, 'h) acc_action \<Rightarrow>
    ('u, 'h) acc_phase \<times> (bool \<times> endpoint) option \<times> ('u, 'h) request list" where
  "acc_apply r st (Fails e) = (Closed, None, [])"
| "acc_apply r st (Awaits b e) = (Waiting r b e, Some (b, e), [])"
| "acc_apply r st (Forwards r') = (Idle st, None, [r'])"
| "acc_apply r st Unreached = (Panicked, None, [])"

text \<open>After the caller has run its future: the tunnel, or the first forwarded request.\<close>

definition acc_resume ::
  "'u uri_ops \<Rightarrow> ('h, 'v) header_ops \<Rightarrow> ('u, 'h) request \<Rightarrow> bool \<Rightarrow> endpoint \<Rightarrow>
   ('u, 'h) acc_phase \<times> ('u, 'h) request list" where
  "acc_resume U H r b e =
     (if b then (Tunnel, [])
      else (case transform_proxy_request U H r of
          None \<Rightarrow> (Closed, [])
        | Some r' \<Rightarrow> (Idle (ConnectedTo e), [r'])))"

inductive acc_step ::
  "'u uri_ops \<Rightarrow> ('h, 'v) header_ops \<Rightarrow> ('u, 'h) acc_conn \<Rightarrow> ('u, 'h) acc_conn \<Rightarrow> bool" for U H where
  serve: "acc_apply r st (acc_handle U H r st) = (ph, ep, fwd') \<Longrightarrow>
    acc_step U H (Acc (r # rs) (Idle st) ep0 done' fwd)
      (Acc rs ph (if ep = None then ep0 else ep) done' (fwd @ fwd'))"
| run_future: "acc_step U H (Acc rs ph (Some ep) False fwd) (Acc rs ph (Some ep) True fwd)"
| resume: "acc_resume U H r b e = (ph, fwd') \<Longrightarrow>
    acc_step U H (Acc rs (Waiting r b e) ep True fwd) (Acc rs ph ep True (fwd @ fwd'))"
| upstream_fails: "acc_step U H (Acc rs (Idle (ConnectedTo e)) ep done' fwd) (Acc rs Closed ep done' fwd)"

abbreviation acc_reach ::
  "'u uri_ops \<Rightarrow> ('h, 'v) header_ops \<Rightarrow> ('u, 'h) acc_conn \<Rightarrow> ('u, 'h) acc_conn \<Rightarrow> bool" where
  "acc_reach U H \<equiv> reach (acc_step U H)"

lemmas acc_reach_start = reach.start [where step_rel = "acc_step U H" for U H]
lemmas acc_reach_step = reach.step [where step_rel = "acc_step U H" for U H]
lemmas acc_reach_one = reach_step [where step_rel = "acc_step U H" for U H]
lemmas acc_reach_trans = reach_trans [where step_rel = "acc_step U H" for U H]

section \<open>The connection\<close>

definition forwardable ::
  "'u uri_ops \<Rightarrow> ('h, 'v) header_ops \<Rightarrow> endpoint \<Rightarrow> ('u, 'h) request \<Rightarrow> ('u, 'h) request \<Rightarrow> bool" where
  "forwardable U H e r r' \<longleftrightarrow>
     \<not> rq_connect r \<and> request_endpoint U r = Inr e \<and> transform_proxy_request U H r = Some r'"

text \<open>
  The invariant: what has been forwarded are the rewritten first requests, all to the
  endpoint that was handed over.
\<close>

fun acc_ok ::
  "'u uri_ops \<Rightarrow> ('h, 'v) header_ops \<Rightarrow> ('u, 'h) request list \<Rightarrow> ('u, 'h) acc_phase \<Rightarrow>
   (bool \<times> endpoint) option \<Rightarrow> bool \<Rightarrow> ('u, 'h) request list \<Rightarrow> bool" where
  "acc_ok U H pre (Idle (NotConnected b)) ep done' fwd \<longleftrightarrow> b \<and> ep = None \<and> fwd = [] \<and> pre = []"
| "acc_ok U H pre (Idle (ConnectedTo e)) ep done' fwd \<longleftrightarrow>
     done' \<and> ep = Some (False, e) \<and> list_all2 (forwardable U H e) pre fwd"
| "acc_ok U H pre (Waiting r b e) ep done' fwd \<longleftrightarrow>
     ep = Some (b, e) \<and> pre = [r] \<and> fwd = [] \<and> rq_connect r = b \<and>
     (if b then endpoint_from_str (uri_to_string U (rq_uri r)) = Inr e else request_endpoint U r = Inr e)"
| "acc_ok U H pre Tunnel ep done' fwd \<longleftrightarrow>
     done' \<and> fwd = [] \<and> (\<exists>r e. pre = [r] \<and> rq_connect r \<and> ep = Some (True, e) \<and>
       endpoint_from_str (uri_to_string U (rq_uri r)) = Inr e)"
| "acc_ok U H pre Closed ep done' fwd \<longleftrightarrow>
     fwd = [] \<or> done' \<and> (\<exists>e pre'. ep = Some (False, e) \<and> prefix pre' pre \<and> list_all2 (forwardable U H e) pre' fwd)"
| "acc_ok U H pre Panicked ep done' fwd \<longleftrightarrow> False"

fun acc_inv ::
  "'u uri_ops \<Rightarrow> ('h, 'v) header_ops \<Rightarrow> ('u, 'h) request list \<Rightarrow> ('u, 'h) acc_conn \<Rightarrow> bool" where
  "acc_inv U H all (Acc rs ph ep done' fwd) \<longleftrightarrow> (\<exists>pre. all = pre @ rs \<and> acc_ok U H pre ph ep done' fwd)"

lemma acc_ok_done: "acc_ok U H pre ph ep d fwd \<Longrightarrow> acc_ok U H pre ph ep True fwd"
  by (cases "(U, H, pre, ph, ep, d, fwd)" rule: acc_ok.cases) auto

lemma acc_inv_serve:
  assumes "acc_inv U H all (Acc (r # rs) (Idle st) ep0 done' fwd)"
    and "acc_apply r st (acc_handle U H r st) = (ph, ep, fwd')"
  shows "acc_inv U H all (Acc rs ph (if ep = None then ep0 else ep) done' (fwd @ fwd'))"
proof (cases st)
  case (NotConnected b)
  with assms(1) have b: "b" "ep0 = None" "fwd = []" "all = [r] @ rs" by auto
  show ?thesis
  proof (cases "rq_connect r")
    case True
    with assms(2) NotConnected b show ?thesis
      by (cases "endpoint_from_str (uri_to_string U (rq_uri r))") (auto simp: acc_handle_def)
  next
    case False
    with assms(2) NotConnected b show ?thesis
      by (cases "request_endpoint U r") (auto simp: acc_handle_def)
  qed
next
  case (ConnectedTo e)
  with assms(1) obtain pre where pre: "all = pre @ r # rs" "done'" "ep0 = Some (False, e)"
    "list_all2 (forwardable U H e) pre fwd" by auto
  have "(\<exists>x. acc_handle U H r st = Fails x) \<or>
      (\<exists>r'. acc_handle U H r st = Forwards r' \<and> forwardable U H e r r')"
    using ConnectedTo by (auto simp: acc_handle_def forwardable_def split: sum.split option.split)
  then consider x where "acc_handle U H r st = Fails x"
    | r' where "acc_handle U H r st = Forwards r'" "forwardable U H e r r'" by blast
  then show ?thesis
  proof cases
    case 1
    then have "ph = Closed" "ep = None" "fwd' = []" using assms(2) by auto
    with pre show ?thesis by (auto intro!: exI [of _ "pre @ [r]"] exI [of _ pre])
  next
    case 2
    then have "ph = Idle st" "ep = None" "fwd' = [r']" using assms(2) by auto
    with pre 2 ConnectedTo show ?thesis
      by (auto intro!: exI [of _ "pre @ [r]"] simp: list_all2_appendI)
  qed
qed

lemma acc_inv_step: "acc_step U H c c' \<Longrightarrow> acc_inv U H all c \<Longrightarrow> acc_inv U H all c'"
proof (induction rule: acc_step.induct)
  case (serve r st ph ep fwd' rs ep0 done' fwd)
  then show ?case using acc_inv_serve by blast
next
  case (run_future rs ph ep fwd)
  then show ?case using acc_ok_done by fastforce
next
  case (resume r b e ph fwd' rs ep fwd)
  then obtain pre where "all = [r] @ rs" "ep = Some (b, e)" "fwd = []" "rq_connect r = b"
    "if b then endpoint_from_str (uri_to_string U (rq_uri r)) = Inr e else request_endpoint U r = Inr e"
    by auto
  with resume.hyps show ?case
    by (cases b; cases "transform_proxy_request U H r")
      (auto simp: acc_resume_def forwardable_def intro!: exI [of _ "[r]"])
next
  case (upstream_fails rs e ep done' fwd)
  then show ?case by auto
qed

interpretation acc_inv: step_invariant "acc_step U H" "acc_inv U H allrs"
  by unfold_locales (rule acc_inv_step)

lemma acc_inv_reach: "acc_reach U H (acc_new rs) c \<Longrightarrow> acc_inv U H rs c"
  by (erule acc_inv.inv_reach) (simp add: acc_new_def)

text \<open>What the invariant says of forwarded requests and of a tunnel.\<close>

lemma acc_inv_forwarded:
  assumes "acc_inv U H all (Acc rs ph ep done' fwd)" and "fwd \<noteq> []"
  shows "done' \<and> (\<exists>e served. ep = Some (False, e) \<and> prefix served all \<and> list_all2 (forwardable U H e) served fwd)"
proof -
  obtain pre where "all = pre @ rs" "acc_ok U H pre ph ep done' fwd" using assms(1) by auto
  with assms(2) show ?thesis
    by (cases "(U, H, pre, ph, ep, done', fwd)" rule: acc_ok.cases) (auto intro: prefixI prefix_prefix)
qed

lemma acc_inv_tunnel:
  assumes "acc_inv U H all (Acc rs Tunnel ep done' fwd)"
  shows "done' \<and> fwd = [] \<and> (\<exists>r e. all = r # rs \<and> rq_connect r \<and> ep = Some (True, e) \<and>
    endpoint_from_str (uri_to_string U (rq_uri r)) = Inr e)"
  using assms by auto

section \<open>The rewriting of a request\<close>

text \<open>The headers that the rewriting removes.\<close>

definition proxy_header :: "string \<Rightarrow> bool" where
  "proxy_header n \<longleftrightarrow>
     list_ex (same_name n) [''Proxy-Authenticate'', ''Proxy-Authorization'', ''Proxy-Connection'']"

lemma strip_headers_get:
  assumes "header_map H" and "name_ok H ''Connection''"
  shows "h_get H m (strip_headers H h) =
    (if proxy_header m then None
     else if same_name m ''Connection'' \<and> h_get H ''Connection'' h = None then h_get H ''Proxy-Connection'' h
     else h_get H m h)"
proof -
  note laws = header_map.get_remove [OF assms(1)] header_map.remove_get [OF assms(1)]
  let ?h2 = "snd (h_remove H ''Proxy-Authorization'' (snd (h_remove H ''Proxy-Authenticate'' h)))"
  let ?h3 = "snd (h_remove H ''Proxy-Connection'' ?h2)"
  have h3: "h_get H m ?h3 = (if proxy_header m then None else h_get H m h)" for m
    by (simp add: laws proxy_header_def)
  have names: "\<not> same_name ''Proxy-Connection'' ''Proxy-Authenticate''"
    "\<not> same_name ''Proxy-Connection'' ''Proxy-Authorization''" "\<not> proxy_header ''Connection''"
    by code_simp+
  have pc: "fst (h_remove H ''Proxy-Connection'' ?h2) = h_get H ''Proxy-Connection'' h"
    using names by (simp add: laws)
  have strip: "strip_headers H h =
      (case h_get H ''Proxy-Connection'' h of Some c \<Rightarrow> h_or_insert H ''Connection'' c ?h3 | None \<Rightarrow> ?h3)"
    unfolding strip_headers_def Let_def pc [symmetric]
    by (cases "h_remove H ''Proxy-Connection'' ?h2") (auto split: option.split)
  have conn: "same_name m ''Connection'' \<Longrightarrow> h_get H m h = h_get H ''Connection'' h \<and> \<not> proxy_header m"
    using names(3) header_map.get_same [OF assms(1), of m "''Connection''"]
    by (auto simp: proxy_header_def same_name_def)
  show ?thesis
    unfolding strip using conn names(3)
    by (cases "h_get H ''Proxy-Connection'' h")
      (auto simp: h3 header_map.get_or_insert [OF assms])
qed

lemma insert_host_get:
  assumes "header_map H" and "name_ok H ''Host''" and "insert_host U H r = Some r'"
  shows "rq_uri r' = rq_uri r \<and> rq_connect r' = rq_connect r \<and> h_get H ''Host'' (rq_headers r') \<noteq> None \<and>
    (\<forall>m. \<not> same_name m ''Host'' \<or> h_get H ''Host'' (rq_headers r) \<noteq> None \<longrightarrow>
       h_get H m (rq_headers r') = h_get H m (rq_headers r))"
  using assms
  by (auto simp: insert_host_def header_map.contains_get header_map.get_insert
      split: if_splits Option.bind_splits)

section \<open>Properties\<close>

text \<open>
  A connection serves a single endpoint: the requests forwarded are the rewritten first
  requests of the client, in order and none left out, each of them naming the endpoint that
  was handed to the caller, and none is forwarded before the caller has run its future.
\<close>

theorem http_acceptor_single_endpoint:
  assumes "acc_reach U H (acc_new rs) (Acc rs' ph ep done' fwd)" and "fwd \<noteq> []"
  shows "done' \<and> (\<exists>e served. ep = Some (False, e) \<and> prefix served rs \<and>
    list_all2 (\<lambda>r r'. \<not> rq_connect r \<and> request_endpoint U r = Inr e \<and>
      transform_proxy_request U H r = Some r') served fwd)"
  using acc_inv_forwarded [OF acc_inv_reach [OF assms(1)] assms(2)] by (simp add: forwardable_def [abs_def])

text \<open>An example: two requests for \<open>http://x/\<close>, with URIs of a host and a path.\<close>

definition pair_uris :: "(string \<times> string) uri_ops" where
  "pair_uris = \<lparr>uri_path = snd, uri_host = (\<lambda>(h, _). if h = [] then None else Some h),
     uri_path_and_query = (\<lambda>(_, p). Some p), uri_to_string = fst, uri_parse = (\<lambda>p. Some ([], p))\<rparr>"

definition get_x :: "(string \<times> string, (string \<times> string) list) request" where
  "get_x = \<lparr>rq_connect = False, rq_uri = (''x'', ''/''), rq_headers = [(''host'', ''x''), (''proxy-connection'', ''close'')]\<rparr>"

definition get_x_out :: "(string \<times> string, (string \<times> string) list) request" where
  "get_x_out = \<lparr>rq_connect = False, rq_uri = ([], ''/''), rq_headers = [(''connection'', ''close''), (''host'', ''x'')]\<rparr>"

lemma get_x_transform: "transform_proxy_request pair_uris list_headers get_x = Some get_x_out"
  by code_simp

lemma endpoint_of_domain:
  assumes "parse_ip_addr host = None" and "host = [] \<or> hd host \<noteq> CHR ''[''" and "CHR '':'' \<notin> set host"
  shows "endpoint_of_host host = Inr (Domain host 80)"
proof -
  have "endpoint_canonical (Domain host 80)" using assms(1,2) by (simp add: endpoint_canonical_def)
  moreover have "endpoint_to_string (Domain host 80) = host @ '':80''"
  proof -
    have "show_radix 10 (unat (80 :: u16)) = ''80''" by code_simp
    then show ?thesis by simp
  qed
  moreover have "endpoint_from_str host = Inl PortMissing" using assms(3) endpoint_from_str_errors(1) by blast
  ultimately show ?thesis using endpoint_roundtrip by (fastforce simp: endpoint_of_host_def)
qed

lemma get_x_endpoint: "request_endpoint pair_uris get_x = Inr (Domain ''x'' 80)"
proof -
  have "endpoint_of_host ''x'' = Inr (Domain ''x'' 80)"
    by (rule endpoint_of_domain) (auto intro: parse_ip_none simp: to_digit_def)
  then show ?thesis by (simp add: request_endpoint_def pair_uris_def get_x_def)
qed

lemma get_x_reach:
  "acc_reach pair_uris list_headers (acc_new [get_x])
     (Acc [] (Idle (ConnectedTo (Domain ''x'' 80))) (Some (False, Domain ''x'' 80)) True [get_x_out])"
proof -
  let ?e = "Domain ''x'' 80"
  have h: "acc_apply get_x (NotConnected True) (acc_handle pair_uris list_headers get_x (NotConnected True)) =
      (Waiting get_x False ?e, Some (False, ?e), [])"
    using get_x_endpoint by (simp add: acc_handle_def get_x_def)
  have r: "acc_resume pair_uris list_headers get_x False ?e = (Idle (ConnectedTo ?e), [get_x_out])"
    by (simp add: acc_resume_def get_x_transform)
  have "acc_reach pair_uris list_headers (acc_new [get_x]) (Acc [] (Waiting get_x False ?e) (Some (False, ?e)) False [])"
    using acc_reach_step [OF acc_reach_start [of _ _ "acc_new _"], unfolded acc_new_def, OF acc_step.serve [OF h]]
    by (simp add: acc_new_def)
  then have "acc_reach pair_uris list_headers (acc_new [get_x]) (Acc [] (Waiting get_x False ?e) (Some (False, ?e)) True [])"
    by (rule acc_reach_step) (rule acc_step.run_future)
  then show ?thesis using acc_reach_step [OF _ acc_step.resume [OF r]] by fastforce
qed

theorem http_acceptor_single_endpoint_witness:
  "\<exists>e served. Some (False, Domain ''x'' 80) = Some (False, e) \<and> prefix served [get_x]"
  using http_acceptor_single_endpoint [OF get_x_reach] by auto

text \<open>
  A connection becomes a tunnel only when its first request is a CONNECT, to the
  endpoint in its request line, after the caller has run its future and without anything
  having been forwarded; and no sequence of requests reaches the handler's
  \<^verbatim>\<open>unreachable!()\<close>.
\<close>

theorem http_acceptor_tunnel_first:
  assumes "acc_reach U H (acc_new rs) (Acc rs' ph ep done' fwd)"
  shows "ph \<noteq> Panicked \<and> (ph = Tunnel \<longrightarrow> done' \<and> fwd = [] \<and>
    (\<exists>r e. rs = r # rs' \<and> rq_connect r \<and> ep = Some (True, e) \<and>
       endpoint_from_str (uri_to_string U (rq_uri r)) = Inr e))"
  using acc_inv_reach [OF assms] acc_inv_tunnel by (cases ph) auto

definition connect_x :: "(string \<times> string, (string \<times> string) list) request" where
  "connect_x = \<lparr>rq_connect = True, rq_uri = (''x:80'', []), rq_headers = []\<rparr>"

lemma connect_x_request:
  "rq_connect connect_x" "endpoint_from_str (uri_to_string pair_uris (rq_uri connect_x)) = Inr (Domain ''x'' 80)"
proof -
  have "endpoint_of_host ''x'' = Inr (Domain ''x'' 80)"
    by (rule endpoint_of_domain) (auto intro: parse_ip_none simp: to_digit_def)
  then show "endpoint_from_str (uri_to_string pair_uris (rq_uri connect_x)) = Inr (Domain ''x'' 80)"
    using endpoint_from_str_errors(1) [of "''x''"] by (simp add: endpoint_of_host_def pair_uris_def connect_x_def)
  show "rq_connect connect_x" by (simp add: connect_x_def)
qed

lemma connect_x_reach:
  "acc_reach pair_uris list_headers (acc_new [connect_x]) (Acc [] Tunnel (Some (True, Domain ''x'' 80)) True [])"
proof -
  let ?e = "Domain ''x'' 80"
  have h: "acc_apply connect_x (NotConnected True)
      (acc_handle pair_uris list_headers connect_x (NotConnected True)) =
      (Waiting connect_x True ?e, Some (True, ?e), [])"
    using connect_x_request by (simp add: acc_handle_def)
  have r: "acc_resume pair_uris list_headers connect_x True ?e = (Tunnel, [])" by (simp add: acc_resume_def)
  have "acc_reach pair_uris list_headers (acc_new [connect_x]) (Acc [] (Waiting connect_x True ?e) (Some (True, ?e)) False [])"
    using acc_reach_step [OF acc_reach_start [of _ _ "acc_new _"], unfolded acc_new_def, OF acc_step.serve [OF h]]
    by (simp add: acc_new_def)
  then have "acc_reach pair_uris list_headers (acc_new [connect_x]) (Acc [] (Waiting connect_x True ?e) (Some (True, ?e)) True [])"
    by (rule acc_reach_step) (rule acc_step.run_future)
  then show ?thesis using acc_reach_step [OF _ acc_step.resume [OF r]] by fastforce
qed

theorem http_acceptor_tunnel_first_witness:
  "\<exists>r e. [connect_x] = [r] \<and> rq_connect r \<and> Domain ''x'' 80 = e \<and>
     endpoint_from_str (uri_to_string pair_uris (rq_uri r)) = Inr e"
  using http_acceptor_tunnel_first [OF connect_x_reach] by auto



text \<open>
  The port of a proxy request's URI is ignored: only the host is read, so a request to
  a domain always goes to port 80 of it.
\<close>

theorem http_acceptor_ignores_port:
  assumes "uri_host U (rq_uri r) = Some host" and "\<not> rq_connect r"
    and "parse_ip_addr host = None" and "host = [] \<or> hd host \<noteq> CHR ''[''" and "CHR '':'' \<notin> set host"
  shows "acc_handle U H r (NotConnected True) = Awaits False (Domain host 80)"
  using assms by (simp add: acc_handle_def request_endpoint_def endpoint_of_domain)

theorem http_acceptor_ignores_port_witness:
  "acc_handle pair_uris list_headers get_x (NotConnected True) = Awaits False (Domain ''x'' 80)"
  by (rule http_acceptor_ignores_port)
    (auto intro: parse_ip_none simp: to_digit_def pair_uris_def get_x_def)

end
