(* ===== verification/Ip_List.thy ===== *)
theory Ip_List
  imports Resolver
begin

text \<open>
  The lists of IP networks of scripts, \<^verbatim>\<open>config/engine/iplist.rs\<close>.  A network and the test
  whether it contains an address come from the crate \<^verbatim>\<open>ipnetwork\<close> and are parameters;
  CIDR blocks are an instance.
\<close>

section \<open>Definitions\<close>

record 'n networks =
  net_parse :: "string \<Rightarrow> 'n option"
  net_contains :: "'n \<Rightarrow> ip_addr \<Rightarrow> bool"

datatype 'x iplist_error = NotString 'x | BadNetwork string | BadIp string

fun new_iplist :: "'n networks \<Rightarrow> 'x rune_value list \<Rightarrow> 'x iplist_error + 'n list" where
  "new_iplist N [] = Inr []"
| "new_iplist N (ROther x # vs) = Inl (NotString x)"
| "new_iplist N (RString s # vs) =
     res_bind (ok_or (BadNetwork s) (net_parse N s)) (\<lambda>n.
     res_bind (new_iplist N vs) (\<lambda>ns. Inr (n # ns)))"

definition contains_impl :: "'n networks \<Rightarrow> 'n list \<Rightarrow> string \<Rightarrow> 'x iplist_error + bool" where
  "contains_impl N ns ip =
     res_bind (ok_or (BadIp ip) (parse_ip_addr ip)) (\<lambda>a. Inr (list_ex (\<lambda>n. net_contains N n a) ns))"

definition iplist_contains :: "'n networks \<Rightarrow> 'n list \<Rightarrow> string \<Rightarrow> 'x iplist_error + bool" where
  "iplist_contains N ns ip = contains_impl N ns ip"

text \<open>The loop of \<^verbatim>\<open>contains_any\<close>: it stops at the first match or error.\<close>

fun contains_any :: "'n networks \<Rightarrow> 'n list \<Rightarrow> 'x rune_value list \<Rightarrow> 'x iplist_error + bool" where
  "contains_any N ns [] = Inr False"
| "contains_any N ns (ROther x # vs) = Inl (NotString x)"
| "contains_any N ns (RString ip # vs) =
     res_bind (contains_impl N ns ip) (\<lambda>result. if result then Inr True else contains_any N ns vs)"

section \<open>The loop\<close>

lemma new_iplist_Inr:
  "new_iplist N vs = Inr ns \<longleftrightarrow> (\<exists>ss. vs = map RString ss \<and> map (net_parse N) ss = map Some ns)"
proof (induction vs arbitrary: ns)
  case (Cons v vs)
  show ?case
  proof (cases v)
    case (RString s)
    then show ?thesis
      by (cases ns) (auto simp: res_bind_eq_Inr ok_or_def Cons.IH Cons_eq_map_conv split: option.splits)
  qed auto
qed auto

text \<open>Whether an address is in one of the networks.\<close>

definition in_networks :: "'n networks \<Rightarrow> 'n list \<Rightarrow> ip_addr \<Rightarrow> bool" where
  "in_networks N ns a \<longleftrightarrow> (\<exists>n \<in> set ns. net_contains N n a)"

text \<open>A value that is the text of an address outside of all networks.\<close>

definition misses :: "'n networks \<Rightarrow> 'n list \<Rightarrow> 'x rune_value \<Rightarrow> bool" where
  "misses N ns v = (case v of
     RString s \<Rightarrow> (case parse_ip_addr s of Some a \<Rightarrow> \<not> in_networks N ns a | None \<Rightarrow> False)
   | ROther _ \<Rightarrow> False)"

lemma contains_impl_eq:
  "contains_impl N ns s =
     (case parse_ip_addr s of None \<Rightarrow> Inl (BadIp s) | Some a \<Rightarrow> Inr (in_networks N ns a))"
  by (simp add: contains_impl_def ok_or_def in_networks_def list_ex_iff split: option.split)

text \<open>The result is decided by the first value that does not miss.\<close>

lemma contains_any_misses:
  "list_all (misses N ns) pre \<Longrightarrow> contains_any N ns (pre @ vs) = contains_any N ns vs"
proof (induction pre)
  case (Cons v pre)
  then show ?case by (cases v) (auto simp: misses_def contains_impl_eq split: option.splits)
qed simp

lemma contains_any_decided:
  assumes "\<not> misses N ns v"
  shows "contains_any N ns (v # vs) = (case v of
      ROther x \<Rightarrow> Inl (NotString x)
    | RString s \<Rightarrow> (case parse_ip_addr s of None \<Rightarrow> Inl (BadIp s) | Some _ \<Rightarrow> Inr True))"
  using assms by (cases v) (auto simp: misses_def contains_impl_eq split: option.splits)

lemma contains_any_ips:
  "contains_any N ns (map (RString \<circ> show_ip) ips) = Inr (list_ex (in_networks N ns) ips)"
  by (induction ips) (simp_all add: contains_impl_eq parse_ip_show)

section \<open>CIDR blocks\<close>

text \<open>An address and a prefix length; membership compares the first bits of the octets.\<close>

datatype cidr = Cidr ip_addr nat

fun ip_octets :: "ip_addr \<Rightarrow> bytes" where
  "ip_octets (V4 a) = ipv4_octets a"
| "ip_octets (V6 a) = ipv6_octets a"

fun prefix_equal :: "nat \<Rightarrow> bytes \<Rightarrow> bytes \<Rightarrow> bool" where
  "prefix_equal n [] [] = True"
| "prefix_equal n (x # xs) (y # ys) =
     (if 8 \<le> n then x = y \<and> prefix_equal (n - 8) xs ys else drop_bit (8 - n) x = drop_bit (8 - n) y)"
| "prefix_equal n _ _ = False"

fun cidr_contains :: "cidr \<Rightarrow> ip_addr \<Rightarrow> bool" where
  "cidr_contains (Cidr a n) b \<longleftrightarrow>
     length (ip_octets a) = length (ip_octets b) \<and> prefix_equal n (ip_octets a) (ip_octets b)"

definition parse_cidr :: "string \<Rightarrow> cidr option" where
  "parse_cidr s = (let (a, t) = (takeWhile (\<lambda>c. c \<noteq> CHR ''/'') s, dropWhile (\<lambda>c. c \<noteq> CHR ''/'') s) in
     case parse_ip_addr a of
       None \<Rightarrow> None
     | Some ip \<Rightarrow>
         let bits = 8 * length (ip_octets ip) in
         case t of
           [] \<Rightarrow> Some (Cidr ip bits)
         | _ # p \<Rightarrow> (case parse_u16 p of
             None \<Rightarrow> None
           | Some n \<Rightarrow> if unat n \<le> bits then Some (Cidr ip (unat n)) else None))"

definition cidr_networks :: "cidr networks" where
  "cidr_networks = \<lparr>net_parse = parse_cidr, net_contains = cidr_contains\<rparr>"

section \<open>Properties\<close>

text \<open>
  \<^verbatim>\<open>contains_any\<close> is decided by the first value that is not the text of an address
  outside the list: it is an error when that value is no string or no address, true when
  it is an address in the list, and false when there is no such value; what follows it is
  not looked at.
\<close>

theorem iplist_contains_any_exact:
  "contains_any N ns vs =
     (case dropWhile (misses N ns) vs of
        [] \<Rightarrow> Inr False
      | ROther x # _ \<Rightarrow> Inl (NotString x)
      | RString s # _ \<Rightarrow>
          (case parse_ip_addr s of None \<Rightarrow> Inl (BadIp s) | Some _ \<Rightarrow> Inr True))"
proof -
  let ?pre = "takeWhile (misses N ns) vs" and ?suf = "dropWhile (misses N ns) vs"
  have "list_all (misses N ns) ?pre" by (auto simp: list_all_iff dest: set_takeWhileD)
  from contains_any_misses [OF this, of ?suf]
  have eq: "contains_any N ns vs = contains_any N ns ?suf" by simp
  show ?thesis
  proof (cases ?suf)
    case (Cons v ws)
    then have "\<not> misses N ns v" by (metis hd_dropWhile list.distinct(1) list.sel(1))
    from contains_any_decided [OF this, of ws] eq Cons show ?thesis by (cases v) simp_all
  next
    case Nil
    show ?thesis unfolding eq Nil by simp
  qed
qed

text \<open>
  The answers of a resolver can be matched directly: for the texts of a lookup,
  \<^verbatim>\<open>contains_any\<close> never fails, and it is true exactly when one of the resolved addresses is
  in one of the networks the list was made of, whatever the resolver and the networks.
\<close>

theorem resolved_addresses_match:
  assumes "resolver_trait R" and "script_lookup R host = Inr vs" and "new_iplist N nets = Inr ns"
  shows "\<exists>ips. lookup_ip R host = Inr ips \<and>
    contains_any N ns vs = Inr (\<exists>ip \<in> set ips. \<exists>n \<in> set ns. net_contains N n ip) \<and>
    (\<exists>ss. nets = map RString ss \<and> map (net_parse N) ss = map Some ns)"
proof -
  obtain ips where ips: "lookup_ip R host = Inr ips" "vs = map (RString \<circ> show_ip) ips"
    using resolver_trait.script_lookup_texts [OF assms(1,2)] by blast
  then have "contains_any N ns vs = Inr (\<exists>ip \<in> set ips. \<exists>n \<in> set ns. net_contains N n ip)"
    by (simp add: contains_any_ips list_ex_iff in_networks_def)
  with ips(1) assms(3) show ?thesis by (auto simp: new_iplist_Inr)
qed

definition one_host :: "(unit, unit) os_dns" where
  "one_host = \<lparr>os_lookup_host = (\<lambda>_. Inr (Inr [V4 (Ipv4Addr 10 0 0 1)])), os_getaddrinfo = (\<lambda>_ _. Inl ())\<rparr>"

lemma private_block: "net_parse cidr_networks ''10.0.0.0/8'' = Some (Cidr (V4 (Ipv4Addr 10 0 0 0)) 8)"
proof -
  have "show_ip (V4 (Ipv4Addr 10 0 0 0)) = ''10.0.0.0''" and "show_radix 10 (unat (8 :: u16)) = ''8''"
    by code_simp+
  then have "parse_ip_addr ''10.0.0.0'' = Some (V4 (Ipv4Addr 10 0 0 0))" and "parse_u16 ''8'' = Some 8"
    using parse_ip_show [of "V4 (Ipv4Addr 10 0 0 0)"] parse_u16_show [of 8] by simp_all
  then show ?thesis by (simp add: cidr_networks_def parse_cidr_def)
qed

theorem resolved_addresses_match_witness:
  "contains_any cidr_networks [Cidr (V4 (Ipv4Addr 10 0 0 0)) 8]
     [RString (show_ip (V4 (Ipv4Addr 10 0 0 1))) :: unit rune_value] = Inr True"
proof -
  let ?R = "system_resolver one_host :: ((unit, unit, unit) resolver_error, unit) resolver"
  have l: "lookup_ip ?R ''x'' = Inr [V4 (Ipv4Addr 10 0 0 1)]"
    by (simp add: system_resolver_def blocking_def one_host_def)
  then have s: "script_lookup ?R ''x'' = Inr [RString (show_ip (V4 (Ipv4Addr 10 0 0 1))) :: unit rune_value]"
    by (simp add: script_lookup_def texts_def)
  have n: "new_iplist cidr_networks [RString ''10.0.0.0/8'' :: unit rune_value] =
      Inr [Cidr (V4 (Ipv4Addr 10 0 0 0)) 8]" by (simp add: private_block)
  have "net_contains cidr_networks (Cidr (V4 (Ipv4Addr 10 0 0 0)) 8) (V4 (Ipv4Addr 10 0 0 1))"
    by (simp add: cidr_networks_def)
  with resolved_addresses_match [OF system.resolver_trait_axioms s n] l show ?thesis by simp
qed

end
