(* ===== verification/Geoip.thy ===== *)
theory Geoip
  imports Endpoint
begin

text \<open>
  The GeoIP database of scripts, \<^verbatim>\<open>config/engine/geoip.rs\<close>: loading it from a file, from a
  URL with a cache file that is refreshed after an interval, and looking up a country.

  The file system is a map from paths to contents with their modification time; the URL
  parser, the hash, the HTTP exchange over the connection the script's handler returns,
  and the database reader (\<^verbatim>\<open>maxminddb\<close>) are parameters (\<open>geo_env\<close>).  The download is a
  function of the file system and the time that returns the result, the new file system
  and the endpoints it asked the handler to connect to.
\<close>

section \<open>Definitions\<close>

type_synonym 'b files = "string \<Rightarrow> ('b \<times> nat) option"

record url =
  url_scheme :: string
  url_domain :: "string option"
  url_port :: "u16 option"

text \<open>
  A failing write may leave a part of the contents behind (\<open>write_file\<close> gives it), and
  reading the metadata of an existing file may fail (\<open>stat_file\<close>).

  The answer to the GET request: its status and body, when both arrive.\<close>

record ('e, 'b) http_answer =
  ans_status :: nat
  ans_body :: "'e + 'b"

record ('e, 'b, 'd, 'io) geo_env =
  temp_dir :: string
  make_dir :: "'e + unit"
  sha256_hex :: "bytes \<Rightarrow> string"
  parse_url :: "string \<Rightarrow> 'e + url"
  geo_handler :: "connect_request \<Rightarrow> 'e + 'io"
  http_get :: "'io \<Rightarrow> string \<Rightarrow> string \<Rightarrow> 'e + ('e, 'b) http_answer"
  stat_file :: "string \<Rightarrow> 'e + unit"
  write_file :: "string \<Rightarrow> 'b \<Rightarrow> ('e \<times> 'b option) + unit"
  open_db :: "'b \<Rightarrow> 'e + 'd"

datatype 'e geo_error =
    DirError 'e
  | MetadataError 'e
  | ElapsedError
  | OpenError 'e
  | NoFile
  | UrlError 'e
  | BadScheme string
  | NoDomain
  | HandlerError 'e
  | HttpError 'e
  | StatusError nat
  | WriteError 'e

text \<open>\<^verbatim>\<open>Reader::open_mmap\<close> on a path.\<close>

definition open_path :: "('e, 'b, 'd, 'io) geo_env \<Rightarrow> 'b files \<Rightarrow> string \<Rightarrow> 'e geo_error + 'd" where
  "open_path G fs path =
     (case fs path of
        None \<Rightarrow> Inl NoFile
      | Some (content, _) \<Rightarrow> (case open_db G content of Inl e \<Rightarrow> Inl (OpenError e) | Inr d \<Rightarrow> Inr d))"

definition create_geoip_from_absolute_path ::
  "('e, 'b, 'd, 'io) geo_env \<Rightarrow> 'b files \<Rightarrow> string \<Rightarrow> 'e geo_error + 'd" where
  "create_geoip_from_absolute_path G fs path = open_path G fs path"

definition db_path :: "('e, 'b, 'd, 'io) geo_env \<Rightarrow> string \<Rightarrow> string" where
  "db_path G u = temp_dir G @ ''/dandelion/geoip/'' @ sha256_hex G (as_bytes u) @ ''.mmdb''"

text \<open>
  The cache file: \<^const>\<open>None\<close> when there is none or it is too old, otherwise the result
  of opening it.  Times are in nanoseconds, the interval in seconds; a modification time
  in the future is an error.
\<close>

definition cached ::
  "('e, 'b, 'd, 'io) geo_env \<Rightarrow> 'b files \<Rightarrow> nat \<Rightarrow> string \<Rightarrow> nat \<Rightarrow> ('e geo_error + 'd) option" where
  "cached G fs now path interval =
     (case fs path of
        None \<Rightarrow> None
      | Some (_, modified) \<Rightarrow>
          (case stat_file G path of
             Inl e \<Rightarrow> Some (Inl (MetadataError e))
           | Inr _ \<Rightarrow>
               if now < modified then Some (Inl ElapsedError)
               else if now - modified < interval * 10 ^ 9 then Some (open_path G fs path)
               else None))"

definition url_endpoint :: "url \<Rightarrow> string \<Rightarrow> endpoint" where
  "url_endpoint u domain =
     new_from_domain domain (case url_port u of Some p \<Rightarrow> p | None \<Rightarrow> if url_scheme u = ''https'' then 443 else 80)"

text \<open>The exchange over the connection, and the body of a successful answer.\<close>

definition fetch :: "('e, 'b, 'd, 'io) geo_env \<Rightarrow> 'io \<Rightarrow> string \<Rightarrow> string \<Rightarrow> 'e geo_error + 'b" where
  "fetch G io u domain =
     (case http_get G io u domain of
        Inl e \<Rightarrow> Inl (HttpError e)
      | Inr ans \<Rightarrow>
          if ans_status ans \<noteq> 200
          then (case ans_body ans of Inl e \<Rightarrow> Inl (HttpError e) | Inr _ \<Rightarrow> Inl (StatusError (ans_status ans)))
          else (case ans_body ans of Inl e \<Rightarrow> Inl (HttpError e) | Inr body \<Rightarrow> Inr body))"

text \<open>The download, from the check of the URL on.\<close>

definition download ::
  "('e, 'b, 'd, 'io) geo_env \<Rightarrow> 'b files \<Rightarrow> nat \<Rightarrow> string \<Rightarrow>
   ('e geo_error + 'd) \<times> 'b files \<times> endpoint list" where
  "download G fs now u =
     (case parse_url G u of
        Inl e \<Rightarrow> (Inl (UrlError e), fs, [])
      | Inr url \<Rightarrow>
          if url_scheme url \<noteq> ''https'' \<and> url_scheme url \<noteq> ''http''
          then (Inl (BadScheme (url_scheme url)), fs, [])
          else (case url_domain url of
              None \<Rightarrow> (Inl NoDomain, fs, [])
            | Some domain \<Rightarrow>
                let e = url_endpoint url domain in
                case geo_handler G (connect_request_new e) of
                  Inl err \<Rightarrow> (Inl (HandlerError err), fs, [e])
                | Inr io \<Rightarrow>
                    (case fetch G io u domain of
                       Inl err \<Rightarrow> (Inl err, fs, [e])
                     | Inr body \<Rightarrow>
                         (case write_file G (db_path G u) body of
                            Inl (err, None) \<Rightarrow> (Inl (WriteError err), fs, [e])
                          | Inl (err, Some part) \<Rightarrow>
                              (Inl (WriteError err), fs(db_path G u \<mapsto> (part, now)), [e])
                          | Inr _ \<Rightarrow>
                              let fs' = fs(db_path G u \<mapsto> (body, now)) in
                              (open_path G fs' (db_path G u), fs', [e])))))"

definition create_geoip_from_url ::
  "('e, 'b, 'd, 'io) geo_env \<Rightarrow> 'b files \<Rightarrow> nat \<Rightarrow> string \<Rightarrow> nat \<Rightarrow>
   ('e geo_error + 'd) \<times> 'b files \<times> endpoint list" where
  "create_geoip_from_url G fs now u interval =
     (case make_dir G of
        Inl e \<Rightarrow> (Inl (DirError e), fs, [])
      | Inr _ \<Rightarrow>
          (case cached G fs now (db_path G u) interval of
             Some r \<Rightarrow> (r, fs, [])
           | None \<Rightarrow> download G fs now u))"

text \<open>
  The lookup of a country: \<open>lookup\<close> finds the entry of an address, \<open>decode\<close> its country
  record with the code, if it has them.
\<close>

definition geo_lookup ::
  "(ip_addr \<Rightarrow> 'e + 'r) \<Rightarrow> ('r \<Rightarrow> 'e + string option option) \<Rightarrow> string \<Rightarrow> string" where
  "geo_lookup lookup decode ip =
     (case parse_ip_addr ip of
        None \<Rightarrow> []
      | Some a \<Rightarrow>
          (case lookup a of
             Inl _ \<Rightarrow> []
           | Inr result \<Rightarrow>
               (case decode result of
                  Inr (Some (Some code)) \<Rightarrow> code
                | _ \<Rightarrow> [])))"

section \<open>Lemmas\<close>

definition fresh :: "'b files \<Rightarrow> nat \<Rightarrow> string \<Rightarrow> nat \<Rightarrow> bool" where
  "fresh fs now path interval = (case fs path of
     None \<Rightarrow> False
   | Some (_, modified) \<Rightarrow> modified \<le> now \<and> now - modified < interval * 10 ^ 9)"

lemma cached_fresh:
  "fresh fs now path interval \<Longrightarrow> stat_file G path = Inr x \<Longrightarrow>
   cached G fs now path interval = Some (open_path G fs path)"
  by (auto simp: fresh_def cached_def split: option.splits)

lemma cached_fresh_no_download: "fresh fs now path interval \<Longrightarrow> cached G fs now path interval \<noteq> None"
  by (auto simp: fresh_def cached_def split: option.splits sum.splits)

lemma cached_NoneD:
  "cached G fs now path interval = None \<Longrightarrow> fs path = Some (b, m) \<Longrightarrow>
   m \<le> now \<and> interval * 10 ^ 9 \<le> now - m \<and> stat_file G path = Inr ()"
  by (auto simp: cached_def split: option.splits sum.splits if_splits)

text \<open>What a download can do to the file system and to the network.\<close>

lemma download_network:
  assumes "download G fs now u = (r, fs', es)"
  shows "es = [] \<or> (\<exists>url domain. parse_url G u = Inr url \<and> url_scheme url \<in> {''https'', ''http''} \<and>
      url_domain url = Some domain \<and> es = [url_endpoint url domain])"
  using assms
  by (auto simp: download_def Let_def split: sum.splits if_splits option.splits)

definition stored :: "('e, 'b, 'd, 'io) geo_env \<Rightarrow> string \<Rightarrow> 'b \<Rightarrow> 'e geo_error + 'd \<Rightarrow> 'b \<Rightarrow> bool" where
  "stored G u body r b \<longleftrightarrow> (case write_file G (db_path G u) body of
     Inr _ \<Rightarrow> b = body | Inl (err, part) \<Rightarrow> part = Some b \<and> r = Inl (WriteError err))"

lemma download_files:
  assumes "download G fs now u = (r, fs', es)"
  shows "fs' = fs \<or> (\<exists>io domain ans body b. http_get G io u domain = Inr ans \<and> ans_status ans = 200 \<and>
      ans_body ans = Inr body \<and> stored G u body r b \<and> fs' = fs(db_path G u \<mapsto> (b, now)))"
  using assms
  by (fastforce simp: download_def fetch_def stored_def Let_def
      split: sum.splits if_splits option.splits prod.splits)

text \<open>After a download that changed the file, the result is that of opening it, or of the write.\<close>

lemma download_written:
  assumes "download G fs now u = (r, fs', es)" and "fs' (db_path G u) = Some (b, now)"
  shows "r = open_path G fs' (db_path G u) \<or> (\<exists>err. r = Inl (WriteError err)) \<or> fs (db_path G u) = Some (b, now)"
  using assms by (auto simp: download_def Let_def split: sum.splits if_splits option.splits)

section \<open>Properties\<close>

text \<open>
  C38: the cache decides: a fresh file is used as it is, with no connection made and no file
  changed; in every case at most one connection is asked for, to the domain of an http or
  https URL at its port or the default of its scheme, never when the file is fresh; and the
  only change to any file is the cache file of that URL becoming the body of an answer with
  status 200, or what a failing write leaves of it.
\<close>

theorem geoip_cache_policy:
  assumes "create_geoip_from_url G fs now u interval = (r, fs', es)"
  shows "(fresh fs now (db_path G u) interval \<longrightarrow> es = [] \<and> fs' = fs \<and>
      (make_dir G = Inr () \<and> stat_file G (db_path G u) = Inr () \<longrightarrow> r = open_path G fs (db_path G u))) \<and>
    (es = [] \<or> (\<exists>url domain. parse_url G u = Inr url \<and> url_scheme url \<in> {''https'', ''http''} \<and>
      url_domain url = Some domain \<and> es = [Domain domain (case url_port url of Some p \<Rightarrow> p
        | None \<Rightarrow> if url_scheme url = ''https'' then 443 else 80)])) \<and>
    (fs' = fs \<or> (\<exists>io domain ans body b. http_get G io u domain = Inr ans \<and> ans_status ans = 200 \<and>
      ans_body ans = Inr body \<and> stored G u body r b \<and> fs' = fs(db_path G u \<mapsto> (b, now))))"
proof (cases "\<exists>x. make_dir G = Inr x \<and> cached G fs now (db_path G u) interval = None")
  case True
  then have d: "download G fs now u = (r, fs', es)" using assms by (auto simp: create_geoip_from_url_def)
  have "\<not> fresh fs now (db_path G u) interval" using True cached_fresh_no_download by blast
  with download_network [OF d] download_files [OF d] show ?thesis
    by (simp add: url_endpoint_def new_from_domain_def)
next
  case False
  then have "fs' = fs" "es = []"
    using assms by (auto simp: create_geoip_from_url_def split: sum.splits option.splits)
  moreover have "r = open_path G fs (db_path G u)"
    if "fresh fs now (db_path G u) interval" "make_dir G = Inr ()" "stat_file G (db_path G u) = Inr ()"
    using assms that by (auto simp: create_geoip_from_url_def cached_fresh)
  ultimately show ?thesis by blast
qed

text \<open>An example: a server whose answer the reader cannot open.\<close>

definition bad_server :: "(unit, nat, unit, unit) geo_env" where
  "bad_server = \<lparr>temp_dir = ''/tmp'', make_dir = Inr (), sha256_hex = (\<lambda>_. ''0''),
     parse_url = (\<lambda>_. Inr \<lparr>url_scheme = ''https'', url_domain = Some ''x'', url_port = None\<rparr>),
     geo_handler = (\<lambda>_. Inr ()), http_get = (\<lambda>_ _ _. Inr \<lparr>ans_status = 200, ans_body = Inr 0\<rparr>),
     stat_file = (\<lambda>_. Inr ()), write_file = (\<lambda>_ _. Inr ()), open_db = (\<lambda>_. Inl ())\<rparr>"

lemma bad_server_call:
  "create_geoip_from_url bad_server (\<lambda>_. None) 5 u 3600 =
     (Inl (OpenError ()), [db_path bad_server u \<mapsto> (0, 5)], [Domain ''x'' 443])"
  by (simp add: create_geoip_from_url_def cached_def download_def fetch_def open_path_def bad_server_def
      url_endpoint_def new_from_domain_def db_path_def)

theorem geoip_cache_policy_witness:
  "snd (snd (create_geoip_from_url bad_server (\<lambda>_. None) 5 ''u'' 3600)) = [Domain ''x'' 443] \<and>
   \<not> fresh (\<lambda>_. None :: (nat \<times> nat) option) 5 (db_path bad_server ''u'') 3600"
  using geoip_cache_policy [OF bad_server_call [of "''u''"]] bad_server_call [of "''u''"] by auto

text \<open>
  What was downloaded stays: for as long as the file is fresh, every further call opens
  the file, without asking for a connection.  This holds for a body that is no database, and
  for what a failed write left, as well: the file is written before it is opened, so the call
  that wrote it and every later one go on failing until the interval is over.
\<close>

theorem geoip_download_sticks:
  assumes "create_geoip_from_url G fs now u interval = (r, fs', es)" and "es \<noteq> []"
    and "fs' (db_path G u) = Some (body, now)" and "now \<le> t" and "t - now < interval * 10 ^ 9"
    and "stat_file G (db_path G u) = Inr ()"
  shows "create_geoip_from_url G fs' t u interval = (open_path G fs' (db_path G u), fs', []) \<and>
    (r = open_path G fs' (db_path G u) \<or> (\<exists>err. r = Inl (WriteError err)))"
proof -
  obtain x where dir: "make_dir G = Inr x" and none: "cached G fs now (db_path G u) interval = None"
    and d: "download G fs now u = (r, fs', es)"
    using assms(1,2) by (auto simp: create_geoip_from_url_def split: sum.splits option.splits)
  have "fs (db_path G u) \<noteq> Some (body, now)" using cached_NoneD [OF none] assms(5) by fastforce
  then have "r = open_path G fs' (db_path G u) \<or> (\<exists>err. r = Inl (WriteError err))"
    using download_written [OF d assms(3)] by blast
  moreover have "fresh fs' t (db_path G u) interval" using assms(3-5) by (simp add: fresh_def)
  ultimately show ?thesis using dir assms(6) by (simp add: create_geoip_from_url_def cached_fresh)
qed

theorem geoip_download_sticks_witness:
  "create_geoip_from_url bad_server [db_path bad_server ''u'' \<mapsto> (0, 5)] 6 ''u'' 3600 =
     (Inl (OpenError ()), [db_path bad_server ''u'' \<mapsto> (0, 5)], [])"
  using geoip_download_sticks [OF bad_server_call, of "''u''" 0 6]
  by (simp add: bad_server_def open_path_def)

end
