(* ===== verification/Engine_Config.thy ===== *)
theory Engine_Config
  imports Script_Api Endpoint
begin

text \<open>
  The configuration of the rule engine, the first half of \<^verbatim>\<open>config/engine/mod.rs\<close>: the
  \<^verbatim>\<open>Config\<close> object a script fills, and \<^verbatim>\<open>Engine::load_config\<close>, which prepares the script
  (\<^verbatim>\<open>Script_Api\<close>), runs its \<^verbatim>\<open>config\<close> function and checks the cache.  Also \<^verbatim>\<open>DnsServer\<close> of
  \<^verbatim>\<open>config/engine/tun.rs\<close>, which calls a script handler with a clone of its cache in the same way.
\<close>

section \<open>Configuration\<close>

datatype acceptor_config = Socks5Acceptor socket_addr string | HttpAcceptor socket_addr string

record 'o config =
  acceptors :: "acceptor_config list"
  cache :: "'o option"

definition config_new :: "'o config" where
  "config_new = \<lparr>acceptors = [], cache = None\<rparr>"

datatype config_error = BadListenAddress string

definition add_socks5_acceptor :: "string \<Rightarrow> string \<Rightarrow> 'o config \<Rightarrow> (config_error + unit) \<times> 'o config" where
  "add_socks5_acceptor addr handler_name c =
     (case parse_socket_addr addr of
        None \<Rightarrow> (Inl (BadListenAddress addr), c)
      | Some a \<Rightarrow> (Inr (), c\<lparr>acceptors := acceptors c @ [Socks5Acceptor a handler_name]\<rparr>))"

definition add_http_acceptor :: "string \<Rightarrow> string \<Rightarrow> 'o config \<Rightarrow> (config_error + unit) \<times> 'o config" where
  "add_http_acceptor addr handler_name c =
     (case parse_socket_addr addr of
        None \<Rightarrow> (Inl (BadListenAddress addr), c)
      | Some a \<Rightarrow> (Inr (), c\<lparr>acceptors := acceptors c @ [HttpAcceptor a handler_name]\<rparr>))"

fun handler_name :: "acceptor_config \<Rightarrow> string" where
  "handler_name (Socks5Acceptor _ h) = h"
| "handler_name (HttpAcceptor _ h) = h"

fun listen_addr :: "acceptor_config \<Rightarrow> socket_addr" where
  "listen_addr (Socks5Acceptor a _) = a"
| "listen_addr (HttpAcceptor a _) = a"

section \<open>Loading\<close>

text \<open>
  \<open>call\<close> is the call of the script's \<^verbatim>\<open>config\<close> function: the call may fail, the conversion of
  its value may, and the value may be an error of the script itself.  \<open>try_clone\<close> clones a cache
  object.
\<close>

datatype 'e load_error = PrepareError 'e | CallError 'e | ValueError 'e | ScriptError 'e | CacheNotClonable 'e

record ('rt, 'u, 'o) engine =
  eng_context :: 'rt
  eng_unit :: 'u
  eng_acceptors :: "acceptor_config list"
  eng_cache :: "'o option"

definition load_config ::
  "('e, 'm, 'c, 's, 'd, 'rt, 'u) rune_lib \<Rightarrow> ('rt \<Rightarrow> 'u \<Rightarrow> 'e + ('e + ('e + 'o config))) \<Rightarrow> ('o \<Rightarrow> 'e + 'o) \<Rightarrow>
   string \<Rightarrow> 'e load_error + ('rt, 'u, 'o) engine" where
  "load_config R call try_clone code =
     (case prepare_script R engine_modules code of
        Inl e \<Rightarrow> Inl (PrepareError e)
      | Inr (context, unit) \<Rightarrow>
          (case call context unit of
             Inl e \<Rightarrow> Inl (CallError e)
           | Inr (Inl e) \<Rightarrow> Inl (ValueError e)
           | Inr (Inr (Inl e)) \<Rightarrow> Inl (ScriptError e)
           | Inr (Inr (Inr c)) \<Rightarrow>
               (case cache c of
                  None \<Rightarrow> Inr \<lparr>eng_context = context, eng_unit = unit, eng_acceptors = acceptors c, eng_cache = None\<rparr>
                | Some ob \<Rightarrow>
                    (case try_clone ob of
                       Inl e \<Rightarrow> Inl (CacheNotClonable e)
                     | Inr _ \<Rightarrow> Inr \<lparr>eng_context = context, eng_unit = unit, eng_acceptors = acceptors c,
                         eng_cache = Some ob\<rparr>))))"

text \<open>\<^verbatim>\<open>Option::try_clone\<close> of the engine's cache, for each call of a handler.\<close>

definition clone_cache :: "('o \<Rightarrow> 'e + 'o) \<Rightarrow> 'o option \<Rightarrow> 'e + 'o option" where
  "clone_cache try_clone c = (case c of None \<Rightarrow> Inr None | Some ob \<Rightarrow> res_bind (try_clone ob) (\<lambda>x. Inr (Some x)))"

section \<open>The DNS server\<close>

datatype 'r resolve_strategy = ResolverStrategy 'r | IpStrategy string | NxDomain

record ('f, 's, 'rt, 'u, 'o) dns_server =
  fallback_server :: 'f
  fake_resolver :: 's
  dns_handler :: string
  dns_context :: 'rt
  dns_unit :: 'u
  dns_cache :: 'o

definition dns_server_new ::
  "'f \<Rightarrow> 's \<Rightarrow> string \<Rightarrow> 'rt \<Rightarrow> 'u \<Rightarrow> 'o \<Rightarrow> ('f, 's, 'rt, 'u, 'o) dns_server" where
  "dns_server_new fallback resolver handler context unit ob =
     \<lparr>fallback_server = fallback, fake_resolver = resolver, dns_handler = handler, dns_context = context,
      dns_unit = unit, dns_cache = ob\<rparr>"

datatype 'e dns_error = DnsCloneError 'e | DnsCallError 'e | DnsValueError 'e

definition handle_message ::
  "('o \<Rightarrow> 'e + 'o) \<Rightarrow> ('rt \<Rightarrow> 'u \<Rightarrow> string \<Rightarrow> string \<Rightarrow> 'o \<Rightarrow> 'e + ('e + 'r resolve_strategy)) \<Rightarrow>
   ('f, 's, 'rt, 'u, 'o) dns_server \<Rightarrow> string \<Rightarrow> 'e dns_error + 'r resolve_strategy" where
  "handle_message try_clone call d domain =
     (case try_clone (dns_cache d) of
        Inl e \<Rightarrow> Inl (DnsCloneError e)
      | Inr c \<Rightarrow> (case call (dns_context d) (dns_unit d) (dns_handler d) domain c of
          Inl e \<Rightarrow> Inl (DnsCallError e)
        | Inr (Inl e) \<Rightarrow> Inl (DnsValueError e)
        | Inr (Inr s) \<Rightarrow> Inr s))"

section \<open>Lemmas\<close>

text \<open>
  A script: it adds listeners one after the other, printed as \<^verbatim>\<open>SocketAddr\<close> prints them, and
  stops at the first that is refused.
\<close>

fun add_acceptors :: "(bool \<times> string \<times> string) list \<Rightarrow> 'o config \<Rightarrow> config_error + 'o config" where
  "add_acceptors [] c = Inr c"
| "add_acceptors ((socks5, addr, h) # adds) c =
     (case (if socks5 then add_socks5_acceptor addr h c else add_http_acceptor addr h c) of
        (Inl e, _) \<Rightarrow> Inl e
      | (Inr _, c') \<Rightarrow> add_acceptors adds c')"

fun printed_acceptor :: "acceptor_config \<Rightarrow> bool \<times> string \<times> string" where
  "printed_acceptor (Socks5Acceptor a h) = (True, show_socket_addr a, h)"
| "printed_acceptor (HttpAcceptor a h) = (False, show_socket_addr a, h)"

lemma add_printed_acceptors:
  "\<forall>a \<in> set accs. no_flowinfo (listen_addr a) \<Longrightarrow>
   add_acceptors (map printed_acceptor accs) c = Inr (c\<lparr>acceptors := acceptors c @ accs\<rparr>)"
proof (induction accs arbitrary: c)
  case (Cons a accs)
  then show ?case
    by (cases a) (simp_all add: add_socks5_acceptor_def add_http_acceptor_def parse_socket_show)
qed simp

text \<open>Under the contract of the registry a script is prepared as far as it compiles.\<close>

lemma prepare_script_ok:
  assumes "registry R items offered" and "rn_source R code = Inr src" and "rn_default R = Inr c0"
    and "offered c0 \<inter> set (concat engine_modules) = {}"
    and "\<And>c. rn_build R c src = (None, Inr u)" and "\<And>c. rn_runtime R c = Inr rt"
  shows "prepare_script R engine_modules code = Inr (rt, u)"
proof -
  have "\<forall>is \<in> set engine_modules. \<forall>i \<in> set is. has_type (set is) i"
    using engine_modules_typed by (auto simp: list_all_iff)
  then obtain c where "install_modules R engine_modules c0 = Inr c"
    using registry.install_modules_ok [OF assms(1) engine_modules_distinct, of c0] assms(4) by blast
  with assms show ?thesis by (simp add: prepare_script_def)
qed

section \<open>Properties\<close>


definition example_acceptor :: acceptor_config where
  "example_acceptor = Socks5Acceptor (SocketV4 (Ipv4Addr 127 0 0 1) 1080) ''handler''"


end
