(* ===== verification/Socks5_Task.thy ===== *)
theory Socks5_Task
  imports Socks5_Acceptor Engine_Config "HOL-Library.Sublist"
begin

text \<open>
  The task that serves one connection of a SOCKS5 listener, \<^verbatim>\<open>handle_acceptors\<close> of
  \<^verbatim>\<open>config/engine/mod.rs\<close>: the handshake of \<^verbatim>\<open>Socks5_Acceptor\<close>, the call of the script, the reply
  to the client, and copying in both directions.  Its invariant \<^verbatim>\<open>socks5_inv\<close> relates the bytes on
  both sides; its steps are well-founded and can always be continued.

  A script is the relation between a request with a cache and the outcomes of the call, which are
  an error or a connection, given by the bytes the remote end will send.
\<close>

section \<open>Definitions\<close>

type_synonym socks5_program = "(socks5_error, endpoint \<times> (socks5_error, unit) io_prog) io_prog"

datatype ('x, 'e) task_error =
    HandshakeFailed 'x
  | HandshakeIo
  | TargetError endpoint 'e
  | ReplyFailed endpoint
  | ForwardFailed endpoint

datatype 'e task_phase =
    Shaking socks5_program
  | Routing endpoint "(socks5_error, unit) io_prog"
  | Replying endpoint "(socks5_error, unit) io_prog"
  | Forwarding endpoint
  | Ended "(socks5_error, 'e) task_error option"

text \<open>
  A task: its acceptor, its phase, the bytes the client has still to send, those sent to the
  client, those the remote end has still to send, and those sent to the remote end.
\<close>

datatype 'e task = Task acceptor_config "'e task_phase" bytes bytes bytes bytes

definition new_task :: "acceptor_config \<Rightarrow> bytes \<Rightarrow> 'e task" where
  "new_task acc client = Task acc (Shaking socks5_handshake) client [] [] []"

type_synonym ('e, 'o) handler = "string \<Rightarrow> connect_request \<Rightarrow> 'o option \<Rightarrow> 'e + bytes \<Rightarrow> bool"

text \<open>
  The steps of a task; \<open>cl\<close> is the outcome of cloning the engine's cache.  A write that fails may
  have written a part of its bytes (\<open>w\<close>).
\<close>

inductive task_step ::
  "('e, 'o) handler \<Rightarrow> 'e + 'o option \<Rightarrow> 'e task \<Rightarrow> 'e task \<Rightarrow> bool" for S cl where
  shake_read: "n \<le> length i \<Longrightarrow>
    task_step S cl (Task a (Shaking (ReadExact n k)) i out ri ro) (Task a (Shaking (k (take n i))) (drop n i) out ri ro)"
| shake_eof: "length i < n \<Longrightarrow>
    task_step S cl (Task a (Shaking (ReadExact n k)) i out ri ro) (Task a (Ended (Some HandshakeIo)) i out ri ro)"
| shake_write: "task_step S cl (Task a (Shaking (WriteAll bs p)) i out ri ro) (Task a (Shaking p) i (out @ bs) ri ro)"
| shake_broken: "prefix w bs \<Longrightarrow>
    task_step S cl (Task a (Shaking (WriteAll bs p)) i out ri ro) (Task a (Ended (Some HandshakeIo)) i (out @ w) ri ro)"
| shake_fail: "task_step S cl (Task a (Shaking (Fail x)) i out ri ro) (Task a (Ended (Some (HandshakeFailed x))) i out ri ro)"
| shaken: "task_step S cl (Task a (Shaking (Return (e, fut))) i out ri ro) (Task a (Routing e fut) i out ri ro)"
| clone_fail: "cl = Inl x \<Longrightarrow>
    task_step S cl (Task a (Routing e fut) i out ri ro) (Task a (Ended (Some (TargetError e x))) i out ri ro)"
| route_fail: "cl = Inr c \<Longrightarrow> S (handler_name a) (connect_request_new e) c (Inl x) \<Longrightarrow>
    task_step S cl (Task a (Routing e fut) i out ri ro) (Task a (Ended (Some (TargetError e x))) i out ri ro)"
| routed: "cl = Inr c \<Longrightarrow> S (handler_name a) (connect_request_new e) c (Inr remote) \<Longrightarrow>
    task_step S cl (Task a (Routing e fut) i out ri ro) (Task a (Replying e fut) i out remote ro)"
| reply_read: "n \<le> length i \<Longrightarrow>
    task_step S cl (Task a (Replying e (ReadExact n k)) i out ri ro) (Task a (Replying e (k (take n i))) (drop n i) out ri ro)"
| reply_eof: "length i < n \<Longrightarrow>
    task_step S cl (Task a (Replying e (ReadExact n k)) i out ri ro) (Task a (Ended (Some (ReplyFailed e))) i out ri ro)"
| reply_write: "task_step S cl (Task a (Replying e (WriteAll bs p)) i out ri ro) (Task a (Replying e p) i (out @ bs) ri ro)"
| reply_broken: "prefix w bs \<Longrightarrow>
    task_step S cl (Task a (Replying e (WriteAll bs p)) i out ri ro) (Task a (Ended (Some (ReplyFailed e))) i (out @ w) ri ro)"
| reply_fail: "task_step S cl (Task a (Replying e (Fail x)) i out ri ro) (Task a (Ended (Some (ReplyFailed e))) i out ri ro)"
| replied: "task_step S cl (Task a (Replying e (Return u)) i out ri ro) (Task a (Forwarding e) i out ri ro)"
| upload: "bs \<noteq> [] \<Longrightarrow>
    task_step S cl (Task a (Forwarding e) (bs @ i) out ri ro) (Task a (Forwarding e) i out ri (ro @ bs))"
| download: "bs \<noteq> [] \<Longrightarrow>
    task_step S cl (Task a (Forwarding e) i out (bs @ ri) ro) (Task a (Forwarding e) i (out @ bs) ri ro)"
| forwarded: "task_step S cl (Task a (Forwarding e) [] out [] ro) (Task a (Ended None) [] out [] ro)"
| upload_broken: "prefix w bs \<Longrightarrow>
    task_step S cl (Task a (Forwarding e) (bs @ i) out ri ro) (Task a (Ended (Some (ForwardFailed e))) i out ri (ro @ w))"
| download_broken: "prefix w bs \<Longrightarrow>
    task_step S cl (Task a (Forwarding e) i out (bs @ ri) ro) (Task a (Ended (Some (ForwardFailed e))) i (out @ w) ri ro)"

inductive_cases shakingE [consumes 1, case_names shake_read shake_eof shake_write shake_broken shake_fail shaken]:
  "task_step S cl (Task a (Shaking p) i out ri ro) t"
inductive_cases routingE [consumes 1, case_names clone_fail route_fail routed]:
  "task_step S cl (Task a (Routing e p) i out ri ro) t"
inductive_cases replyingE [consumes 1, case_names reply_read reply_eof reply_write reply_broken reply_fail replied]:
  "task_step S cl (Task a (Replying e p) i out ri ro) t"
inductive_cases forwardingE [consumes 1, case_names upload download forwarded upload_broken download_broken]:
  "task_step S cl (Task a (Forwarding e) i out ri ro) t"
inductive_simps ended_step: "task_step S cl (Task a (Ended r) i out ri ro) t"

abbreviation task_reach ::
  "('e, 'o) handler \<Rightarrow> 'e + 'o option \<Rightarrow> 'e task \<Rightarrow> 'e task \<Rightarrow> bool" where
  "task_reach S cl \<equiv> reach (task_step S cl)"

lemmas task_reach_start = reach.start [where step_rel = "task_step S cl" for S cl]
lemmas task_reach_step = reach.step [where step_rel = "task_step S cl" for S cl]
lemmas task_reach_one = reach_step [where step_rel = "task_step S cl" for S cl]
lemmas task_reach_trans = reach_trans [where step_rel = "task_step S cl" for S cl]

section \<open>Runs of programs\<close>

text \<open>The steps of a handshake are the run of its program.\<close>

definition residual :: "('e, 'a) io_prog \<Rightarrow> bytes \<Rightarrow> bytes \<Rightarrow> ('e, 'a) io_prog \<Rightarrow> bool" where
  "residual p0 used out p \<longleftrightarrow>
     (\<forall>x. run p0 (used @ x) = (case run p x of (r, rest, out') \<Rightarrow> (r, rest, out @ out')))"

lemma residual_read:
  "residual p0 used out (ReadExact n k) \<Longrightarrow> length bs = n \<Longrightarrow> residual p0 (used @ bs) out (k bs)"
  by (simp add: residual_def)

lemma residual_write: "residual p0 used out (WriteAll bs p) \<Longrightarrow> residual p0 used (out @ bs) p"
  by (auto simp: residual_def split: prod.splits)

lemma residual_done: "residual p0 used out (Return a) \<Longrightarrow> run p0 used = (Inr a, [], out)"
  by (auto simp: residual_def dest: spec [of _ "[]"])

lemma residual_out: "residual p0 used out p \<Longrightarrow> prefix out (snd (snd (run p0 used)))"
  by (cases "run p []") (auto simp: residual_def dest: spec [of _ "[]"])

section \<open>SOCKS5 connections\<close>

definition socks5_reply_bytes :: "ip_or_domain \<Rightarrow> bytes" where
  "socks5_reply_bytes t = the (socks5_response (address_type t))"

lemma socks5_prog_written: "prefix (snd (snd (run socks5_handshake i))) [5, 0]"
proof -
  obtain r rest out where h: "run socks5_handshake i = (r, rest, out)" by (metis prod.exhaust)
  have "out = [] \<or> out = [5, 0]" using handshake_written [OF h] by (auto dest!: request_silent)
  then show ?thesis by (auto simp: h)
qed

lemma socks5_prog_done:
  assumes "run socks5_handshake used = (Inr (e, fut), [], out)"
  shows "\<exists>ms rsv t p. used = greeting ms @ request rsv t p \<and> greeting_ok ms \<and> target_ok t \<and>
    e = target_endpoint t p \<and> fut = WriteAll (socks5_reply_bytes t) (Return ()) \<and> out = [5, 0]"
  using handshake_sound [OF assms] by (simp add: socks5_reply_def socks5_reply_bytes_def) blast

text \<open>
  What is true of a task at every point: \<open>client\<close> are all bytes of the client.  Once the
  script has connected, \<open>remote\<close> are all bytes of the remote end.
\<close>

definition routed_to ::
  "('e, 'o) handler \<Rightarrow> 'e + 'o option \<Rightarrow> string \<Rightarrow> bytes \<Rightarrow> bytes \<Rightarrow> endpoint \<Rightarrow> ip_or_domain \<Rightarrow> bytes \<Rightarrow> bool" where
  "routed_to S cl h client rest e t remote \<longleftrightarrow>
     (\<exists>ms rsv p c. client = greeting ms @ request rsv t p @ rest \<and> greeting_ok ms \<and> target_ok t \<and>
        e = target_endpoint t p \<and> cl = Inr c \<and> S h (connect_request_new e) c (Inr remote))"

fun socks5_inv :: "('e, 'o) handler \<Rightarrow> 'e + 'o option \<Rightarrow> bytes \<Rightarrow> 'e task \<Rightarrow> bool" where
  "socks5_inv S cl client (Task a (Shaking p) i out ri ro) \<longleftrightarrow>
     ro = [] \<and> (\<exists>used. client = used @ i \<and> residual socks5_handshake used out p)"
| "socks5_inv S cl client (Task a (Routing e fut) i out ri ro) \<longleftrightarrow>
     ro = [] \<and> (\<exists>used. client = used @ i \<and> run socks5_handshake used = (Inr (e, fut), [], out))"
| "socks5_inv S cl client (Task a (Replying e fut) i out ri ro) \<longleftrightarrow>
     ro = [] \<and> (\<exists>t. routed_to S cl (handler_name a) client i e t ri \<and>
       (out = [5, 0] \<and> fut = WriteAll (socks5_reply_bytes t) (Return ()) \<or>
        out = [5, 0] @ socks5_reply_bytes t \<and> fut = Return ()))"
| "socks5_inv S cl client (Task a (Forwarding e) i out ri ro) \<longleftrightarrow>
     (\<exists>t down. routed_to S cl (handler_name a) client (ro @ i) e t (down @ ri) \<and>
       out = [5, 0] @ socks5_reply_bytes t @ down)"
| "socks5_inv S cl client (Task a (Ended r) i out ri ro) \<longleftrightarrow>
     prefix out [5, 0] \<and> ro = [] \<or>
     (\<exists>e t rest remote. routed_to S cl (handler_name a) client rest e t remote \<and> prefix ro rest \<and>
        prefix out ([5, 0] @ socks5_reply_bytes t @ remote))"

lemma socks5_inv_Ended:
  "routed_to S cl (handler_name a) client rest e t remote \<Longrightarrow> prefix ro rest \<Longrightarrow>
   prefix out ([5, 0] @ socks5_reply_bytes t @ remote) \<Longrightarrow> socks5_inv S cl client (Task a (Ended r) i out ri ro)"
  by (simp only: socks5_inv.simps) blast

lemma socks5_inv_step:
  assumes "task_step S cl t t'" and "socks5_inv S cl client t"
  shows "socks5_inv S cl client t'"
proof -
  obtain a ph i out ri ro where t: "t = Task a ph i out ri ro" by (cases t)
  show ?thesis
  proof (cases ph)
    case (Shaking p)
    from assms(2) obtain used where inv: "ro = []" "client = used @ i" "residual socks5_handshake used out p"
      by (auto simp: t Shaking)
    have pre: "prefix out [5, 0]"
      using residual_out [OF inv(3)] socks5_prog_written prefix_order.trans by blast
    from assms(1) [unfolded t Shaking] show ?thesis
    proof (cases rule: shakingE)
      case (shake_read n k)
      note 1 = this
      then have "client = (used @ take n i) @ drop n i" using inv by simp
      moreover have "residual socks5_handshake (used @ take n i) out (k (take n i))"
        using residual_read inv(3) 1 by fastforce
      ultimately show ?thesis using 1 inv(1) by (auto intro!: exI [of _ "used @ take n i"])
    next
      case (shake_write bs p')
      then show ?thesis using inv residual_write by fastforce
    next
      case (shake_broken w bs p')
      have "prefix (out @ bs) [5, 0]"
        using residual_out [OF residual_write [OF inv(3) [unfolded shake_broken(1)]]]
          socks5_prog_written prefix_order.trans by blast
      with shake_broken inv(1) show ?thesis by (auto simp: prefix_def)
    next
      case (shaken e fut)
      then show ?thesis using inv residual_done by fastforce
    qed (use pre inv(1) in auto)
  next
    case (Routing e fut)
    from assms(2) obtain used where inv: "ro = []" "client = used @ i" "run socks5_handshake used = (Inr (e, fut), [], out)"
      by (auto simp: t Routing)
    from socks5_prog_done [OF inv(3)] obtain ms rsv tg p where d: "used = greeting ms @ request rsv tg p"
      "greeting_ok ms" "target_ok tg" "e = target_endpoint tg p"
      "fut = WriteAll (socks5_reply_bytes tg) (Return ())" "out = [5, 0]" by blast
    from assms(1) [unfolded t Routing] show ?thesis
    proof (cases rule: routingE)
      case (routed c remote)
      note 3 = this
      then have "routed_to S cl (handler_name a) client i e tg remote"
        unfolding routed_to_def using inv(2) d by (metis append_assoc)
      with 3 inv d show ?thesis by auto
    qed (use d inv(1) in auto)
  next
    case (Replying e p)
    with assms(2) obtain tg where inv: "ro = []" "routed_to S cl (handler_name a) client i e tg ri"
      "out = [5, 0] \<and> p = WriteAll (socks5_reply_bytes tg) (Return ()) \<or>
       out = [5, 0] @ socks5_reply_bytes tg \<and> p = Return ()" by (auto simp: t)
    from assms(1) [unfolded t Replying] show ?thesis
    proof (cases rule: replyingE)
      case replied
      then show ?thesis using inv by (auto intro!: exI [of _ tg] exI [of _ "[]"])
    next
      case (reply_broken w bs p')
      have "socks5_inv S cl client (Task a (Ended (Some (ReplyFailed e))) i (out @ w) ri ro)"
        by (rule socks5_inv_Ended [OF inv(2)]) (use inv reply_broken in \<open>auto simp: prefix_def\<close>)
      with reply_broken show ?thesis by simp
    qed (use inv in auto)
  next
    case (Forwarding e)
    with assms(2) obtain tg down where inv: "routed_to S cl (handler_name a) client (ro @ i) e tg (down @ ri)"
      "out = [5, 0] @ socks5_reply_bytes tg @ down" by (auto simp: t)
    from assms(1) [unfolded t Forwarding] show ?thesis
    proof (cases rule: forwardingE)
      case (download bs ri')
      then show ?thesis using inv by (auto intro!: exI [of _ tg] exI [of _ "down @ bs"])
    next
      case (upload_broken w bs i')
      have "socks5_inv S cl client (Task a (Ended (Some (ForwardFailed e))) i' out ri (ro @ w))"
        by (rule socks5_inv_Ended [OF inv(1)]) (use inv(2) upload_broken in \<open>auto simp: prefix_def\<close>)
      with upload_broken show ?thesis by simp
    next
      case (download_broken w bs ri')
      have "socks5_inv S cl client (Task a (Ended (Some (ForwardFailed e))) i (out @ w) ri' ro)"
        by (rule socks5_inv_Ended [OF inv(1)]) (use inv(2) download_broken in \<open>auto simp: prefix_def\<close>)
      with download_broken show ?thesis by simp
    next
      case forwarded
      have "socks5_inv S cl client (Task a (Ended None) [] out [] ro)"
        by (rule socks5_inv_Ended [OF inv(1)]) (use inv(2) forwarded in auto)
      with forwarded show ?thesis by simp
    qed (use inv in auto)
  next
    case (Ended r)
    with assms(1) show ?thesis by (simp add: t ended_step)
  qed
qed

interpretation socks5_inv: step_invariant "task_step S cl" "socks5_inv S cl client"
  by unfold_locales (rule socks5_inv_step)

lemma socks5_inv_reach:
  assumes "task_reach S cl (new_task (Socks5Acceptor addr h) client) t"
  shows "socks5_inv S cl client t"
  using assms by (rule socks5_inv.inv_reach) (simp add: new_task_def residual_def)

fun task_acc :: "'e task \<Rightarrow> acceptor_config" where
  "task_acc (Task a _ _ _ _ _) = a"

interpretation same_acceptor: step_invariant "task_step S cl" "\<lambda>t. task_acc t = a"
proof
  fix t t'
  show "task_acc t' = a" if "task_step S cl t t'" "task_acc t = a" for t t'
    using that by (induction rule: task_step.induct) auto
qed

lemma socks5_reply_bytes_nonempty: "socks5_reply_bytes t \<noteq> []"
  using socks5_response_address [of t] by (auto simp: socks5_reply_bytes_def socks5_response_def split: if_splits)

text \<open>What a task has sent, in whatever phase: the method reply alone, or only after the script connected.\<close>

lemma socks5_inv_routed:
  assumes "socks5_inv S cl client (Task a ph i out ri ro)" and "\<not> (prefix out [5, 0] \<and> ro = [])"
  shows "\<exists>e t rest remote. routed_to S cl (handler_name a) client rest e t remote \<and> prefix ro rest \<and>
    prefix out ([5, 0] @ socks5_reply_bytes t @ remote) \<and>
    (\<forall>e'. ph = Forwarding e' \<longrightarrow> e' = e \<and> rest = ro @ i \<and> out @ ri = [5, 0] @ socks5_reply_bytes t @ remote)"
proof (cases ph)
  case (Shaking p)
  with assms(1) obtain used where "residual socks5_handshake used out p" "ro = []" by auto
  then have "prefix out [5, 0]" "ro = []"
    using residual_out socks5_prog_written prefix_order.trans by blast+
  with assms(2) show ?thesis by simp
next
  case (Routing e fut)
  with assms show ?thesis by (auto dest!: socks5_prog_done)
next
  case (Forwarding e)
  with assms(1) obtain t down where "routed_to S cl (handler_name a) client (ro @ i) e t (down @ ri)"
    "out = [5, 0] @ socks5_reply_bytes t @ down" by auto
  then show ?thesis using Forwarding
    by (intro exI [of _ e] exI [of _ t] exI [of _ "ro @ i"] exI [of _ "down @ ri"]) simp
next
  case (Replying e p)
  with assms(1) obtain t where "ro = []" "routed_to S cl (handler_name a) client i e t ri"
    "out = [5, 0] \<or> out = [5, 0] @ socks5_reply_bytes t" by auto
  with Replying show ?thesis
    by (intro exI [of _ e] exI [of _ t] exI [of _ i] exI [of _ ri]) auto
next
  case (Ended r)
  with assms have "\<exists>e t rest remote. routed_to S cl (handler_name a) client rest e t remote \<and> prefix ro rest \<and>
    prefix out ([5, 0] @ socks5_reply_bytes t @ remote)" by auto
  with Ended show ?thesis by (simp only: task_phase.distinct) blast
qed

section \<open>Progress\<close>

text \<open>A program that returns on some input is a sequence of steps of the task that runs it.\<close>

lemma shake_run:
  "run p i = (Inr (e, fut), rest, out') \<Longrightarrow>
   task_reach S cl (Task a (Shaking p) i out ri ro) (Task a (Routing e fut) rest (out @ out') ri ro)"
proof (induction p arbitrary: i out out')
  case (Return x)
  then show ?case by (auto intro: task_reach_one task_step.shaken)
next
  case (ReadExact n k)
  then have n: "n \<le> length i" and "run (k (take n i)) (drop n i) = (Inr (e, fut), rest, out')"
    by (auto split: if_splits)
  from ReadExact.IH [OF rangeI this(2)] show ?case
    using task_reach_trans task_reach_one [OF task_step.shake_read [OF n]] by metis
next
  case (WriteAll bs p)
  then obtain o2 where "run p i = (Inr (e, fut), rest, o2)" "out' = bs @ o2"
    by (auto split: prod.splits)
  with WriteAll.IH [of i o2 "out @ bs"] show ?case
    using task_reach_trans task_reach_one [OF task_step.shake_write] by fastforce
qed simp

lemma socks5_prog_accepts:
  assumes "greeting_ok ms" and "target_ok t"
  shows "run socks5_handshake (greeting ms @ request rsv t p @ rest) =
    (Inr (target_endpoint t p, WriteAll (socks5_reply_bytes t) (Return ())), rest, [5, 0])"
  using handshake_accepts [OF assms] by (simp add: socks5_reply_def socks5_reply_bytes_def)

lemma socks5_prog_forwards:
  assumes "greeting_ok ms" and "target_ok t" and "S h (connect_request_new (target_endpoint t p)) c (Inr remote)"
  shows "task_reach S (Inr c) (new_task (Socks5Acceptor addr h) (greeting ms @ request rsv t p @ i))
    (Task (Socks5Acceptor addr h) (Forwarding (target_endpoint t p)) i ([5, 0] @ socks5_reply_bytes t) remote [])"
proof -
  let ?a = "Socks5Acceptor addr h" and ?e = "target_endpoint t p" and ?w = "socks5_reply_bytes t"
  have "task_reach S (Inr c) (new_task ?a (greeting ms @ request rsv t p @ i))
      (Task ?a (Routing ?e (WriteAll ?w (Return ()))) i [5, 0] [] [])"
    unfolding new_task_def
    using shake_run [OF socks5_prog_accepts [OF assms(1,2)], where out = "[]"] by simp
  then have "task_reach S (Inr c) (new_task ?a (greeting ms @ request rsv t p @ i))
      (Task ?a (Replying ?e (WriteAll ?w (Return ()))) i [5, 0] remote [])"
    by (rule task_reach_step) (rule task_step.routed [OF refl], simp add: assms(3))
  then have "task_reach S (Inr c) (new_task ?a (greeting ms @ request rsv t p @ i))
      (Task ?a (Replying ?e (Return ())) i ([5, 0] @ ?w) remote [])"
    by (rule task_reach_step) (rule task_step.reply_write)
  then show ?thesis by (rule task_reach_step) (rule task_step.replied)
qed

lemma forwarding_finishes:
  "task_reach S cl (Task a (Forwarding e) i out ri ro) (Task a (Ended None) [] (out @ ri) [] (ro @ i))"
proof -
  have up: "task_reach S cl (Task a (Forwarding e) i out ri ro) (Task a (Forwarding e) [] out ri (ro @ i))"
    using task_reach_one [OF task_step.upload [of i S cl a e "[]"]]
    by (cases "i = []") (auto intro: task_reach_start)
  have down: "task_reach S cl (Task a (Forwarding e) [] out ri r) (Task a (Forwarding e) [] (out @ ri) [] r)" for r
    using task_reach_one [OF task_step.download [of ri S cl a e _ _ "[]"]]
    by (cases "ri = []") (auto intro: task_reach_start)
  show ?thesis
    by (rule task_reach_step [OF task_reach_trans [OF up down] task_step.forwarded])
qed

section \<open>Termination\<close>

lemma accp_Ended: "Wellfounded.accp (\<lambda>t' t. task_step S cl t t') (Task a (Ended r) i out ri ro)"
  by (rule accp.accI) (simp add: ended_step)

lemma accp_Forwarding: "Wellfounded.accp (\<lambda>t' t. task_step S cl t t') (Task a (Forwarding e) i out ri ro)"
proof (induction "length i + length ri" arbitrary: i out ri ro rule: less_induct)
  case less
  show ?case
  proof (rule accp.accI, goal_cases)
    case (1 t)
    then show ?case
    proof (cases rule: forwardingE)
      case (upload bs i')
      then show ?thesis using less [of i' ri] by simp
    next
      case (download bs ri')
      then show ?thesis using less [of i ri'] by simp
    qed (simp_all add: accp_Ended)
  qed
qed

lemma accp_Replying: "Wellfounded.accp (\<lambda>t' t. task_step S cl t t') (Task a (Replying e p) i out ri ro)"
proof (induction p arbitrary: i out)
qed (rule accp.accI, erule replyingE; auto intro: accp_Ended accp_Forwarding)+

lemma accp_Routing: "Wellfounded.accp (\<lambda>t' t. task_step S cl t t') (Task a (Routing e p) i out ri ro)"
  by (rule accp.accI, erule routingE; auto intro: accp_Ended accp_Replying)

lemma accp_Shaking: "Wellfounded.accp (\<lambda>t' t. task_step S cl t t') (Task a (Shaking p) i out ri ro)"
proof (induction p arbitrary: i out)
qed (rule accp.accI, erule shakingE; auto intro: accp_Ended accp_Routing)+

lemma task_step_wf: "wfp (\<lambda>t' t :: 'e task. task_step S cl t t')"
proof (rule accp_wfpI, rule allI)
  fix t :: "'e task"
  show "Wellfounded.accp (\<lambda>t' t. task_step S cl t t') t"
  proof (cases t)
    case (Task a ph i out ri ro)
    then show ?thesis
      by (cases ph) (simp_all add: accp_Ended accp_Forwarding accp_Replying accp_Routing accp_Shaking)
  qed
qed

lemma shaking_progress: "\<exists>t'. task_step S cl (Task a (Shaking p) i out ri ro) t'"
proof (cases p)
  case (Return x)
  then show ?thesis by (cases x) (auto intro: task_step.shaken)
next
  case (ReadExact n k)
  then show ?thesis
    by (cases "n \<le> length i") (auto simp: not_le intro: task_step.shake_read task_step.shake_eof)
qed (auto intro: task_step.shake_fail task_step.shake_write)

lemma replying_progress: "\<exists>t'. task_step S cl (Task a (Replying e p) i out ri ro) t'"
proof (cases p)
  case (ReadExact n k)
  then show ?thesis
    by (cases "n \<le> length i") (auto simp: not_le intro: task_step.reply_read task_step.reply_eof)
qed (auto intro: task_step.replied task_step.reply_fail task_step.reply_write)

lemma routing_progress:
  assumes "\<And>n r c. \<exists>x. S n r c x"
  shows "\<exists>t'. task_step S cl (Task a (Routing e fut) i out ri ro) t'"
proof (cases cl)
  case (Inl x)
  then show ?thesis by (auto intro: task_step.clone_fail)
next
  case (Inr c)
  obtain x where "S (handler_name a) (connect_request_new e) c x" using assms by blast
  then show ?thesis
    by (cases x) (use Inr in \<open>auto intro: task_step.route_fail task_step.routed\<close>)
qed

lemma task_progress:
  assumes "\<And>n r c. \<exists>x. S n r c x" and "\<not> (\<exists>t'. task_step S cl (Task a ph i out ri ro) t')"
  shows "\<exists>r. ph = Ended r"
proof (cases ph)
  case (Forwarding e)
  have "task_step S cl (Task a ph i out ri ro) (Task a (Ended (Some (ForwardFailed e))) i out ri ro)"
    unfolding Forwarding using task_step.upload_broken [of "[]" "[]" S cl a e i] by simp
  with assms(2) show ?thesis by blast
qed (use assms(2) in \<open>simp_all add: shaking_progress replying_progress routing_progress [of S, OF assms(1)]\<close>)

lemma socks_task_ends:
  assumes "\<And>n r c. \<exists>x. S n r c x"
  shows "\<exists>a r i out ri ro. task_reach S cl t (Task a (Ended r) i out ri ro)"
  using task_step_wf [of S cl]
proof (induction t rule: wfp_induct_rule)
  case (less t)
  show ?case
  proof (cases "\<exists>t'. task_step S cl t t'")
    case True
    then obtain t' where "task_step S cl t t'" by blast
    with less [OF this] show ?thesis
      using task_reach_trans task_reach_one by metis
  next
    case False
    obtain a ph i out ri ro where t: "t = Task a ph i out ri ro" by (cases t)
    obtain r where "ph = Ended r" using task_progress [of S, OF assms False [unfolded t]] by blast
    with t show ?thesis using task_reach_start by blast
  qed
qed

end
