(* ===== verification/Http_Task.thy ===== *)
theory Http_Task
  imports Http_Acceptor Socks5_Task
begin

text \<open>
  The task that serves one connection of an HTTP listener: \<^verbatim>\<open>handshake\<close> of
  \<^verbatim>\<open>core/acceptor/http.rs\<close> inside \<^verbatim>\<open>handle_acceptors\<close> of \<^verbatim>\<open>config/engine/mod.rs\<close>.  The server
  connection is the step relation of \<^verbatim>\<open>Http_Acceptor\<close>; the task polls it only at certain times:
  until it has handed over an endpoint, not while the script runs, then inside the future of the
  handshake for a tunnel, or spawned beside the copying for plain requests.

  A plain connection is forwarded through an in-memory pipe from which the copying takes the
  requests in the order they were sent (\<open>relayed\<close>).  For a tunnel the bytes after the CONNECT
  request are copied, except those that the HTTP server had read already: they stay in the
  \<^verbatim>\<open>read_buf\<close> of the finished connection, which the source drops.
\<close>

section \<open>Definitions\<close>

datatype 'e http_phase =
    HShaking
  | HRouting endpoint
  | HReplying endpoint
  | HForwarding endpoint
  | HEnded "(unit, 'e) task_error option"
  | HPanicked

text \<open>
  The acceptor, the phase, the server connection, the bytes after a CONNECT request that the
  client has still to send, those sent to the client, those the remote end has still to send,
  those sent to the remote end, and the plain requests sent to it.
\<close>

datatype ('u, 'h, 'e) http_task =
  HTask acceptor_config "'e http_phase" "('u, 'h) acc_conn" bytes bytes bytes bytes "('u, 'h) request list"

definition new_http_task :: "acceptor_config \<Rightarrow> ('u, 'h) request list \<Rightarrow> bytes \<Rightarrow> ('u, 'h, 'e) http_task" where
  "new_http_task a rs data = HTask a HShaking (acc_new rs) data [] [] [] []"

text \<open>Polling the server connection: its steps other than the one the future makes.\<close>

definition acc_poll ::
  "'u uri_ops \<Rightarrow> ('h, 'v) header_ops \<Rightarrow> ('u, 'h) acc_conn \<Rightarrow> ('u, 'h) acc_conn \<Rightarrow> bool" where
  "acc_poll U H c c' \<longleftrightarrow> acc_step U H c c' \<and>
     (case c of Acc _ _ _ d _ \<Rightarrow> case c' of Acc _ _ _ d' _ \<Rightarrow> d' = d)"

inductive http_step ::
  "'u uri_ops \<Rightarrow> ('h, 'v) header_ops \<Rightarrow> ('e, 'o) handler \<Rightarrow> 'e + 'o option \<Rightarrow>
   ('u, 'h, 'e) http_task \<Rightarrow> ('u, 'h, 'e) http_task \<Rightarrow> bool" for U H S cl where
  h_poll: "c = Acc rs ph None d f \<Longrightarrow> acc_poll U H c c' \<Longrightarrow>
    http_step U H S cl (HTask a HShaking c i out ri ro rel) (HTask a HShaking c' i out ri ro rel)"
| h_no_request: "c = Acc rs ph None d f \<Longrightarrow>
    http_step U H S cl (HTask a HShaking c i out ri ro rel) (HTask a (HEnded (Some (HandshakeFailed ()))) c i out ri ro rel)"
| h_endpoint: "c = Acc rs ph (Some (b, e)) d f \<Longrightarrow>
    http_step U H S cl (HTask a HShaking c i out ri ro rel) (HTask a (HRouting e) c i out ri ro rel)"
| h_clone_fail: "cl = Inl x \<Longrightarrow>
    http_step U H S cl (HTask a (HRouting e) c i out ri ro rel) (HTask a (HEnded (Some (TargetError e x))) c i out ri ro rel)"
| h_route_fail: "cl = Inr k \<Longrightarrow> S (handler_name a) (connect_request_new e) k (Inl x) \<Longrightarrow>
    http_step U H S cl (HTask a (HRouting e) c i out ri ro rel) (HTask a (HEnded (Some (TargetError e x))) c i out ri ro rel)"
| h_routed: "cl = Inr k \<Longrightarrow> S (handler_name a) (connect_request_new e) k (Inr remote) \<Longrightarrow>
    http_step U H S cl (HTask a (HRouting e) c i out ri ro rel) (HTask a (HReplying e) c i out remote ro rel)"
| h_client_fail: "c = Acc rs ph (Some (False, e')) False f \<Longrightarrow>
    http_step U H S cl (HTask a (HReplying e) c i out ri ro rel) (HTask a (HEnded (Some (ReplyFailed e))) c i out ri ro rel)"
| h_done: "c = Acc rs (Waiting r b e') ep False f \<Longrightarrow>
    http_step U H S cl (HTask a (HReplying e) c i out ri ro rel)
      (HTask a (HReplying e) (Acc rs (Waiting r b e') ep True f) i out ri ro rel)"
| h_done_panic: "c = Acc rs ph ep False f \<Longrightarrow> (\<nexists>r b e'. ph = Waiting r b e') \<Longrightarrow>
    http_step U H S cl (HTask a (HReplying e) c i out ri ro rel) (HTask a HPanicked c i out ri ro rel)"
| h_spawn: "c = Acc rs ph (Some (False, e')) True f \<Longrightarrow>
    http_step U H S cl (HTask a (HReplying e) c i out ri ro rel) (HTask a (HForwarding e) c i out ri ro rel)"
| h_await: "c = Acc rs ph (Some (True, e')) True f \<Longrightarrow> ph \<noteq> Tunnel \<Longrightarrow> acc_poll U H c c' \<Longrightarrow>
    http_step U H S cl (HTask a (HReplying e) c i out ri ro rel) (HTask a (HReplying e) c' i out ri ro rel)"
| h_await_fail: "c = Acc rs ph (Some (True, e')) True f \<Longrightarrow>
    http_step U H S cl (HTask a (HReplying e) c i out ri ro rel) (HTask a (HEnded (Some (ReplyFailed e))) c i out ri ro rel)"
| h_tunnel: "c = Acc rs Tunnel (Some (True, e')) True f \<Longrightarrow>
    http_step U H S cl (HTask a (HReplying e) c (read_buf @ i) out ri ro rel) (HTask a (HForwarding e) c i out ri ro rel)"
| h_panic: "c = Acc rs Panicked ep d f \<Longrightarrow> p \<in> {HShaking, HReplying e, HForwarding e} \<Longrightarrow>
    http_step U H S cl (HTask a p c i out ri ro rel) (HTask a HPanicked c i out ri ro rel)"
| h_upload: "c = Acc rs Tunnel ep d f \<Longrightarrow> bs \<noteq> [] \<Longrightarrow>
    http_step U H S cl (HTask a (HForwarding e) c (bs @ i) out ri ro rel) (HTask a (HForwarding e) c i out ri (ro @ bs) rel)"
| h_download: "c = Acc rs Tunnel ep d f \<Longrightarrow> bs \<noteq> [] \<Longrightarrow>
    http_step U H S cl (HTask a (HForwarding e) c i out (bs @ ri) ro rel) (HTask a (HForwarding e) c i (out @ bs) ri ro rel)"
| h_serve: "c = Acc rs ph (Some (False, e')) True f \<Longrightarrow> acc_poll U H c c' \<Longrightarrow>
    http_step U H S cl (HTask a (HForwarding e) c i out ri ro rel) (HTask a (HForwarding e) c' i out ri ro rel)"
| h_relay: "c = Acc rs ph (Some (False, e')) True f \<Longrightarrow> f = rel @ r # f' \<Longrightarrow>
    http_step U H S cl (HTask a (HForwarding e) c i out ri ro rel) (HTask a (HForwarding e) c i out ri ro (rel @ [r]))"
| h_forwarded: "c = Acc rs ph ep d f \<Longrightarrow> ph = Tunnel \<and> i = [] \<and> ri = [] \<or> ph \<noteq> Tunnel \<and> rel = f \<and> (rs = [] \<or> ph = Closed) \<Longrightarrow>
    http_step U H S cl (HTask a (HForwarding e) c i out ri ro rel) (HTask a (HEnded None) c i out ri ro rel)"
| h_broken: "prefix w bs \<Longrightarrow> prefix w' bs' \<Longrightarrow> c = Acc rs ph ep d f \<Longrightarrow> ph \<noteq> Tunnel \<longrightarrow> w = [] \<and> w' = [] \<Longrightarrow>
    http_step U H S cl (HTask a (HForwarding e) c (bs @ i) out (bs' @ ri) ro rel)
      (HTask a (HEnded (Some (ForwardFailed e))) c i (out @ w') ri (ro @ w) rel)"


abbreviation http_reach ::
  "'u uri_ops \<Rightarrow> ('h, 'v) header_ops \<Rightarrow> ('e, 'o) handler \<Rightarrow> 'e + 'o option \<Rightarrow>
   ('u, 'h, 'e) http_task \<Rightarrow> ('u, 'h, 'e) http_task \<Rightarrow> bool" where
  "http_reach U H S cl \<equiv> reach (http_step U H S cl)"

lemmas http_reach_start = reach.start [where step_rel = "http_step U H S cl" for U H S cl]
lemmas http_reach_step = reach.step [where step_rel = "http_step U H S cl" for U H S cl]
lemmas http_reach_one = reach_step [where step_rel = "http_step U H S cl" for U H S cl]
lemmas http_reach_trans = reach_trans [where step_rel = "http_step U H S cl" for U H S cl]

section \<open>The invariant\<close>

text \<open>The script has connected to an endpoint, whose remote end sends \<open>remote\<close>.\<close>

definition connected ::
  "('e, 'o) handler \<Rightarrow> 'e + 'o option \<Rightarrow> string \<Rightarrow> endpoint \<Rightarrow> bytes \<Rightarrow> bool" where
  "connected S cl h e remote \<longleftrightarrow> (\<exists>k. cl = Inr k \<and> S h (connect_request_new e) k (Inr remote))"

text \<open>
  The phase of the task against the server connection.  All requests and all bytes after a
  CONNECT are \<open>all\<close> and \<open>data\<close>.
\<close>

fun http_ok ::
  "('e, 'o) handler \<Rightarrow> 'e + 'o option \<Rightarrow> bytes \<Rightarrow> ('u, 'h, 'e) http_task \<Rightarrow> bool" where
  "http_ok S cl data (HTask a HShaking (Acc rs ph ep d f) i out ri ro rel) \<longleftrightarrow>
     \<not> d \<and> i = data \<and> out = [] \<and> ro = [] \<and> rel = [] \<and> (\<forall>b e. ep = Some (b, e) \<longrightarrow> (\<exists>r. ph = Waiting r b e))"
| "http_ok S cl data (HTask a (HRouting e) (Acc rs ph ep d f) i out ri ro rel) \<longleftrightarrow>
     \<not> d \<and> i = data \<and> out = [] \<and> ro = [] \<and> rel = [] \<and> (\<exists>r b. ep = Some (b, e) \<and> ph = Waiting r b e)"
| "http_ok S cl data (HTask a (HReplying e) (Acc rs ph ep d f) i out ri ro rel) \<longleftrightarrow>
     i = data \<and> out = [] \<and> ro = [] \<and> rel = [] \<and> connected S cl (handler_name a) e ri \<and>
     (\<exists>b. ep = Some (b, e) \<and> (\<not> d \<longrightarrow> (\<exists>r. ph = Waiting r b e)))"
| "http_ok S cl data (HTask a (HForwarding e) (Acc rs ph ep d f) i out ri ro rel) \<longleftrightarrow>
     d \<and> (\<exists>b lost remote. ep = Some (b, e) \<and> connected S cl (handler_name a) e remote \<and> prefix rel f \<and>
       data = lost @ ro @ i \<and> remote = out @ ri \<and> (b \<longrightarrow> ph = Tunnel) \<and> (\<not> b \<longrightarrow> out = [] \<and> ro = []))"
| "http_ok S cl data (HTask a (HEnded r) (Acc rs ph ep d f) i out ri ro rel) \<longleftrightarrow>
     prefix rel f \<and> (out \<noteq> [] \<or> ro \<noteq> [] \<longrightarrow> ph = Tunnel) \<and>
     (d \<or> out \<noteq> [] \<or> ro \<noteq> [] \<or> rel \<noteq> [] \<longrightarrow>
       (\<exists>b e remote lost rest. ep = Some (b, e) \<and> connected S cl (handler_name a) e remote \<and>
          data = lost @ ro @ rest \<and> prefix out remote))"
| "http_ok S cl data (HTask a HPanicked c i out ri ro rel) \<longleftrightarrow> False"

fun http_inv ::
  "'u uri_ops \<Rightarrow> ('h, 'v) header_ops \<Rightarrow> ('e, 'o) handler \<Rightarrow> 'e + 'o option \<Rightarrow> ('u, 'h) request list \<Rightarrow> bytes \<Rightarrow>
   ('u, 'h, 'e) http_task \<Rightarrow> bool" where
  "http_inv U H S cl all data (HTask a p c i out ri ro rel) \<longleftrightarrow>
     acc_inv U H all c \<and> http_ok S cl data (HTask a p c i out ri ro rel)"

text \<open>What polling the server connection does to the parts the task looks at.\<close>

lemma acc_poll_step: "acc_poll U H c c' \<Longrightarrow> acc_inv U H all c \<Longrightarrow> acc_inv U H all c'"
  using acc_inv_step by (auto simp: acc_poll_def)

lemma acc_handle_awaits: "acc_handle U H r st = Awaits b e \<Longrightarrow> st = NotConnected True"
  by (cases st) (auto simp: acc_handle_def split: if_splits sum.splits option.splits bool.splits)

lemma acc_poll_parts:
  assumes "acc_poll U H (Acc rs ph ep d f) (Acc rs' ph' ep' d' f')"
  shows "d' = d \<and> prefix f f' \<and> (ep = None \<longrightarrow> ep' \<noteq> None \<longrightarrow> (\<exists>r b e. ep' = Some (b, e) \<and> ph' = Waiting r b e)) \<and>
    (\<forall>st. ph = Idle st \<longrightarrow> st \<noteq> NotConnected True \<longrightarrow> ep' = ep) \<and> ((\<nexists>st. ph = Idle st) \<longrightarrow> ep' = ep)"
proof -
  have "acc_step U H (Acc rs ph ep d f) (Acc rs' ph' ep' d' f')" and d: "d' = d"
    using assms by (auto simp: acc_poll_def)
  then show ?thesis
  proof (cases rule: acc_step.cases)
    case (serve r st ep1 fwd')
    show ?thesis
    proof (cases "acc_handle U H r st")
      case (Awaits b e)
      with acc_handle_awaits [OF this] serve d show ?thesis by auto
    qed (use serve d in simp_all)
  qed auto
qed

lemma acc_inv_no_panic: "\<not> acc_inv U H all (Acc rs Panicked ep d f)"
  by simp

lemma acc_inv_connected:
  "acc_inv U H all (Acc rs (Idle st) (Some (b, e)) d f) \<Longrightarrow> st = ConnectedTo e \<and> \<not> b \<and> d"
  by (cases st) auto

text \<open>A connection that has handed over its endpoint keeps it.\<close>

lemma acc_poll_endpoint:
  assumes "acc_poll U H (Acc rs ph (Some (b, e)) d f) c'" and "acc_inv U H all (Acc rs ph (Some (b, e)) d f)"
  shows "\<exists>rs' ph' f'. c' = Acc rs' ph' (Some (b, e)) d f' \<and> prefix f f'"
proof -
  obtain rs' ph' ep' d' f' where c': "c' = Acc rs' ph' ep' d' f'" by (cases c')
  note parts = acc_poll_parts [OF assms(1) [unfolded c']]
  have "ep' = Some (b, e)"
  proof (cases "\<exists>st. ph = Idle st")
    case True
    then obtain st where st: "ph = Idle st" ..
    with acc_inv_connected [OF assms(2) [unfolded st]] parts show ?thesis by simp
  qed (use parts in simp)
  with parts c' show ?thesis by simp
qed

lemma http_ok_Ended:
  "prefix rel f \<Longrightarrow> out \<noteq> [] \<or> ro \<noteq> [] \<longrightarrow> ph = Tunnel \<Longrightarrow> connected S cl (handler_name a) e remote \<Longrightarrow>
   data = lost @ ro @ rest \<Longrightarrow> prefix out remote \<Longrightarrow>
   http_ok S cl data (HTask a (HEnded r) (Acc rs ph (Some (b, e)) d f) i out ri ro rel)"
  by (simp only: http_ok.simps) blast

lemma http_inv_step:
  "http_step U H S cl t t' \<Longrightarrow> http_inv U H S cl all data t \<Longrightarrow> http_inv U H S cl all data t'"
proof (induction rule: http_step.induct)
  case (h_poll c rs ph d f c' a i out ri ro rel)
  obtain rs' ph' ep' d' f' where c': "c' = Acc rs' ph' ep' d' f'" by (cases c')
  have inv: "acc_inv U H all c'" using acc_poll_step [OF h_poll(2)] h_poll(3) by simp
  note parts = acc_poll_parts [OF h_poll(2) [unfolded h_poll(1) c']]
  from parts have "\<forall>b e. ep' = Some (b, e) \<longrightarrow> (\<exists>r. ph' = Waiting r b e)" by auto
  with inv parts h_poll(1,3) c' show ?case by simp
next
  case (h_await c rs ph e' f c' a e i out ri ro rel)
  have inv: "acc_inv U H all c'" using acc_poll_step [OF h_await(3)] h_await(4) by simp
  from h_await(1,3,4) acc_poll_endpoint [of U H rs ph True e' True f c' all] obtain rs' ph' f' where
    "c' = Acc rs' ph' (Some (True, e')) True f'" by auto
  with inv h_await(1,4) show ?case by simp
next
  case (h_serve c rs ph e' f c' a e i out ri ro rel)
  have inv: "acc_inv U H all c'" using acc_poll_step [OF h_serve(2)] h_serve(3) by simp
  from h_serve(1,2,3) acc_poll_endpoint [of U H rs ph False e' True f c' all] obtain rs' ph' f' where
    "c' = Acc rs' ph' (Some (False, e')) True f'" "prefix f f'" by auto
  with inv h_serve(1,3) show ?case by (auto intro: prefix_order.trans)
next
  case (h_done c rs r b e' ep f a e i out ri ro rel)
  then show ?case by auto
next
  case (h_tunnel c rs e' f a e read_buf i out ri ro rel)
  then show ?case by auto
next
  case (h_upload c rs ep d f bs a e i out ri ro rel)
  then show ?case by auto
next
  case (h_download c rs ep d f bs a e i out ri ro rel)
  then show ?case by auto
next
  case (h_relay c rs ph e' f rel r f' a e i out ri ro)
  then show ?case by auto
next
  case (h_routed k a e remote c i out ri ro rel)
  then show ?case by (cases c) (auto simp: connected_def)
next
  case (h_clone_fail x a e c i out ri ro rel)
  then show ?case by (cases c) auto
next
  case (h_route_fail k a e x c i out ri ro rel)
  then show ?case by (cases c) auto
next
  case (h_broken w bs w' bs' c rs ph ep d f a e i out ri ro rel)
  then obtain b lost remote where inv: "d" "ep = Some (b, e)" "connected S cl (handler_name a) e remote" "prefix rel f"
    "data = lost @ ro @ bs @ i" "remote = out @ bs' @ ri" "b \<longrightarrow> ph = Tunnel" "\<not> b \<longrightarrow> out = [] \<and> ro = []" by auto
  obtain v v' where v: "bs = w @ v" "bs' = w' @ v'" using h_broken(1,2) by (auto simp: prefix_def)
  then have "data = lost @ (ro @ w) @ v @ i" "prefix (out @ w') remote" using inv(5,6) by simp_all
  moreover have "out @ w' \<noteq> [] \<or> ro @ w \<noteq> [] \<longrightarrow> ph = Tunnel" using inv(7,8) h_broken(4) by auto
  ultimately have "http_ok S cl data (HTask a (HEnded (Some (ForwardFailed e))) c i (out @ w') ri (ro @ w) rel)"
    unfolding h_broken(3) inv(2) by (intro http_ok_Ended [OF inv(4) _ inv(3)])
  with h_broken(5) show ?case by simp
next
  case (h_await_fail c rs ph e' f a e i out ri ro rel)
  then have inv: "i = data" "out = []" "ro = []" "rel = []" "connected S cl (handler_name a) e ri" "e' = e" by auto
  have "http_ok S cl data (HTask a (HEnded (Some (ReplyFailed e))) c i out ri ro rel)"
    unfolding h_await_fail(1) inv(6) by (rule http_ok_Ended [OF _ _ inv(5), of _ _ _ _ _ _ "[]" data]) (simp_all add: inv)
  with h_await_fail(2) show ?case by simp
next
  case (h_forwarded c rs ph ep d f i ri rel a e out ro)
  then obtain b lost remote where inv: "ep = Some (b, e)" "connected S cl (handler_name a) e remote" "prefix rel f"
    "data = lost @ ro @ i" "remote = out @ ri" "b \<longrightarrow> ph = Tunnel" "\<not> b \<longrightarrow> out = [] \<and> ro = []" by auto
  have "http_ok S cl data (HTask a (HEnded None) c i out ri ro rel)"
    unfolding h_forwarded(1) inv(1) by (rule http_ok_Ended [OF inv(3) _ inv(2) inv(4)]) (use inv in auto)
  with h_forwarded(3) show ?case by simp
qed auto

interpretation http_inv: step_invariant "http_step U H S cl" "http_inv U H S cl all data"
  by unfold_locales (rule http_inv_step)

lemma http_inv_reach:
  assumes "http_reach U H S cl (new_http_task a rs data) t"
  shows "http_inv U H S cl rs data t"
  using assms by (rule http_inv.inv_reach) (simp add: new_http_task_def acc_new_def)

text \<open>
  What a task has sent, in whatever phase: requests only to the endpoint the script connected to,
  bytes only through the tunnel to the endpoint of the CONNECT request.
\<close>

lemma http_ok_done:
  "http_ok S cl data (HTask a p (Acc rs ph ep True f) i out ri ro rel) \<Longrightarrow>
   \<exists>b e remote. ep = Some (b, e) \<and> connected S cl (handler_name a) e remote"
  by (cases p) auto

lemma http_ok_sent:
  assumes "http_ok S cl data (HTask a p (Acc rs ph ep d f) i out ri ro rel)"
  shows "prefix rel f \<and> (out \<noteq> [] \<or> ro \<noteq> [] \<longrightarrow> ph = Tunnel \<and>
     (\<exists>b e remote lost rest. ep = Some (b, e) \<and> connected S cl (handler_name a) e remote \<and>
        data = lost @ ro @ rest \<and> prefix out remote))"
proof (cases p)
  case (HForwarding e)
  with assms obtain b lost where "ep = Some (b, e)" "connected S cl (handler_name a) e (out @ ri)" "prefix rel f"
    "data = lost @ ro @ i" "b \<longrightarrow> ph = Tunnel" "\<not> b \<longrightarrow> out = [] \<and> ro = []" by auto
  moreover from this have "prefix out (out @ ri)" by simp
  ultimately show ?thesis by metis
next
  case (HEnded r)
  with assms show ?thesis by (simp only: http_ok.simps) blast
qed (use assms in auto)

lemma http_inv_routed:
  assumes "http_inv U H S cl all data (HTask a p (Acc rs ph ep d f) i out ri ro rel)"
  shows "p \<noteq> HPanicked \<and> prefix rel f \<and>
    (f \<noteq> [] \<longrightarrow> (\<exists>e served remote. prefix served all \<and> list_all2 (forwardable U H e) served f \<and>
       connected S cl (handler_name a) e remote)) \<and>
    (out \<noteq> [] \<or> ro \<noteq> [] \<longrightarrow> (\<exists>r e remote lost rest. all = r # rs \<and> rq_connect r \<and>
       endpoint_from_str (uri_to_string U (rq_uri r)) = Inr e \<and> connected S cl (handler_name a) e remote \<and>
       data = lost @ ro @ rest \<and> prefix out remote))"
proof (intro conjI impI)
  have ok: "http_ok S cl data (HTask a p (Acc rs ph ep d f) i out ri ro rel)"
    and inv: "acc_inv U H all (Acc rs ph ep d f)" using assms by simp_all
  show "p \<noteq> HPanicked" using ok by auto
  show "prefix rel f" using http_ok_sent [OF ok] by simp
  show "\<exists>e served remote. prefix served all \<and> list_all2 (forwardable U H e) served f \<and>
      connected S cl (handler_name a) e remote" if "f \<noteq> []"
  proof -
    from acc_inv_forwarded [OF inv that] obtain e served where s: "d" "ep = Some (False, e)" "prefix served all"
      "list_all2 (forwardable U H e) served f" by blast
    with http_ok_done [of S cl data a p rs ph ep f i out ri ro rel] ok show ?thesis by auto
  qed
  show "\<exists>r e remote lost rest. all = r # rs \<and> rq_connect r \<and>
      endpoint_from_str (uri_to_string U (rq_uri r)) = Inr e \<and> connected S cl (handler_name a) e remote \<and>
      data = lost @ ro @ rest \<and> prefix out remote" if "out \<noteq> [] \<or> ro \<noteq> []"
  proof -
    from http_ok_sent [OF ok] that obtain b e remote lost rest where s: "ph = Tunnel" "ep = Some (b, e)"
      "connected S cl (handler_name a) e remote" "data = lost @ ro @ rest" "prefix out remote" by blast
    with acc_inv_tunnel [OF inv [unfolded s(1)]] show ?thesis by (metis option.inject prod.inject)
  qed
qed

fun http_acc :: "('u, 'h, 'e) http_task \<Rightarrow> acceptor_config" where
  "http_acc (HTask a _ _ _ _ _ _ _) = a"

interpretation http_same_acceptor: step_invariant "http_step U H S cl" "\<lambda>t. http_acc t = a"
proof
  show "http_acc t' = a" if "http_step U H S cl t t'" "http_acc t = a" for t t'
    using that by (induction rule: http_step.induct) auto
qed

section \<open>Termination and progress\<close>

fun acc_rank :: "('u, 'h) acc_phase \<Rightarrow> nat" where
  "acc_rank (Waiting _ _ _) = 2"
| "acc_rank (Idle _) = 1"
| "acc_rank _ = 0"

fun acc_size :: "('u, 'h) acc_conn \<Rightarrow> nat" where
  "acc_size (Acc rs ph ep d f) = 3 * length rs + acc_rank ph + (if d then 0 else 1)"

fun forwarded_of :: "('u, 'h) acc_conn \<Rightarrow> ('u, 'h) request list" where
  "forwarded_of (Acc rs ph ep d f) = f"

lemma acc_poll_decreases:
  "acc_poll U H c c' \<Longrightarrow> acc_size c' < acc_size c \<and> length (forwarded_of c') \<le> length (forwarded_of c) + 1"
  unfolding acc_poll_def
proof (elim conjE, induction rule: acc_step.induct)
  case (serve r st ph ep fwd' rs ep0 done' fwd)
  then show ?case by (cases "acc_handle U H r st") auto
next
  case (resume r b e ph fwd' rs ep fwd)
  then show ?case by (auto simp: acc_resume_def split: if_splits option.splits)
qed auto

fun http_rank :: "('u, 'h, 'e) http_task \<Rightarrow> nat" where
  "http_rank (HTask _ p _ _ _ _ _ _) = (case p of
     HShaking \<Rightarrow> 4 | HRouting _ \<Rightarrow> 3 | HReplying _ \<Rightarrow> 2 | HForwarding _ \<Rightarrow> 1 | _ \<Rightarrow> 0)"

fun http_size :: "('u, 'h, 'e) http_task \<Rightarrow> nat" where
  "http_size (HTask _ _ c i _ ri _ rel) =
     2 * acc_size c + (length (forwarded_of c) - length rel) + length i + length ri"

lemma http_step_decreases:
  "http_step U H S cl t t' \<Longrightarrow> http_rank t' < http_rank t \<or> http_rank t' = http_rank t \<and> http_size t' < http_size t"
proof (induction rule: http_step.induct)
  case (h_panic c rs ep d f p e a i out ri ro rel)
  then show ?case by auto
qed (auto dest!: acc_poll_decreases)

lemma http_step_wf: "wfp (\<lambda>t' t. http_step U H S cl t t')"
proof -
  have "{(t', t). http_step U H S cl t t'} \<subseteq> measures [http_rank, http_size]"
    using http_step_decreases by fastforce
  then show ?thesis unfolding wfp_def by (rule wf_subset [OF wf_measures])
qed

lemma http_progress:
  assumes "\<And>n r c. \<exists>x. S n r c x" and "http_inv U H S cl all data (HTask a p c i out ri ro rel)"
    and "\<nexists>r. p = HEnded r"
  shows "\<exists>t'. http_step U H S cl (HTask a p c i out ri ro rel) t'"
proof -
  obtain rs ph ep d f where c: "c = Acc rs ph ep d f" by (cases c)
  show ?thesis
  proof (cases p)
    case HShaking
    show ?thesis unfolding HShaking c
      by (cases ep) (auto intro: http_step.h_no_request http_step.h_endpoint)
  next
    case (HRouting e)
    show ?thesis
    proof (cases cl)
      case (Inl x)
      then show ?thesis unfolding HRouting by (auto intro: http_step.h_clone_fail)
    next
      case (Inr k)
      obtain x where "S (handler_name a) (connect_request_new e) k x" using assms(1) by blast
      then show ?thesis unfolding HRouting
        by (cases x) (use Inr in \<open>auto intro: http_step.h_route_fail http_step.h_routed\<close>)
    qed
  next
    case (HReplying e)
    with assms(2) obtain b where b: "ep = Some (b, e)" "\<not> d \<Longrightarrow> \<exists>r. ph = Waiting r b e" by (auto simp: c)
    show ?thesis
    proof (cases d)
      case True
      then show ?thesis unfolding HReplying c b(1)
        by (cases b) (auto intro: http_step.h_spawn http_step.h_await_fail)
    next
      case False
      with b(2) show ?thesis unfolding HReplying c b(1) by (auto intro: http_step.h_done)
    qed
  next
    case (HForwarding e)
    then show ?thesis
      using http_step.h_broken [of "[]" "[]" "[]" "[]" c rs ph ep d f U H S cl a e i out ri ro rel] by (auto simp: c)
  qed (use assms in \<open>auto simp: c\<close>)
qed

lemma http_task_ends:
  assumes "\<And>n r c. \<exists>x. S n r c x" and "http_inv U H S cl all data t"
  shows "\<exists>a r c i out ri ro rel. http_reach U H S cl t (HTask a (HEnded r) c i out ri ro rel)"
  using http_step_wf [of U H S cl] assms(2)
proof (induction t rule: wfp_induct_rule)
  case (less t)
  obtain a p c i out ri ro rel where t: "t = HTask a p c i out ri ro rel" by (cases t)
  show ?case
  proof (cases "\<exists>r. p = HEnded r")
    case True
    then show ?thesis using t http_reach_start by blast
  next
    case False
    then obtain t' where t': "http_step U H S cl t t'"
      using http_progress [of S, OF assms(1) less.prems [unfolded t]] t by blast
    from less.IH [OF t' http_inv_step [OF t' less.prems]] show ?thesis
      using http_reach_trans [OF http_reach_one [OF t']] by blast
  qed
qed

section \<open>Serving a client\<close>

text \<open>Up to the answer of the script, for a first request of either kind.\<close>

lemma http_first_request:
  assumes "acc_handle U H r (NotConnected True) = Awaits b e"
    and "S (handler_name a) (connect_request_new e) k (Inr remote)"
  shows "http_reach U H S (Inr k) (new_http_task a (r # rs) data)
    (HTask a (HReplying e) (Acc rs (Waiting r b e) (Some (b, e)) True []) data [] remote [] [])"
proof -
  let ?t0 = "new_http_task a (r # rs) data" and ?c = "Acc rs (Waiting r b e) (Some (b, e)) False []"
  have "acc_poll U H (acc_new (r # rs)) ?c"
    using acc_step.serve [of r "NotConnected True" U H "Waiting r b e" "Some (b, e)" "[]" rs None False "[]"] assms(1)
    by (simp add: acc_poll_def acc_new_def)
  then have "http_step U H S (Inr k) ?t0 (HTask a HShaking ?c data [] [] [] [])"
    unfolding new_http_task_def by (rule http_step.h_poll [of _ "r # rs" "Idle (NotConnected True)" False "[]", rotated]) (simp add: acc_new_def)
  then have "http_reach U H S (Inr k) ?t0 (HTask a HShaking ?c data [] [] [] [])" by (rule http_reach_one)
  then have "http_reach U H S (Inr k) ?t0 (HTask a (HRouting e) ?c data [] [] [] [])"
    by (rule http_reach_step) (rule http_step.h_endpoint [OF refl])
  then have "http_reach U H S (Inr k) ?t0 (HTask a (HReplying e) ?c data [] remote [] [])"
    by (rule http_reach_step) (rule http_step.h_routed [where S = S, OF refl assms(2)])
  then show ?thesis
    by (rule http_reach_step) (rule http_step.h_done [OF refl])
qed

lemma http_tunnel_served:
  assumes "rq_connect r" and "endpoint_from_str (uri_to_string U (rq_uri r)) = Inr e"
    and "S (handler_name a) (connect_request_new e) k (Inr remote)"
  shows "http_reach U H S (Inr k) (new_http_task a (r # rs) (read_buf @ data))
    (HTask a (HEnded None) (Acc rs Tunnel (Some (True, e)) True []) [] remote [] data [])"
proof -
  let ?t0 = "new_http_task a (r # rs) (read_buf @ data)" and ?c = "Acc rs Tunnel (Some (True, e)) True []"
  have "acc_handle U H r (NotConnected True) = Awaits True e" using assms(1,2) by (simp add: acc_handle_def)
  from http_first_request [where S = S, OF this assms(3)]
  have w: "http_reach U H S (Inr k) ?t0
    (HTask a (HReplying e) (Acc rs (Waiting r True e) (Some (True, e)) True []) (read_buf @ data) [] remote [] [])" .
  have "acc_poll U H (Acc rs (Waiting r True e) (Some (True, e)) True []) ?c"
    using acc_step.resume [of U H r True e Tunnel "[]" rs "Some (True, e)" "[]"]
    by (simp add: acc_poll_def acc_resume_def)
  from http_reach_step [OF w http_step.h_await [OF refl _ this]]
  have "http_reach U H S (Inr k) ?t0 (HTask a (HReplying e) ?c (read_buf @ data) [] remote [] [])" by simp
  from http_reach_step [OF this http_step.h_tunnel [OF refl]]
  have f: "http_reach U H S (Inr k) ?t0 (HTask a (HForwarding e) ?c data [] remote [] [])" .
  have up: "http_reach U H S (Inr k) ?t0 (HTask a (HForwarding e) ?c [] [] remote data [])"
  proof (cases "data = []")
    case False
    have "http_step U H S (Inr k) (HTask a (HForwarding e) ?c (data @ []) [] remote [] [])
        (HTask a (HForwarding e) ?c [] [] remote ([] @ data) [])"
      by (rule http_step.h_upload [OF refl False])
    with http_reach_step [OF f] show ?thesis by simp
  qed (use f in simp)
  have g: "http_reach U H S (Inr k) ?t0 (HTask a (HForwarding e) ?c [] remote [] data [])"
  proof (cases "remote = []")
    case False
    have "http_step U H S (Inr k) (HTask a (HForwarding e) ?c [] [] (remote @ []) data [])
        (HTask a (HForwarding e) ?c [] ([] @ remote) [] data [])"
      by (rule http_step.h_download [OF refl False])
    with http_reach_step [OF up] show ?thesis by simp
  qed (use up in simp)
  show ?thesis by (rule http_reach_step [OF g http_step.h_forwarded [OF refl]]) simp
qed

text \<open>Plain requests are served and relayed one after the other.\<close>

lemma http_requests_served:
  assumes "list_all2 (forwardable U H e) rs rs'"
    and "http_reach U H S cl t (HTask a (HForwarding e)
      (Acc rs (Idle (ConnectedTo e)) (Some (False, e)) True (rel @ f)) data [] ri [] rel)"
  shows "http_reach U H S cl t (HTask a (HForwarding e)
      (Acc [] (Idle (ConnectedTo e)) (Some (False, e)) True (rel @ f @ rs')) data [] ri [] (rel @ f @ rs'))"
  using assms
proof (induction "length rs + length f" arbitrary: rs rs' rel f rule: less_induct)
  case less
  show ?case
  proof (cases f)
    case (Cons r f')
    have "http_reach U H S cl t (HTask a (HForwarding e)
        (Acc rs (Idle (ConnectedTo e)) (Some (False, e)) True ((rel @ [r]) @ f')) data [] ri [] (rel @ [r]))"
      using http_reach_step [OF less.prems(2) http_step.h_relay [OF refl]] Cons by simp
    from less.hyps [OF _ less.prems(1) this] show ?thesis using Cons by simp
  next
    case Nil
    show ?thesis
    proof (cases rs)
      case rs: (Cons r rs1)
      then obtain r' rs1' where r': "rs' = r' # rs1'" "forwardable U H e r r'" "list_all2 (forwardable U H e) rs1 rs1'"
        using less.prems(1) by (auto simp: list_all2_Cons1)
      have "acc_poll U H (Acc rs (Idle (ConnectedTo e)) (Some (False, e)) True rel)
          (Acc rs1 (Idle (ConnectedTo e)) (Some (False, e)) True (rel @ [r']))"
        using acc_step.serve [of r "ConnectedTo e" U H "Idle (ConnectedTo e)" None "[r']" rs1 "Some (False, e)" True rel]
          r'(2) rs by (simp add: acc_poll_def acc_handle_def forwardable_def)
      from http_reach_step [OF less.prems(2) [unfolded Nil append_Nil2] http_step.h_serve [OF refl this]]
      have "http_reach U H S cl t (HTask a (HForwarding e)
          (Acc rs1 (Idle (ConnectedTo e)) (Some (False, e)) True (rel @ [r'])) data [] ri [] rel)" .
      from http_reach_step [OF this http_step.h_relay [OF refl, of _ _ r' "[]"]]
      have "http_reach U H S cl t (HTask a (HForwarding e)
          (Acc rs1 (Idle (ConnectedTo e)) (Some (False, e)) True ((rel @ [r']) @ [])) data [] ri [] (rel @ [r']))" by simp
      from less.hyps [OF _ r'(3) this] show ?thesis using rs r'(1) Nil by simp
    qed (use less.prems Nil in auto)
  qed
qed

lemma http_plain_served:
  assumes "list_all2 (forwardable U H e) (r # rs) rs'" and "S (handler_name a) (connect_request_new e) k (Inr remote)"
  shows "http_reach U H S (Inr k) (new_http_task a (r # rs) data)
    (HTask a (HEnded None) (Acc [] (Idle (ConnectedTo e)) (Some (False, e)) True rs') data [] remote [] rs')"
proof -
  let ?t0 = "new_http_task a (r # rs) data"
  obtain r' rs1 where r': "rs' = r' # rs1" "forwardable U H e r r'" "list_all2 (forwardable U H e) rs rs1"
    using assms(1) by (auto simp: list_all2_Cons1)
  have "acc_handle U H r (NotConnected True) = Awaits False e" using r'(2) by (simp add: acc_handle_def forwardable_def)
  from http_first_request [where S = S, OF this assms(2)]
  have "http_reach U H S (Inr k) ?t0
    (HTask a (HReplying e) (Acc rs (Waiting r False e) (Some (False, e)) True []) data [] remote [] [])" .
  from http_reach_step [OF this http_step.h_spawn [OF refl]]
  have w: "http_reach U H S (Inr k) ?t0
    (HTask a (HForwarding e) (Acc rs (Waiting r False e) (Some (False, e)) True []) data [] remote [] [])" .
  have "acc_poll U H (Acc rs (Waiting r False e) (Some (False, e)) True [])
      (Acc rs (Idle (ConnectedTo e)) (Some (False, e)) True [r'])"
    using acc_step.resume [of U H r False e "Idle (ConnectedTo e)" "[r']" rs "Some (False, e)" "[]"] r'(2)
    by (simp add: acc_poll_def acc_resume_def forwardable_def)
  from http_reach_step [OF w http_step.h_serve [OF refl this]]
  have "http_reach U H S (Inr k) ?t0 (HTask a (HForwarding e)
      (Acc rs (Idle (ConnectedTo e)) (Some (False, e)) True ([] @ [r'])) data [] remote [] [])" by simp
  from http_requests_served [OF r'(3) this] r'(1)
  have "http_reach U H S (Inr k) ?t0 (HTask a (HForwarding e)
      (Acc [] (Idle (ConnectedTo e)) (Some (False, e)) True rs') data [] remote [] rs')" by simp
  then show ?thesis by (rule http_reach_step) (rule http_step.h_forwarded [OF refl], simp)
qed

end
