(* ===== verification/Engine.thy ===== *)
theory Engine
  imports Http_Task
begin

text \<open>
  The running engine, the second half of \<^verbatim>\<open>config/engine/mod.rs\<close>: \<^verbatim>\<open>run\<close> starts a loop per
  listener that binds, accepts and spawns a task for every connection, of the kind of the listener
  (\<^verbatim>\<open>Socks5_Task\<close> or \<^verbatim>\<open>Http_Task\<close>).  Tasks are spawned on a local task set, which is assumed to
  exist.  Also the connection streams of \<^verbatim>\<open>core/acceptor/mod.rs\<close> and \<^verbatim>\<open>main\<close> of
  \<^verbatim>\<open>bin/dandelion.rs\<close>.
\<close>

section \<open>Connections\<close>

datatype ('u, 'h, 'e) conn_task = SocksConn "'e task" | HttpConn "('u, 'h, 'e) http_task"

text \<open>
  A new connection: all the client will send are bytes for a SOCKS5 listener, requests and the
  bytes after a CONNECT for an HTTP listener.
\<close>

fun accepted :: "acceptor_config \<Rightarrow> ('u, 'h) request list \<Rightarrow> bytes \<Rightarrow> ('u, 'h, 'e) conn_task" where
  "accepted (Socks5Acceptor addr h) rs client = SocksConn (new_task (Socks5Acceptor addr h) client)"
| "accepted (HttpAcceptor addr h) rs client = HttpConn (new_http_task (HttpAcceptor addr h) rs client)"

inductive conn_task_step ::
  "'u uri_ops \<Rightarrow> ('h, 'v) header_ops \<Rightarrow> ('e, 'o) handler \<Rightarrow> 'e + 'o option \<Rightarrow>
   ('u, 'h, 'e) conn_task \<Rightarrow> ('u, 'h, 'e) conn_task \<Rightarrow> bool" for U H S cl where
  socks: "task_step S cl t t' \<Longrightarrow> conn_task_step U H S cl (SocksConn t) (SocksConn t')"
| http: "http_step U H S cl t t' \<Longrightarrow> conn_task_step U H S cl (HttpConn t) (HttpConn t')"

inductive_simps socks_conn_step: "conn_task_step U H S cl (SocksConn t) c"
inductive_simps http_conn_step: "conn_task_step U H S cl (HttpConn t) c"

abbreviation conn_task_reach ::
  "'u uri_ops \<Rightarrow> ('h, 'v) header_ops \<Rightarrow> ('e, 'o) handler \<Rightarrow> 'e + 'o option \<Rightarrow>
   ('u, 'h, 'e) conn_task \<Rightarrow> ('u, 'h, 'e) conn_task \<Rightarrow> bool" where
  "conn_task_reach U H S cl \<equiv> reach (conn_task_step U H S cl)"

section \<open>The engine\<close>

text \<open>The listeners with whether they are bound, the tasks, and the result of \<^verbatim>\<open>run\<close> once it has one.\<close>

datatype listen_error = BindError socket_addr | AcceptError socket_addr

datatype ('u, 'h, 'e) eng_state =
  Eng "(acceptor_config \<times> bool) list" "('u, 'h, 'e) conn_task list" "(listen_error + unit) option"

text \<open>\<^verbatim>\<open>run\<close>: \<^verbatim>\<open>select_all\<close> panics without any listener.\<close>

definition engine_run :: "('rt, 'n, 'o) engine \<Rightarrow> ('u, 'h, 'e) eng_state outcome" where
  "engine_run E = (if eng_acceptors E = [] then Panic
     else Normal (Eng (map (\<lambda>a. (a, False)) (eng_acceptors E)) [] None))"

inductive engine_step ::
  "'u uri_ops \<Rightarrow> ('h, 'v) header_ops \<Rightarrow> ('e, 'o) handler \<Rightarrow> 'e + 'o option \<Rightarrow>
   ('u, 'h, 'e) eng_state \<Rightarrow> ('u, 'h, 'e) eng_state \<Rightarrow> bool" for U H S cl where
  bind: "j < length ls \<Longrightarrow> ls ! j = (a, False) \<Longrightarrow>
    engine_step U H S cl (Eng ls ts None) (Eng (ls[j := (a, True)]) ts None)"
| bind_error: "(a, False) \<in> set ls \<Longrightarrow>
    engine_step U H S cl (Eng ls ts None) (Eng ls ts (Some (Inl (BindError (listen_addr a)))))"
| accept: "(a, True) \<in> set ls \<Longrightarrow>
    engine_step U H S cl (Eng ls ts None) (Eng ls (ts @ [accepted a rs client]) None)"
| accept_error: "(a, True) \<in> set ls \<Longrightarrow>
    engine_step U H S cl (Eng ls ts None) (Eng ls ts (Some (Inl (AcceptError (listen_addr a)))))"
| task: "j < length ts \<Longrightarrow> conn_task_step U H S cl (ts ! j) t' \<Longrightarrow>
    engine_step U H S cl (Eng ls ts None) (Eng ls (ts[j := t']) None)"

abbreviation engine_reach ::
  "'u uri_ops \<Rightarrow> ('h, 'v) header_ops \<Rightarrow> ('e, 'o) handler \<Rightarrow> 'e + 'o option \<Rightarrow>
   ('u, 'h, 'e) eng_state \<Rightarrow> ('u, 'h, 'e) eng_state \<Rightarrow> bool" where
  "engine_reach U H S cl \<equiv> reach (engine_step U H S cl)"

lemmas conn_task_reach_start = reach.start [where step_rel = "conn_task_step U H S cl" for U H S cl]
lemmas conn_task_reach_step = reach.step [where step_rel = "conn_task_step U H S cl" for U H S cl]
lemmas engine_reach_start = reach.start [where step_rel = "engine_step U H S cl" for U H S cl]
lemmas engine_reach_step = reach.step [where step_rel = "engine_step U H S cl" for U H S cl]

section \<open>Connection streams\<close>

text \<open>\<^verbatim>\<open>handle_connection_stream\<close>: an error of the stream or of a handshake is the item's error.\<close>

definition handle_connection_stream :: "('i \<Rightarrow> 'e + 'a) \<Rightarrow> ('e + 'i) list \<Rightarrow> ('e + ('x + 'a)) list" where
  "handle_connection_stream handshake s = map (\<lambda>item. res_bind item (\<lambda>io. res_bind (handshake io) (\<lambda>a. Inr (Inr a)))) s"

definition handle_connection_stream_with_config ::
  "('i \<Rightarrow> 'c \<Rightarrow> 'e + 'a) \<Rightarrow> 'c \<Rightarrow> ('e + 'i) list \<Rightarrow> ('e + ('x + 'a)) list" where
  "handle_connection_stream_with_config handshake c s = handle_connection_stream (\<lambda>io. handshake io c) s"

section \<open>The program\<close>

text \<open>The file the command line tool reads: its argument, or one of two places.\<close>

definition load_from_env :: "(string \<Rightarrow> 'e + string) \<Rightarrow> (string \<Rightarrow> 'e + string) \<Rightarrow> string \<Rightarrow> string \<Rightarrow> 'e + string" where
  "load_from_env env_var read_file var path =
     res_bind (env_var var) (\<lambda>dir. read_file (dir @ ''/'' @ path))"

definition main_code :: "(string \<Rightarrow> 'e + string) \<Rightarrow> (string \<Rightarrow> 'e + string) \<Rightarrow> string option \<Rightarrow> 'e + string" where
  "main_code env_var read_file input =
     (case input of
        Some path \<Rightarrow> read_file path
      | None \<Rightarrow>
          (case load_from_env env_var read_file ''SNAP_COMMON'' ''./config.rn'' of
             Inr code \<Rightarrow> Inr code
           | Inl _ \<Rightarrow> load_from_env env_var read_file ''HOME'' ''./.dandelion/config.rn''))"

text \<open>
  The surroundings of the process: whether the logger starts (both \<^verbatim>\<open>unwrap\<close>s), the outcome of
  raising the limit of open files, which is only logged, and whether the crypto provider can be
  installed.
\<close>

datatype fd_outcome = LimitRaised nat nat | LimitUnsupported | LimitError string

datatype log_line = Info string | Warn string

definition fd_log :: "fd_outcome \<Rightarrow> log_line list" where
  "fd_log o' = (case o' of
     LimitRaised from to \<Rightarrow> [Info (''Raised fd limit to '' @ show_radix 10 to)]
   | LimitUnsupported \<Rightarrow> []
   | LimitError err \<Rightarrow> [Warn (''Failed to raise fd limit due to '' @ err @
       '', this may cause \"Too many files error\" when there are too many connections'')])"

record 'e main_env =
  me_logger :: bool
  me_fd_limit :: fd_outcome
  me_crypto :: bool
  me_env_var :: "string \<Rightarrow> 'e + string"
  me_read_file :: "string \<Rightarrow> 'e + string"

datatype 'e main_error = CryptoError | NoConfig 'e | LoadFailed "'e load_error"

definition dandelion_main ::
  "'e main_env \<Rightarrow> (string \<Rightarrow> 'e load_error + ('rt, 'n, 'o) engine) \<Rightarrow> string option \<Rightarrow>
   ('e main_error + ('u, 'h, 'e) eng_state) outcome \<times> log_line list" where
  "dandelion_main M load input =
     (if \<not> me_logger M then (Panic, [])
      else
        ((if \<not> me_crypto M then Normal (Inl CryptoError)
          else (case main_code (me_env_var M) (me_read_file M) input of
              Inl e \<Rightarrow> Normal (Inl (NoConfig e))
            | Inr code \<Rightarrow>
                (case load code of
                   Inl e \<Rightarrow> Normal (Inl (LoadFailed e))
                 | Inr E \<Rightarrow> (case engine_run E of Panic \<Rightarrow> Panic | Normal s \<Rightarrow> Normal (Inr s))))),
         fd_log (me_fd_limit M)))"

end
