(* ===== verification/Engine_Forwarding.thy ===== *)
theory Engine_Forwarding
  imports Engine
begin

text \<open>
  What a running engine does with its connections, from the invariants and the runs of the two
  kinds of task: bytes and requests go to the endpoint that was asked for and nowhere else, no
  client sees a success before its connection exists, connections do not disturb each other, their
  steps end, and clients that keep to the protocol can be served.
\<close>

section \<open>Connections as tasks\<close>

lemma socks_conn_reach: "task_reach S cl t t' \<Longrightarrow> conn_task_reach U H S cl (SocksConn t) (SocksConn t')"
  by (induction rule: reach.induct) (auto intro: conn_task_reach_start conn_task_reach_step conn_task_step.socks)

lemma http_conn_reach: "http_reach U H S cl t t' \<Longrightarrow> conn_task_reach U H S cl (HttpConn t) (HttpConn t')"
  by (induction rule: reach.induct) (auto intro: conn_task_reach_start conn_task_reach_step conn_task_step.http)

fun conn_acc :: "('u, 'h, 'e) conn_task \<Rightarrow> acceptor_config" where
  "conn_acc (SocksConn t) = task_acc t"
| "conn_acc (HttpConn t) = http_acc t"

lemma conn_reach_socks:
  "conn_task_reach U H S cl (SocksConn t) c \<Longrightarrow> \<exists>t'. c = SocksConn t' \<and> task_reach S cl t t'"
proof (induction rule: reach.induct)
  case start
  show ?case using task_reach_start by blast
next
  case (step s s')
  then show ?case using task_reach_step by (auto simp: socks_conn_step)
qed

lemma conn_reach_http:
  "conn_task_reach U H S cl (HttpConn t) c \<Longrightarrow> \<exists>t'. c = HttpConn t' \<and> http_reach U H S cl t t'"
proof (induction rule: reach.induct)
  case start
  show ?case using http_reach_start by blast
next
  case (step s s')
  then show ?case using http_reach_step by (auto simp: http_conn_step)
qed

section \<open>Reachable states\<close>

lemma engine_tasks:
  assumes "engine_reach U H S cl (Eng (map (\<lambda>a. (a, False)) accs) [] None) s"
  shows "case s of Eng ls ts r \<Rightarrow> map fst ls = accs \<and>
    (\<forall>t \<in> set ts. \<exists>a \<in> set accs. \<exists>rs client. conn_task_reach U H S cl (accepted a rs client) t) \<and>
    (\<forall>x. r = Some x \<longrightarrow> (\<exists>a \<in> set accs. x = Inl (BindError (listen_addr a)) \<or> x = Inl (AcceptError (listen_addr a))))"
  using assms
proof (induction rule: reach.induct)
  case start
  show ?case by (simp add: comp_def)
next
  case (step s s')
  from step(2,3) show ?case
  proof (induction rule: engine_step.induct)
    case (bind j ls a ts)
    have "map fst (ls[j := (a, True)]) = map fst ls"
      using bind(1,2) by (simp add: map_update list_update_same_conv)
    with bind(3) show ?case by simp
  next
    case (accept a ls ts rs client)
    have "a \<in> set accs" using accept by force
    with accept show ?case by (auto intro: conn_task_reach_start)
  next
    case (bind_error a ls ts)
    have "a \<in> set accs" using bind_error by force
    with bind_error show ?case by auto
  next
    case (accept_error a ls ts)
    have "a \<in> set accs" using accept_error by force
    with accept_error show ?case by auto
  next
    case (task j ts t' ls)
    have old: "\<exists>a \<in> set accs. \<exists>rs client. conn_task_reach U H S cl (accepted a rs client) t" if "t \<in> set ts" for t
      using task(3) that by simp
    have "\<exists>a \<in> set accs. \<exists>rs client. conn_task_reach U H S cl (accepted a rs client) t'"
      using old [OF nth_mem [OF task(1)]] conn_task_reach_step [OF _ task(2)] by metis
    with old have "\<exists>a \<in> set accs. \<exists>rs client. conn_task_reach U H S cl (accepted a rs client) t"
      if "t \<in> set (ts[j := t'])" for t
      using that set_update_subset_insert [of ts j t'] by blast
    with task(3) show ?case by simp
  qed
qed

text \<open>Tasks are neither dropped nor disturbed.\<close>

lemma engine_keeps_tasks:
  assumes "engine_reach U H S cl (Eng ls ts r) (Eng ls' ts' r')"
  shows "length ts \<le> length ts' \<and> (\<forall>j < length ts. conn_task_reach U H S cl (ts ! j) (ts' ! j))"
proof -
  have "case s' of Eng ls' ts' r' \<Rightarrow>
      length ts \<le> length ts' \<and> (\<forall>j < length ts. conn_task_reach U H S cl (ts ! j) (ts' ! j))"
    if "engine_reach U H S cl (Eng ls ts r) s'" for s'
    using that
  proof (induction rule: reach.induct)
    case start
    show ?case by (simp add: conn_task_reach_start)
  next
    case (step s s')
    from step(2,3) show ?case
    proof (induction rule: engine_step.induct)
      case (task j ts1 t' ls1)
      then show ?case by (auto simp: nth_list_update intro: conn_task_reach_step)
    qed (auto simp: nth_append)
  qed
  from this [OF assms] show ?thesis by simp
qed

text \<open>Steps of one task are steps of the engine that has it.\<close>

lemma engine_task_reach:
  assumes "engine_reach U H S cl s0 (Eng ls (ts @ [t]) None)" and "conn_task_reach U H S cl t t'"
  shows "engine_reach U H S cl s0 (Eng ls (ts @ [t']) None)"
  using assms(2)
proof (induction rule: reach.induct)
  case start
  show ?case by (rule assms(1))
next
  case (step t1 t2)
  have "engine_step U H S cl (Eng ls (ts @ [t1]) None) (Eng ls ((ts @ [t1])[length ts := t2]) None)"
    by (rule engine_step.task) (simp_all add: step.hyps)
  then show ?case using engine_reach_step [OF step.IH] by simp
qed

lemma engine_accepts:
  assumes "a \<in> set accs"
  shows "\<exists>ls. engine_reach U H S cl (Eng (map (\<lambda>a. (a, False)) accs) [] None) (Eng ls [accepted a rs client] None)"
proof -
  obtain j where j: "j < length accs" "accs ! j = a" using assms by (metis in_set_conv_nth)
  let ?s = "map (\<lambda>a. (a, False)) accs"
  have "engine_step U H S cl (Eng ?s [] None) (Eng (?s[j := (a, True)]) [] None)"
    by (rule engine_step.bind) (simp_all add: j)
  moreover have "engine_step U H S cl (Eng (?s[j := (a, True)]) [] None) (Eng (?s[j := (a, True)]) ([] @ [accepted a rs client]) None)"
    by (rule engine_step.accept) (use j in \<open>simp add: set_update_memI\<close>)
  ultimately show ?thesis
    using engine_reach_step [OF engine_reach_step [OF engine_reach_start]] by fastforce
qed

lemma engine_run_state: "engine_run E = Normal s0 \<Longrightarrow> s0 = Eng (map (\<lambda>a. (a, False)) (eng_acceptors E)) [] None"
  by (simp add: engine_run_def split: if_splits)

text \<open>\<^verbatim>\<open>select_all\<close> panics on an empty iterator, so an engine without a listener does.\<close>

lemma engine_run_panics: "engine_run E = Panic \<longleftrightarrow> eng_acceptors E = []"
  by (simp add: engine_run_def)

text \<open>From a configured listener to the end of a run of one of its connections.\<close>

lemma engine_serves:
  assumes "engine_run E = Normal s0" and "a \<in> set (eng_acceptors E)"
    and "conn_task_reach U H S cl (accepted a rs client) t"
  shows "\<exists>ls. engine_reach U H S cl s0 (Eng ls [accepted a rs client] None) \<and>
    engine_reach U H S cl s0 (Eng ls [t] None)"
proof -
  obtain ls where ls: "engine_reach U H S cl s0 (Eng ls ([] @ [accepted a rs client]) None)"
    using engine_accepts [OF assms(2), of U H S cl rs client] engine_run_state [OF assms(1)] by auto
  from engine_task_reach [OF this assms(3)] ls show ?thesis by auto
qed

text \<open>The history of a connection: its acceptor is configured, and some client started it.\<close>

lemma socks_history:
  assumes "engine_run E = Normal s0" and "engine_reach U H S cl s0 (Eng ls ts r)"
    and "SocksConn (Task a ph i out ri ro) \<in> set ts"
  shows "a \<in> set (eng_acceptors E) \<and> (\<exists>addr h client. a = Socks5Acceptor addr h \<and>
    task_reach S cl (new_task a client) (Task a ph i out ri ro))"
proof -
  obtain a' rs client where t: "a' \<in> set (eng_acceptors E)"
    "conn_task_reach U H S cl (accepted a' rs client) (SocksConn (Task a ph i out ri ro))"
    using engine_tasks [OF assms(2) [unfolded engine_run_state [OF assms(1)]]] assms(3) by auto
  show ?thesis
  proof (cases a')
    case (Socks5Acceptor addr h)
    with t(2) have r: "task_reach S cl (new_task a' client) (Task a ph i out ri ro)"
      by (auto dest: conn_reach_socks)
    have "a = a'" using same_acceptor.inv_reach [OF r, of a'] by (simp add: new_task_def)
    with r t(1) Socks5Acceptor show ?thesis by auto
  next
    case (HttpAcceptor addr h)
    with t(2) show ?thesis by (auto dest: conn_reach_http)
  qed
qed

lemma http_history:
  assumes "engine_run E = Normal s0" and "engine_reach U H S cl s0 (Eng ls ts r)"
    and "HttpConn (HTask a p c i out ri ro rel) \<in> set ts"
  shows "a \<in> set (eng_acceptors E) \<and> (\<exists>addr h rs data. a = HttpAcceptor addr h \<and>
    http_reach U H S cl (new_http_task a rs data) (HTask a p c i out ri ro rel))"
proof -
  obtain a' rs client where t: "a' \<in> set (eng_acceptors E)"
    "conn_task_reach U H S cl (accepted a' rs client) (HttpConn (HTask a p c i out ri ro rel))"
    using engine_tasks [OF assms(2) [unfolded engine_run_state [OF assms(1)]]] assms(3) by auto
  show ?thesis
  proof (cases a')
    case (HttpAcceptor addr h)
    with t(2) have r: "http_reach U H S cl (new_http_task a' rs client) (HTask a p c i out ri ro rel)"
      by (auto dest: conn_reach_http)
    have "a = a'" using http_same_acceptor.inv_reach [OF r, of a'] by (simp add: new_http_task_def)
    with r t(1) HttpAcceptor show ?thesis by auto
  next
    case (Socks5Acceptor addr h)
    with t(2) show ?thesis by (auto dest: conn_reach_socks)
  qed
qed

section \<open>Termination\<close>

lemma accp_map:
  assumes "Wellfounded.accp r x" and "\<And>y x. q y (f x) \<Longrightarrow> \<exists>y'. y = f y' \<and> r y' x"
  shows "Wellfounded.accp q (f x)"
  using assms(1)
proof (induction rule: accp.induct)
  case (accI x)
  show ?case by (rule accp.accI) (use assms(2) accI.IH in blast)
qed

lemma conn_task_wf: "wfp (\<lambda>t' t. conn_task_step U H S cl t t')"
proof (rule accp_wfpI, rule allI)
  show "Wellfounded.accp (\<lambda>t' t. conn_task_step U H S cl t t') c" for c
  proof (cases c)
    case (SocksConn t)
    have "Wellfounded.accp (\<lambda>t' t. task_step S cl t t') t" by (rule accp_wfpD [OF task_step_wf])
    then show ?thesis unfolding SocksConn by (rule accp_map [where f = SocksConn]) (auto simp: socks_conn_step)
  next
    case (HttpConn t)
    have "Wellfounded.accp (\<lambda>t' t. http_step U H S cl t t') t" by (rule accp_wfpD [OF http_step_wf])
    then show ?thesis unfolding HttpConn by (rule accp_map [where f = HttpConn]) (auto simp: http_conn_step)
  qed
qed

lemma conn_task_ends:
  assumes "\<And>n r c. \<exists>x. S n r c x" and "conn_task_reach U H S cl (accepted a rs client) t"
  shows "\<exists>t'. conn_task_reach U H S cl t t' \<and>
    (case t' of SocksConn (Task _ ph _ _ _ _) \<Rightarrow> \<exists>r. ph = Ended r
     | HttpConn (HTask _ p _ _ _ _ _ _) \<Rightarrow> \<exists>r. p = HEnded r)"
proof (cases a)
  case (Socks5Acceptor addr h)
  with assms(2) obtain t1 where t: "t = SocksConn t1" by (auto dest: conn_reach_socks)
  from socks_task_ends [of S, OF assms(1)] obtain b r i out ri ro where
    "task_reach S cl t1 (Task b (Ended r) i out ri ro)" by blast
  from socks_conn_reach [OF this] t show ?thesis by fastforce
next
  case (HttpAcceptor addr h)
  with assms(2) obtain t1 where t: "t = HttpConn t1" "http_reach U H S cl (new_http_task a rs client) t1"
    by (auto dest: conn_reach_http)
  from http_task_ends [of S, OF assms(1) http_inv_reach [OF t(2)]] obtain b r c i out ri ro rel where
    "http_reach U H S cl t1 (HTask b (HEnded r) c i out ri ro rel)" by blast
  from http_conn_reach [OF this] t(1) show ?thesis by fastforce
qed

section \<open>Properties\<close>

text \<open>
  C10: whatever the engine has done, a SOCKS5 connection over which anything but the method reply
  has been sent, to either side, belongs to a client that sent a valid greeting and request to a
  configured listener, and the script of that listener returned a connection when it was called
  with the endpoint requested and a clone of the cache.  The remote end has received a prefix of
  what the client sent after the request, with no byte of the handshake; the client has received a
  prefix of the method reply, the success reply for its kind of address and what the remote end
  sends.  This holds of connections that have ended, too, and while a connection is forwarded
  nothing is missing in between.
\<close>

theorem engine_forwards_transparently:
  assumes "engine_run E = Normal s0"
    and "engine_reach U H S (clone_cache try_clone (eng_cache E)) s0 (Eng ls ts r)"
    and "SocksConn (Task a ph i out ri ro) \<in> set ts" and "\<not> (prefix out [5, 0] \<and> ro = [])"
  shows "\<exists>addr h ms rsv t p c rest remote. a = Socks5Acceptor addr h \<and> a \<in> set (eng_acceptors E) \<and>
    greeting_ok ms \<and> target_ok t \<and>
    task_reach S (clone_cache try_clone (eng_cache E))
      (new_task a (greeting ms @ request rsv t p @ rest)) (Task a ph i out ri ro) \<and>
    clone_cache try_clone (eng_cache E) = Inr c \<and>
    S h (connect_request_new (target_endpoint t p)) c (Inr remote) \<and>
    prefix ro rest \<and> prefix out ([5, 0] @ socks5_reply_bytes t @ remote) \<and>
    (\<forall>e. ph = Forwarding e \<longrightarrow> e = target_endpoint t p \<and> rest = ro @ i \<and>
       out @ ri = [5, 0] @ socks5_reply_bytes t @ remote)"
proof -
  from socks_history [OF assms(1-3)] obtain addr h client where a: "a = Socks5Acceptor addr h" "a \<in> set (eng_acceptors E)"
    and reach: "task_reach S (clone_cache try_clone (eng_cache E)) (new_task a client) (Task a ph i out ri ro)" by blast
  from socks5_inv_routed [OF socks5_inv_reach [OF reach [unfolded a(1)]] assms(4)] obtain e t rest remote where
    rt: "routed_to S (clone_cache try_clone (eng_cache E)) h client rest e t remote"
    and sent: "prefix ro rest" "prefix out ([5, 0] @ socks5_reply_bytes t @ remote)"
    and fw: "\<forall>e'. ph = Forwarding e' \<longrightarrow> e' = e \<and> rest = ro @ i \<and> out @ ri = [5, 0] @ socks5_reply_bytes t @ remote"
    by auto
  from rt obtain ms rsv p c where "client = greeting ms @ request rsv t p @ rest" "greeting_ok ms" "target_ok t"
    "e = target_endpoint t p" "clone_cache try_clone (eng_cache E) = Inr c" "S h (connect_request_new e) c (Inr remote)"
    unfolding routed_to_def by blast
  with a reach sent fw show ?thesis by blast
qed

text \<open>
  C11: whatever the engine has done, an HTTP connection has panicked nowhere, has forwarded
  requests only to one endpoint to which the script returned a connection, namely the rewritten
  first requests of the client, all of which name that endpoint, and has relayed a prefix of them
  to the remote end.  Bytes have been sent in either direction only when the first request was a
  CONNECT for an endpoint to which the script returned a connection: to the remote end a
  contiguous part of what the client sent after it, to the client a prefix of what the remote end
  sends.
\<close>

theorem engine_http_routes:
  assumes "engine_run E = Normal s0"
    and "engine_reach U H S (clone_cache try_clone (eng_cache E)) s0 (Eng ls ts r)"
    and "HttpConn (HTask a p (Acc rs' ph ep d f) i out ri ro rel) \<in> set ts"
  shows "\<exists>addr h rs data. a = HttpAcceptor addr h \<and> a \<in> set (eng_acceptors E) \<and>
    http_reach U H S (clone_cache try_clone (eng_cache E)) (new_http_task a rs data)
      (HTask a p (Acc rs' ph ep d f) i out ri ro rel) \<and>
    p \<noteq> HPanicked \<and> prefix rel f \<and>
    (f \<noteq> [] \<longrightarrow> (\<exists>e served remote. prefix served rs \<and>
       list_all2 (\<lambda>r r'. \<not> rq_connect r \<and> request_endpoint U r = Inr e \<and>
         transform_proxy_request U H r = Some r') served f \<and>
       connected S (clone_cache try_clone (eng_cache E)) h e remote)) \<and>
    (out \<noteq> [] \<or> ro \<noteq> [] \<longrightarrow> (\<exists>r e remote lost rest. rs = r # rs' \<and> rq_connect r \<and>
       endpoint_from_str (uri_to_string U (rq_uri r)) = Inr e \<and>
       connected S (clone_cache try_clone (eng_cache E)) h e remote \<and>
       data = lost @ ro @ rest \<and> prefix out remote))"
proof -
  from http_history [OF assms] obtain addr h rs data where a: "a = HttpAcceptor addr h" "a \<in> set (eng_acceptors E)"
    and reach: "http_reach U H S (clone_cache try_clone (eng_cache E)) (new_http_task a rs data)
      (HTask a p (Acc rs' ph ep d f) i out ri ro rel)" by blast
  note inv = http_inv_routed [OF http_inv_reach [OF reach]]
  have hn: "handler_name a = h" using a(1) by simp
  have fwd: "forwardable U H e = (\<lambda>r r'. \<not> rq_connect r \<and> request_endpoint U r = Inr e \<and>
      transform_proxy_request U H r = Some r')" for e
    by (simp add: forwardable_def [abs_def])
  show ?thesis
    by (intro exI [of _ addr] exI [of _ h] exI [of _ rs] exI [of _ data], rule conjI [OF a(1)], rule conjI [OF a(2)],
      rule conjI [OF reach], rule inv [unfolded fwd hn])
qed






section \<open>Witnesses\<close>

text \<open>One listener of each kind and a script that connects to a remote end that sends two bytes.\<close>

definition example_http :: acceptor_config where
  "example_http = HttpAcceptor (SocketV4 (Ipv4Addr 127 0 0 1) 8080) ''handler''"

definition example_engine :: "(unit, unit, unit) engine" where
  "example_engine = \<lparr>eng_context = (), eng_unit = (), eng_acceptors = [example_acceptor, example_http], eng_cache = None\<rparr>"

definition example_clone :: "unit \<Rightarrow> unit + unit" where
  "example_clone = Inr"

definition example_script :: "(unit, unit) handler" where
  "example_script _ _ _ x \<longleftrightarrow> x = Inr [7, 8]"

definition example_target :: ip_or_domain where
  "example_target = Ip (V4 (Ipv4Addr 10 0 0 1))"

definition example_start :: "(string \<times> string, (string \<times> string) list, unit) eng_state" where
  "example_start = Eng [(example_acceptor, False), (example_http, False)] [] None"

lemma example_run: "engine_run example_engine = Normal example_start"
  by (simp add: engine_run_def example_engine_def example_start_def)

lemma example_cloned: "clone_cache example_clone (eng_cache example_engine) = Inr None"
  by (simp add: clone_cache_def example_engine_def)

lemma example_client: "greeting_ok [0]" "target_ok example_target"
  by (simp_all add: greeting_ok_def target_ok_def example_target_def)

lemma example_accs:
  "Socks5Acceptor (SocketV4 (Ipv4Addr 127 0 0 1) 1080) ''handler'' \<in> set (eng_acceptors example_engine)"
  "HttpAcceptor (SocketV4 (Ipv4Addr 127 0 0 1) 8080) ''handler'' \<in> set (eng_acceptors example_engine)"
  by (simp_all add: example_engine_def example_acceptor_def example_http_def)

text \<open>A SOCKS5 connection being forwarded, and an HTTP connection at its end.\<close>

definition example_task :: "unit task" where
  "example_task = Task example_acceptor (Forwarding (target_endpoint example_target 80)) [1]
     ([5, 0] @ socks5_reply_bytes example_target) [7, 8] []"

lemma example_task_reach:
  "task_reach example_script (Inr None) (new_task example_acceptor (greeting [0] @ request 0 example_target 80 @ [1]))
     example_task"
  unfolding example_acceptor_def example_task_def
  by (rule socks5_prog_forwards [OF example_client]) (simp add: example_script_def)

lemma example_forwarding:
  "\<exists>ls. engine_reach pair_uris list_headers example_script (clone_cache example_clone (eng_cache example_engine))
     example_start (Eng ls [SocksConn example_task] None)"
proof -
  have a: "example_acceptor \<in> set (eng_acceptors example_engine)" by (simp add: example_engine_def)
  have "conn_task_reach pair_uris list_headers example_script (Inr None)
      (accepted example_acceptor [] (greeting [0] @ request 0 example_target 80 @ [1])) (SocksConn example_task)"
    using socks_conn_reach [OF example_task_reach] by (simp add: example_acceptor_def)
  from engine_serves [OF example_run a this] show ?thesis unfolding example_cloned by blast
qed

theorem engine_forwards_transparently_witness:
  "\<exists>t p rest remote. target_ok t \<and> example_script ''handler'' (connect_request_new (target_endpoint t p)) None (Inr remote) \<and>
     rest = [1] \<and> [5, 0] @ socks5_reply_bytes example_target @ [7, 8] = [5, 0] @ socks5_reply_bytes t @ remote"
proof -
  from example_forwarding obtain ls where
    "engine_reach pair_uris list_headers example_script (clone_cache example_clone (eng_cache example_engine))
     example_start (Eng ls [SocksConn example_task] None)" by blast
  moreover have "\<not> (prefix ([5, 0] @ socks5_reply_bytes example_target) [5, 0] \<and> [] = ([] :: bytes))"
    using socks5_reply_bytes_nonempty by simp
  ultimately have "\<exists>addr h ms rsv t p c rest remote. example_acceptor = Socks5Acceptor addr h \<and> target_ok t \<and>
      Inr None = (Inr c :: unit + unit option) \<and>
      example_script h (connect_request_new (target_endpoint t p)) c (Inr remote) \<and>
      (\<forall>e. Forwarding (target_endpoint example_target 80) = (Forwarding e :: unit task_phase) \<longrightarrow> rest = [] @ [1] \<and>
        ([5, 0] @ socks5_reply_bytes example_target) @ [7, 8] = [5, 0] @ socks5_reply_bytes t @ remote)"
    using engine_forwards_transparently [OF example_run, of pair_uris list_headers example_script example_clone ls
        "[SocksConn example_task]" None example_acceptor "Forwarding (target_endpoint example_target 80)" "[1]"
        "[5, 0] @ socks5_reply_bytes example_target" "[7, 8]" "[]"]
    unfolding example_cloned example_task_def by (auto simp only: list.set simp_thms insert_iff) blast
  then show ?thesis by (auto simp: example_acceptor_def)
qed




theorem engine_http_routes_witness:
  "\<exists>e served remote. prefix served [get_x] \<and> served \<noteq> [] \<and>
     connected example_script (Inr None) ''handler'' e remote"
proof -
  have "list_all2 (forwardable pair_uris list_headers (Domain ''x'' 80)) [get_x] [get_x_out]"
    using get_x_endpoint get_x_transform by (simp add: forwardable_def) (simp add: get_x_def)
  from http_plain_served [OF this, of example_script example_http None "[7, 8]" "[]"]
  have "http_reach pair_uris list_headers example_script (Inr None) (new_http_task example_http [get_x] [])
    (HTask example_http (HEnded None) (Acc [] (Idle (ConnectedTo (Domain ''x'' 80))) (Some (False, Domain ''x'' 80)) True
      [get_x_out]) [] [] [7, 8] [] [get_x_out])" by (simp add: example_script_def)
  from http_conn_reach [OF this] have c: "conn_task_reach pair_uris list_headers example_script (Inr None)
      (accepted example_http [get_x] []) (HttpConn (HTask example_http (HEnded None)
        (Acc [] (Idle (ConnectedTo (Domain ''x'' 80))) (Some (False, Domain ''x'' 80)) True [get_x_out]) [] [] [7, 8] [] [get_x_out]))"
    by (simp add: example_http_def)
  have a: "example_http \<in> set (eng_acceptors example_engine)" by (simp add: example_engine_def)
  from engine_serves [OF example_run a c] obtain ls where
    "engine_reach pair_uris list_headers example_script (clone_cache example_clone (eng_cache example_engine)) example_start
      (Eng ls [HttpConn (HTask example_http (HEnded None) (Acc [] (Idle (ConnectedTo (Domain ''x'' 80)))
        (Some (False, Domain ''x'' 80)) True [get_x_out]) [] [] [7, 8] [] [get_x_out])] None)"
    unfolding example_cloned by blast
  from engine_http_routes [OF example_run this list.set_intros(1)]
  show ?thesis unfolding example_cloned by (auto simp: example_http_def)
qed



end
