(* ===== verification/Spec2Isabelle.thy ===== *)
theory Spec2Isabelle
  imports Script_Tests Tun_Device Mixed_Routes Simplex_Session Http_Acceptor Ip_List Geoip Engine_Forwarding
begin

text \<open>
  A verification development for \<^bold>\<open>dandelion\<close>, a rule-based proxy written in Rust (crate
  \<^verbatim>\<open>src/core\<close>).

  \<^bold>\<open>The program.\<close>  A script in the language rune configures listeners; each listener speaks
  SOCKS5 or HTTP with its clients.  For every client connection the engine reads from the
  handshake which endpoint is wanted, calls the script's handler with it, gets a connection
  back, answers the client and copies bytes in both directions.  Handlers build their
  connections from connectors (direct TCP, SOCKS5, HTTP, TLS, QUIC, the WebSocket based
  \<^emph>\<open>simplex\<close> protocol, block) that can be stacked, and decide with resolvers, IP lists and a
  GeoIP database.  A fake-IP resolver and a DNS server serve a TUN device that is not part of
  the program yet.

  \<^bold>\<open>Theories and sources\<close> (paths under \<^verbatim>\<open>src/core/src\<close>), in the order of their imports.

    \<^item> \<^verbatim>\<open>Dandelion_Prelude\<close>: machine types, results, text and byte conversions; reachability by
      a step relation and the contract of an invariant (locale \<^verbatim>\<open>step_invariant\<close>), which the
      connection state machines below interpret.
    \<^item> \<^verbatim>\<open>Std_Net\<close>, \<^verbatim>\<open>Std_Net_Roundtrip\<close>: the parsing and printing of addresses in Rust's
      \<^verbatim>\<open>std::net\<close>, and that they are inverse to each other.
    \<^item> \<^verbatim>\<open>Endpoint\<close>: \<^verbatim>\<open>core/endpoint.rs\<close> and \<^verbatim>\<open>ConnectRequest\<close> of \<^verbatim>\<open>config/engine/connect.rs\<close>.
      Text of an endpoint and back; the error cases, exactly.
    \<^item> \<^verbatim>\<open>Lru_Cache\<close>, \<^verbatim>\<open>Fake_Dns\<close>: \<^verbatim>\<open>core/tun/resolver.rs\<close> and \<^verbatim>\<open>FakeResolver\<close> of
      \<^verbatim>\<open>config/engine/tun.rs\<close>, over the contract of an LRU cache (locale \<^verbatim>\<open>lru_cache\<close>, with a
      list as implementation).  The mapping refines an abstract machine of free addresses and
      a recency list; no address is shared, recent names keep theirs, eviction goes in order.
    \<^item> \<^verbatim>\<open>Byte_Io\<close>: handshakes as programs of reads and writes, their meaning on a byte sequence
      (\<^verbatim>\<open>run\<close>), on any channel (\<^verbatim>\<open>exec\<close>, locales \<^verbatim>\<open>byte_io\<close> and \<^verbatim>\<open>reliable_io\<close>), and of two
      programs that talk to each other (\<^verbatim>\<open>duplex_step\<close>, confluent).
    \<^item> \<^verbatim>\<open>Socks5_Acceptor\<close>, \<^verbatim>\<open>Socks5_Connector\<close>, \<^verbatim>\<open>Socks5_Tunnel\<close>: \<^verbatim>\<open>core/acceptor/socks5.rs\<close>,
      \<^verbatim>\<open>core/connector/socks5.rs\<close>, and the two against each other, in every interleaving.
    \<^item> \<^verbatim>\<open>Happy_Eyeballs\<close>: \<^verbatim>\<open>core/connector/tcp.rs\<close>, the future polled against arbitrary answers of
      the resolver, the sockets and the clock: each address is dialled once, attempts are
      paced, errors mean exhaustion, a pending poll has registered everything that wakes it,
      and after the lookups the future ends before a deadline.
    \<^item> \<^verbatim>\<open>Simplex_Io\<close>: \<^verbatim>\<open>core/simplex/io.rs\<close>, bytes over a WebSocket stream (locale \<^verbatim>\<open>ws_channel\<close>).
    \<^item> \<^verbatim>\<open>Simplex_Link\<close>: two such streams against each other, over WebSockets with buffers on both
      sides (locales \<^verbatim>\<open>ws_end\<close>, \<^verbatim>\<open>ws_live\<close>, \<^verbatim>\<open>ws_buffering\<close>).  The pair refines two byte pipes; what
      is written can always be delivered; two ends that close at the same time wait for ever.
    \<^item> \<^verbatim>\<open>Http_Types\<close>, \<^verbatim>\<open>Simplex_Handshake\<close>: \<^verbatim>\<open>core/simplex/server.rs\<close>, \<^verbatim>\<open>client.rs\<close>, \<^verbatim>\<open>mod.rs\<close>; requests
      and header maps (locale \<^verbatim>\<open>header_map\<close>), who gets through the server's checks, what anybody
      else sees, and that the client's request passes.
    \<^item> \<^verbatim>\<open>Http_Connector\<close>: \<^verbatim>\<open>core/connector/http.rs\<close>.
    \<^item> \<^verbatim>\<open>Http_Acceptor\<close>: \<^verbatim>\<open>core/acceptor/http.rs\<close>, the requests of one connection as a step relation.
    \<^item> \<^verbatim>\<open>Resolver\<close>: \<^verbatim>\<open>core/resolver/\<close> and \<^verbatim>\<open>config/engine/resolver.rs\<close>; the trait is the locale
      \<^verbatim>\<open>resolver_trait\<close>, interpreted by both resolvers.
    \<^item> \<^verbatim>\<open>Ip_List\<close>: \<^verbatim>\<open>config/engine/iplist.rs\<close>.  \<^verbatim>\<open>Geoip\<close>: \<^verbatim>\<open>config/engine/geoip.rs\<close>.
    \<^item> \<^verbatim>\<open>Racing\<close>: \<^verbatim>\<open>core/connector/speed.rs\<close> and the QUIC client and stream; the contract of
      \<^verbatim>\<open>select_ok\<close> is the locale \<^verbatim>\<open>race\<close>.
    \<^item> \<^verbatim>\<open>Routes\<close>: the functions of \<^verbatim>\<open>config/engine/connect.rs\<close> a script connects with, and the TLS
      and block connectors; they keep the endpoint they are given as text.
    \<^item> \<^verbatim>\<open>Socks5_Chain\<close>: scripts that stack \<^verbatim>\<open>new_socks5_async\<close>, a route through several proxies
      as one program against as many acceptors.
    \<^item> \<^verbatim>\<open>Mixed_Routes\<close>: the same for scripts that stack \<^verbatim>\<open>new_socks5_async\<close> and \<^verbatim>\<open>new_http_async\<close>,
      where the HTTP connector reads whatever has arrived; the contract of an HTTP proxy is the
      locale \<^verbatim>\<open>http_proxy\<close>.
    \<^item> \<^verbatim>\<open>Simplex_Session\<close>: \<^verbatim>\<open>core/connector/simplex.rs\<close> and the future of \<^verbatim>\<open>core/simplex/server.rs\<close>;
      the client of a script, the server and their two streams, from the request to the bytes.
    \<^item> \<^verbatim>\<open>Script_Api\<close>: the \<^verbatim>\<open>module()\<close> functions, the compilation of a script in \<^verbatim>\<open>load_config\<close> and
      in \<^verbatim>\<open>config/engine/testing.rs\<close>, and the wrappers of \<^verbatim>\<open>config/rune.rs\<close>; rune is the record
      \<^verbatim>\<open>rune_lib\<close>, the contract of its registry the locale \<^verbatim>\<open>registry\<close>.
    \<^item> \<^verbatim>\<open>Engine_Config\<close>: the configuration and \<^verbatim>\<open>load_config\<close> of \<^verbatim>\<open>config/engine/mod.rs\<close>, and
      \<^verbatim>\<open>DnsServer\<close> of \<^verbatim>\<open>config/engine/tun.rs\<close>.
    \<^item> \<^verbatim>\<open>Socks5_Task\<close>, \<^verbatim>\<open>Http_Task\<close>: the task \<^verbatim>\<open>handle_acceptors\<close> spawns for a connection, for the
      two kinds of listeners: the handshake, the call of the script's handler, the reply and the
      copying, with every error return.  The HTTP task runs the step relation of
      \<^verbatim>\<open>Http_Acceptor\<close>; an invariant, progress and termination are shown for both.
    \<^item> \<^verbatim>\<open>Engine\<close>: \<^verbatim>\<open>Engine::run\<close> as a state of listeners and tasks, \<^verbatim>\<open>core/acceptor/mod.rs\<close> and
      \<^verbatim>\<open>main\<close> of \<^verbatim>\<open>bin/dandelion.rs\<close>.
    \<^item> \<^verbatim>\<open>Engine_Forwarding\<close>: what every reachable engine satisfies: bytes are forwarded
      unchanged and to the endpoint requested, no success is reported before there is a
      connection, a plain HTTP client's requests go to one endpoint in order, connections do
      not disturb each other, well-behaved clients can be served, and the steps end.
    \<^item> \<^verbatim>\<open>Tun_Device\<close>: \<^verbatim>\<open>core/tun/device.rs\<close>, over the contract of the builder (locale
      \<^verbatim>\<open>tun_builder\<close>).
    \<^item> \<^verbatim>\<open>Repository_Tests\<close>: unit tests of \<^verbatim>\<open>core/endpoint.rs\<close> and \<^verbatim>\<open>core/tun/resolver.rs\<close> as
      functions over the model, and that they pass; the test of the address pool in general.
      \<^verbatim>\<open>Script_Tests\<close>: those of \<^verbatim>\<open>ConnectRequest\<close>, which run a script (locale \<^verbatim>\<open>runs_script\<close>).

  \<^bold>\<open>State and concurrency.\<close>  A future that is polled by hand (TCP connector, simplex stream) is
  its state and a function per poll, whose surroundings are arguments of each call.  Async code
  that reads and writes in sequence is a program of \<^verbatim>\<open>Byte_Io\<close>.  Connections with callbacks
  (HTTP, simplex server) and the engine are step relations, and their properties hold in every
  reachable state, that is for every schedule.  A panic is a value (\<^verbatim>\<open>Panic\<close> or a phase of its
  own), so that a theorem can exclude it or show that it happens.

  \<^bold>\<open>Loops.\<close>  No definition needs fuel: the loops are structural, or recursive on the reads that
  are left with a measure.  In \<^verbatim>\<open>Socks5_Task\<close> and \<^verbatim>\<open>Http_Task\<close> a client and a remote end have
  finitely many bytes and requests to send, fixed when the connection starts; termination there
  means that nothing else keeps a task running.

  \<^bold>\<open>Parameters.\<close>  The LRU cache, HTTP parsing and header maps, the WebSocket library, URIs, QUIC,
  TLS, the operating system's name lookup, the Hickory client, IP networks, the database
  reader and the script language are not part of the repository.  They are arguments of the
  definitions that use them; where a theorem relies on one, its documented behaviour is a
  locale, with a concrete implementation as interpretation.

  \<^bold>\<open>Not modelled.\<close>  The \<^verbatim>\<open>Io\<close> trait of \<^verbatim>\<open>core/io.rs\<close> and the module declarations, which have no
  logic; the start of the logger; the unit tests that create resolvers, databases and
  lists in scripts, parse URIs or ask real name servers.  Responses of a plain HTTP connection
  are not part of its task, because hyper relays them on the client connection it is given.
  The engine's tasks are spawned on a local task set, which is assumed to exist.

  \<^bold>\<open>What is left.\<close>  Routes with TLS, QUIC and simplex hops, whose streams are not byte streams of
  this repository: there the connectors are modelled, and their composition is not.
\<close>

end
